(* ===== verification/GoBase.thy ===== *)
theory GoBase
  imports Main "HOL-Library.Word" "HOL-Library.Monad_Syntax"
begin

unbundle bit_operations_syntax

text \<open>
  The part of Go and of its standard library that the models share: byte slices with the
  bounds checks of the language, fixed-width reads (\<^verbatim>\<open>encoding/binary\<close>), decimal and
  hexadecimal printing (\<^verbatim>\<open>strconv\<close>, \<^verbatim>\<open>fmt\<close>), the string functions in use
  (\<^verbatim>\<open>strings\<close>), the iteration order of a Go map, and \<^verbatim>\<open>time\<close> arithmetic.

  An expression that can panic has a result of option type, and \<open>None\<close> is the panic: no
  goroutine of the program recovers, so a panic ends the process.  Go strings are byte
  strings, and so is HOL's \<open>string\<close>.
\<close>

named_theorems go_slice "bounds-checked slice and index expressions"
named_theorems go_int "fixed-width reads of byte strings"

type_synonym byte = "8 word"
type_synonym bytes = "8 word list"
type_synonym time = int      \<comment> \<open>\<^verbatim>\<open>time.Time\<close>, in nanoseconds\<close>
type_synonym duration = int  \<comment> \<open>\<^verbatim>\<open>time.Duration\<close>, in nanoseconds\<close>

section \<open>Slices\<close>

text \<open>
  \<open>go_index xs i\<close> is \<^verbatim>\<open>xs[i]\<close>, \<open>go_range xs a b\<close> is \<^verbatim>\<open>xs[a:b]\<close> and
  \<open>go_from xs a\<close> is \<^verbatim>\<open>xs[a:]\<close>.  These three see a slice whose capacity is its
  length; the one place of the program where a slice expression can reach past the length,
  into the spare capacity, uses the type \<open>slice\<close> below.
\<close>

definition go_index :: "'a list \<Rightarrow> nat \<Rightarrow> 'a option" where
  "go_index xs i = (if i < length xs then Some (xs ! i) else None)"

definition go_range :: "'a list \<Rightarrow> nat \<Rightarrow> nat \<Rightarrow> 'a list option" where
  "go_range xs a b =
     (if a \<le> b \<and> b \<le> length xs then Some (take (b - a) (drop a xs)) else None)"

definition go_from :: "'a list \<Rightarrow> nat \<Rightarrow> 'a list option" where
  "go_from xs a = (if a \<le> length xs then Some (drop a xs) else None)"

lemma go_index_Some [go_slice]: "i < length xs \<Longrightarrow> go_index xs i = Some (xs ! i)"
  by (simp add: go_index_def)

lemma go_range_Some [go_slice]:
  "a \<le> b \<Longrightarrow> b \<le> length xs \<Longrightarrow> go_range xs a b = Some (take (b - a) (drop a xs))"
  by (simp add: go_range_def)

lemma go_from_Some [go_slice]: "a \<le> length xs \<Longrightarrow> go_from xs a = Some (drop a xs)"
  by (simp add: go_from_def)

lemma go_from_length: "go_from xs a = Some ys \<Longrightarrow> length ys = length xs - a"
  by (auto simp: go_from_def split: if_splits)

lemma go_range_length: "go_range xs a b = Some ys \<Longrightarrow> length ys = b - a"
  by (auto simp: go_range_def split: if_splits)

lemma drop_length_less: "0 < k \<Longrightarrow> k \<le> length xs \<Longrightarrow> length (drop k xs) < length xs"
  by simp

text \<open>
  A slice with its spare capacity: \<open>vis\<close> are the bytes up to \<^verbatim>\<open>len\<close>, \<open>spare\<close>
  those from \<^verbatim>\<open>len\<close> to \<^verbatim>\<open>cap\<close>.  Go checks the upper bound of a two-index slice
  expression against the capacity, but an index and the implicit upper bound of
  \<^verbatim>\<open>s[a:]\<close> against the length.
\<close>

datatype slice = Slice (vis: "bytes") (spare: "bytes")

definition slice_of :: "bytes \<Rightarrow> slice" where
  "slice_of b = Slice b []"

definition sl_len :: "slice \<Rightarrow> nat" where
  "sl_len s = length (vis s)"

definition sl_cap :: "slice \<Rightarrow> nat" where
  "sl_cap s = length (vis s) + length (spare s)"

definition sl_index :: "slice \<Rightarrow> nat \<Rightarrow> byte option" where
  "sl_index s i = go_index (vis s) i"

definition sl_range :: "slice \<Rightarrow> nat \<Rightarrow> nat \<Rightarrow> slice option" where
  "sl_range s a b =
     (if a \<le> b \<and> b \<le> sl_cap s
      then Some (Slice (take (b - a) (drop a (vis s @ spare s))) (drop b (vis s @ spare s)))
      else None)"

definition sl_from :: "slice \<Rightarrow> nat \<Rightarrow> slice option" where
  "sl_from s a = (if a \<le> sl_len s then Some (Slice (drop a (vis s)) (spare s)) else None)"

lemma sl_simps [simp]:
  "sl_len (Slice v s) = length v" "sl_cap (Slice v s) = length v + length s"
  "vis (slice_of b) = b" "spare (slice_of b) = []" "sl_len (slice_of b) = length b"
  by (simp_all add: sl_len_def sl_cap_def slice_of_def)

lemma sl_index_Some [go_slice]: "i < sl_len s \<Longrightarrow> sl_index s i = Some (vis s ! i)"
  by (simp add: sl_index_def sl_len_def go_index_def)

lemma sl_from_Some [go_slice]:
  "a \<le> sl_len s \<Longrightarrow> sl_from s a = Some (Slice (drop a (vis s)) (spare s))"
  by (simp add: sl_from_def)

lemma sl_range_vis [go_slice]:
  "a \<le> b \<Longrightarrow> b \<le> sl_len s \<Longrightarrow>
   sl_range s a b =
     Some (Slice (take (b - a) (drop a (vis s))) (drop b (vis s) @ spare s))"
  by (cases s) (simp add: sl_range_def)

lemma sl_range_None: "sl_range s a b = None \<longleftrightarrow> \<not> (a \<le> b \<and> b \<le> sl_cap s)"
  by (simp add: sl_range_def)

section \<open>Fixed-width reads\<close>

text \<open>
  \<^verbatim>\<open>binary.BigEndian.Uint16\<close> and its kin read the first bytes of a slice and panic on a
  shorter one.
\<close>

fun be16 :: "bytes \<Rightarrow> 16 word option" where
  "be16 (a # b # _) = Some (push_bit 8 (ucast a) OR ucast b)"
| "be16 _ = None"

fun be32 :: "bytes \<Rightarrow> 32 word option" where
  "be32 (a # b # c # d # _) =
     Some (push_bit 24 (ucast a) OR push_bit 16 (ucast b) OR push_bit 8 (ucast c) OR ucast d)"
| "be32 _ = None"

fun le16 :: "bytes \<Rightarrow> 16 word option" where
  "le16 (a # b # _) = Some (ucast a OR push_bit 8 (ucast b))"
| "le16 _ = None"

fun le32 :: "bytes \<Rightarrow> 32 word option" where
  "le32 (a # b # c # d # _) =
     Some (ucast a OR push_bit 8 (ucast b) OR push_bit 16 (ucast c) OR push_bit 24 (ucast d))"
| "le32 _ = None"

text \<open>The writers of the same formats, for the round trips.\<close>

definition put_be16 :: "16 word \<Rightarrow> bytes" where
  "put_be16 w = [ucast (drop_bit 8 w), ucast w]"

definition put_be32 :: "32 word \<Rightarrow> bytes" where
  "put_be32 w = [ucast (drop_bit 24 w), ucast (drop_bit 16 w), ucast (drop_bit 8 w), ucast w]"

definition put_le16 :: "16 word \<Rightarrow> bytes" where
  "put_le16 w = [ucast w, ucast (drop_bit 8 w)]"

definition put_le32 :: "32 word \<Rightarrow> bytes" where
  "put_le32 w = [ucast w, ucast (drop_bit 8 w), ucast (drop_bit 16 w), ucast (drop_bit 24 w)]"

lemma put_length [simp]:
  "length (put_be16 w) = 2" "length (put_be32 v) = 4"
  "length (put_le16 w) = 2" "length (put_le32 v) = 4"
  by (simp_all add: put_be16_def put_be32_def put_le16_def put_le32_def)

lemma ucast_parts_16: "ucast (ucast (w :: 16 word) :: byte) = (take_bit 8 w)"
  by (rule bit_word_eqI) (auto simp: bit_simps)

lemma ucast_parts_32: "ucast (ucast (w :: 32 word) :: byte) = (take_bit 8 w)"
  by (rule bit_word_eqI) (auto simp: bit_simps)

lemma bytes_join_16: "push_bit 8 (take_bit 8 (drop_bit 8 w)) OR take_bit 8 w = (w :: 16 word)"
  by (rule bit_word_eqI) (auto simp: bit_simps)

lemma bytes_join_32:
  "push_bit 24 (take_bit 8 (drop_bit 24 w)) OR push_bit 16 (take_bit 8 (drop_bit 16 w)) OR
   push_bit 8 (take_bit 8 (drop_bit 8 w)) OR take_bit 8 w = (w :: 32 word)"
proof (rule bit_word_eqI)
  fix n assume "n < LENGTH(32)"
  then consider "n < 8" | "8 \<le> n" "n < 16" | "16 \<le> n" "n < 24" | "24 \<le> n" "n < 32"
    by fastforce
  then show "bit (push_bit 24 (take_bit 8 (drop_bit 24 w)) OR
      push_bit 16 (take_bit 8 (drop_bit 16 w)) OR
      push_bit 8 (take_bit 8 (drop_bit 8 w)) OR take_bit 8 w) n = bit w n"
    by cases (auto simp: bit_simps less_diff_conv2)
qed

lemma be16_put [simp, go_int]: "be16 (put_be16 w @ r) = Some w"
  by (simp add: put_be16_def ucast_parts_16 bytes_join_16)

lemma be32_put [simp, go_int]: "be32 (put_be32 w @ r) = Some w"
  using bytes_join_32 [of w] by (simp add: put_be32_def ucast_parts_32)

lemma le16_put [simp, go_int]: "le16 (put_le16 w @ r) = Some w"
  using bytes_join_16 [of w] by (simp add: put_le16_def ucast_parts_16 ac_simps)

lemma le32_put [simp, go_int]: "le32 (put_le32 w @ r) = Some w"
  using bytes_join_32 [of w] by (simp add: put_le32_def ucast_parts_32 ac_simps)

lemmas read_put_nil [simp, go_int] =
  be16_put [where r = "[]", simplified] be32_put [where r = "[]", simplified]
  le16_put [where r = "[]", simplified] le32_put [where r = "[]", simplified]

lemma be16_defined: "2 \<le> length b \<Longrightarrow> \<exists>w. be16 b = Some w"
  by (cases b rule: be16.cases) auto

lemma be32_defined: "4 \<le> length b \<Longrightarrow> \<exists>w. be32 b = Some w"
  by (cases b rule: be32.cases) auto

lemma le16_defined: "2 \<le> length b \<Longrightarrow> \<exists>w. le16 b = Some w"
  by (cases b rule: le16.cases) auto

lemma le32_defined: "4 \<le> length b \<Longrightarrow> \<exists>w. le32 b = Some w"
  by (cases b rule: le32.cases) auto

lemma be16_None [simp]: "be16 b = None \<longleftrightarrow> length b < 2"
  by (cases b rule: be16.cases) auto

lemma be32_None [simp]: "be32 b = None \<longleftrightarrow> length b < 4"
  by (cases b rule: be32.cases) auto

lemma le16_None [simp]: "le16 b = None \<longleftrightarrow> length b < 2"
  by (cases b rule: le16.cases) auto

lemma le32_None [simp]: "le32 b = None \<longleftrightarrow> length b < 4"
  by (cases b rule: le32.cases) auto

lemmas read_None = be16_None be32_None le16_None le32_None

lemma unat_of_small16: "n < 65536 \<Longrightarrow> unat (word_of_nat n :: 16 word) = n"
proof -
  assume "n < 65536"
  moreover have "unat (word_of_nat n :: 16 word) = of_nat (take_bit LENGTH(16) n)"
    by (rule unsigned_of_nat)
  ultimately show ?thesis by (simp add: take_bit_nat_eq_self)
qed

lemma unat_of_small8: "n < 256 \<Longrightarrow> unat (word_of_nat n :: 8 word) = n"
proof -
  assume "n < 256"
  moreover have "unat (word_of_nat n :: 8 word) = of_nat (take_bit LENGTH(8) n)"
    by (rule unsigned_of_nat)
  ultimately show ?thesis by (simp add: take_bit_nat_eq_self)
qed

lemma unat_of_small32: "n < 4294967296 \<Longrightarrow> unat (word_of_nat n :: 32 word) = n"
proof -
  assume "n < 4294967296"
  moreover have "unat (word_of_nat n :: 32 word) = of_nat (take_bit LENGTH(32) n)"
    by (rule unsigned_of_nat)
  ultimately show ?thesis by (simp add: take_bit_nat_eq_self)
qed

end
