(* ===== verification/GoStrings.thy ===== *)
theory GoStrings
  imports GoBase
begin

text \<open>
  The functions of \<^verbatim>\<open>strconv\<close>, \<^verbatim>\<open>strings\<close> and \<^verbatim>\<open>fmt\<close> that the program
  calls, with the round trips that the path and label lemmas need; then the iteration order
  of a Go map and \<^verbatim>\<open>time\<close> arithmetic.
\<close>

section \<open>Numbers to text and back\<close>

definition digit :: "nat \<Rightarrow> char" where
  "digit d = ''0123456789abcdef'' ! d"

fun dec :: "nat \<Rightarrow> string" where
  "dec n = (if n < 10 then [digit n] else dec (n div 10) @ [digit (n mod 10)])"

declare dec.simps [simp del]

text \<open>Lower-case hexadecimal without leading zeros (\<^verbatim>\<open>appendHex\<close> of \<^verbatim>\<open>net/netip\<close>).\<close>

fun hexs :: "nat \<Rightarrow> string" where
  "hexs n = (if n < 16 then [digit n] else hexs (n div 16) @ [digit (n mod 16)])"

declare hexs.simps [simp del]

text \<open>\<^verbatim>\<open>%02x\<close> of a byte.\<close>

definition hex2 :: "byte \<Rightarrow> string" where
  "hex2 b = [digit (unat b div 16), digit (unat b mod 16)]"

definition sdec :: "int \<Rightarrow> string" where
  "sdec i = (if i < 0 then ''-'' @ dec (nat (- i)) else dec (nat i))"

definition udec :: "'a::len word \<Rightarrow> string" where
  "udec w = dec (unat w)"

definition is_digit :: "char \<Rightarrow> bool" where
  "is_digit c \<longleftrightarrow> 48 \<le> (of_char c :: nat) \<and> (of_char c :: nat) \<le> 57"

definition digit_val :: "char \<Rightarrow> nat" where
  "digit_val c = of_char c - 48"

fun parse_digits :: "nat \<Rightarrow> string \<Rightarrow> nat option" where
  "parse_digits n [] = Some n"
| "parse_digits n (c # cs) =
     (if is_digit c then parse_digits (10 * n + digit_val c) cs else None)"

text \<open>\<^verbatim>\<open>strconv.ParseUint(s, 10, 64)\<close>: \<open>None\<close> on a syntax or a range error.\<close>

definition parse_uint64 :: "string \<Rightarrow> 64 word option" where
  "parse_uint64 s =
     (if s = [] then None
      else case parse_digits 0 s of
             None \<Rightarrow> None
           | Some n \<Rightarrow> if n < 2 ^ 64 then Some (word_of_nat n) else None)"

lemma of_char_digit: "d < 10 \<Longrightarrow> (of_char (digit d) :: nat) = 48 + d"
proof -
  assume "d < 10"
  then have "d \<in> {0, 1, 2, 3, 4, 5, 6, 7, 8, 9}" by auto
  then show ?thesis by (elim insertE) (simp_all add: digit_def)
qed

lemma is_digit_digit [simp]: "d < 10 \<Longrightarrow> is_digit (digit d)"
  by (simp add: is_digit_def of_char_digit)

lemma digit_val_digit [simp]: "d < 10 \<Longrightarrow> digit_val (digit d) = d"
  by (simp add: digit_val_def of_char_digit)

lemma dec_nonempty [simp]: "dec n \<noteq> []"
  by (subst dec.simps) simp

lemma dec_digits: "\<forall>c \<in> set (dec n). is_digit c"
proof (induction n rule: dec.induct)
  case (1 n)
  then show ?case by (cases "n < 10") (auto simp: dec.simps [of n])
qed

lemma parse_digits_append:
  "parse_digits k (xs @ ys) = Option.bind (parse_digits k xs) (\<lambda>m. parse_digits m ys)"
  by (induction xs arbitrary: k) auto

lemma parse_digits_dec: "parse_digits 0 (dec n) = Some n"
proof (induction n rule: dec.induct)
  case (1 n)
  then show ?case by (cases "n < 10") (auto simp: dec.simps [of n] parse_digits_append)
qed

lemma dec_inject [simp]: "dec m = dec n \<longleftrightarrow> m = n"
  by (metis option.inject parse_digits_dec)

lemma udec_inject [simp]: "udec v = udec w \<longleftrightarrow> v = w"
  by (simp add: udec_def word_unat_eq_iff)

lemma udec_nonempty [simp]: "udec w \<noteq> []"
  by (simp add: udec_def)

lemma parse_uint64_udec: "parse_uint64 (udec (w :: 64 word)) = Some w"
proof -
  have "unat w < 2 ^ LENGTH(64)" by (rule unsigned_less)
  then show ?thesis by (simp add: parse_uint64_def udec_def parse_digits_dec)
qed

lemma not_digit_in_dec: "\<not> is_digit c \<Longrightarrow> c \<notin> set (dec n)"
  using dec_digits by blast

section \<open>Searching, splitting and joining\<close>

definition has_prefix :: "string \<Rightarrow> string \<Rightarrow> bool" where
  "has_prefix s p \<longleftrightarrow> take (length p) s = p"

definition has_suffix :: "string \<Rightarrow> string \<Rightarrow> bool" where
  "has_suffix s p \<longleftrightarrow> take (length p) (rev s) = rev p"

text \<open>\<^verbatim>\<open>strings.IndexByte\<close> and \<^verbatim>\<open>strings.Index\<close>; \<open>None\<close> is the result -1.\<close>

fun index_byte :: "string \<Rightarrow> char \<Rightarrow> nat option" where
  "index_byte [] c = None"
| "index_byte (x # xs) c = (if x = c then Some 0 else map_option Suc (index_byte xs c))"

fun index_str :: "string \<Rightarrow> string \<Rightarrow> nat option" where
  "index_str s p =
     (if has_prefix s p then Some 0
      else case s of [] \<Rightarrow> None | _ # s' \<Rightarrow> map_option Suc (index_str s' p))"

declare index_str.simps [simp del]

definition contains_str :: "string \<Rightarrow> string \<Rightarrow> bool" where
  "contains_str s p \<longleftrightarrow> index_str s p \<noteq> None"

text \<open>\<^verbatim>\<open>strings.Split(s, sep)\<close> for a separator of one byte, and \<^verbatim>\<open>SplitN(s, sep, 2)\<close>.\<close>

fun split_on :: "char \<Rightarrow> string \<Rightarrow> string list" where
  "split_on c [] = [[]]"
| "split_on c (x # xs) =
     (if x = c then [] # split_on c xs
      else case split_on c xs of [] \<Rightarrow> [[x]] | y # ys \<Rightarrow> (x # y) # ys)"

definition split_n2 :: "char \<Rightarrow> string \<Rightarrow> string list" where
  "split_n2 c s =
     (case index_byte s c of None \<Rightarrow> [s] | Some i \<Rightarrow> [take i s, drop (Suc i) s])"

fun join_with :: "string \<Rightarrow> string list \<Rightarrow> string" where
  "join_with sep [] = []"
| "join_with sep [x] = x"
| "join_with sep (x # y # ys) = x @ sep @ join_with sep (y # ys)"

definition is_space :: "char \<Rightarrow> bool" where
  "is_space c \<longleftrightarrow> of_char c \<in> {9, 10, 11, 12, 13, 32 :: nat}"

definition trim_left :: "(char \<Rightarrow> bool) \<Rightarrow> string \<Rightarrow> string" where
  "trim_left p s = dropWhile p s"

definition trim_right :: "(char \<Rightarrow> bool) \<Rightarrow> string \<Rightarrow> string" where
  "trim_right p s = rev (dropWhile p (rev s))"

text \<open>
  \<^verbatim>\<open>strings.TrimSpace\<close> and \<^verbatim>\<open>strings.Fields\<close>, on ASCII white space (the texts they
  are applied to are kernel files, configuration values and interface names).
\<close>

definition trim_space :: "string \<Rightarrow> string" where
  "trim_space s = trim_right is_space (trim_left is_space s)"

fun fields_acc :: "string \<Rightarrow> string \<Rightarrow> string list" where
  "fields_acc w [] = (if w = [] then [] else [w])"
| "fields_acc w (c # cs) =
     (if is_space c then (if w = [] then fields_acc [] cs else w # fields_acc [] cs)
      else fields_acc (w @ [c]) cs)"

definition str_fields :: "string \<Rightarrow> string list" where
  "str_fields s = fields_acc [] s"

definition lower :: "char \<Rightarrow> char" where
  "lower c = (if 65 \<le> (of_char c :: nat) \<and> (of_char c :: nat) \<le> 90
              then char_of ((of_char c :: nat) + 32) else c)"

lemma split_on_nonempty [simp]: "split_on c s \<noteq> []"
  by (induction s) (auto split: list.splits)

lemma split_on_no_sep: "c \<notin> set s \<Longrightarrow> split_on c s = [s]"
  by (induction s) auto

lemma split_on_sep: "c \<notin> set s \<Longrightarrow> split_on c (s @ c # t) = s # split_on c t"
  by (induction s) auto

text \<open>Splitting what was joined gives the parts back, when no part holds the separator.\<close>

lemma split_join:
  assumes "\<forall>x \<in> set xs. c \<notin> set x" and "xs \<noteq> []"
  shows "split_on c (join_with [c] xs) = xs"
  using assms
  by (induction "[c]" xs rule: join_with.induct) (auto simp: split_on_no_sep split_on_sep)

lemma join_split: "join_with [c] (split_on c s) = s"
proof (induction s)
  case (Cons x xs)
  then show ?case
    by (cases "split_on c xs"; cases "tl (split_on c xs)") (auto split: list.splits)
qed simp

lemma index_byte_None: "index_byte s c = None \<longleftrightarrow> c \<notin> set s"
  by (induction s) auto

lemma index_byte_append: "c \<notin> set s \<Longrightarrow> index_byte (s @ c # t) c = Some (length s)"
  by (induction s) auto

lemma has_prefix_append [simp]: "has_prefix (p @ s) p"
  by (simp add: has_prefix_def)

lemma fields_acc_word: "\<forall>c \<in> set s. \<not> is_space c \<Longrightarrow> fields_acc w (s @ r) = fields_acc (w @ s) r"
  by (induction s arbitrary: w) auto

lemma fields_word_end: "\<forall>c \<in> set s. \<not> is_space c \<Longrightarrow> s \<noteq> [] \<Longrightarrow> fields_acc [] s = [s]"
  using fields_acc_word [of s "[]" "[]"] by simp

lemma index_str_prefix [simp]: "index_str (p @ s) p = Some 0"
  by (subst index_str.simps) simp

section \<open>Maps\<close>

text \<open>
  A Go map is iterated in an order that the runtime picks anew for each loop.  A loop over
  the map \<open>m\<close> is modelled as a fold over a list of its entries; every theorem about such
  a loop holds for any list that enumerates the map.
\<close>

definition enumerates :: "('k \<times> 'v) list \<Rightarrow> ('k \<Rightarrow> 'v option) \<Rightarrow> bool" where
  "enumerates xs m \<longleftrightarrow> distinct (map fst xs) \<and> map_of xs = m"

lemma enumerates_distinct: "enumerates xs m \<Longrightarrow> distinct (map fst xs)"
  by (simp add: enumerates_def)

lemma enumerates_lookup: "enumerates xs m \<Longrightarrow> m k = Some v \<longleftrightarrow> (k, v) \<in> set xs"
  by (auto simp: enumerates_def)

lemma enumerates_dom: "enumerates xs m \<Longrightarrow> dom m = fst ` set xs"
  using dom_map_of_conv_image_fst [of xs] by (simp only: enumerates_def)

lemma enumerable:
  assumes "finite (dom m)"
  shows "\<exists>xs. enumerates xs m"
proof -
  from finite_distinct_list [OF assms] obtain ks where ks: "set ks = dom m" "distinct ks" by blast
  then have "enumerates (map (\<lambda>k. (k, the (m k))) ks) m"
    by (simp add: enumerates_def comp_def map_of_map_keys)
  then show ?thesis by blast
qed

lemma enumerates_finite: "enumerates xs m \<Longrightarrow> finite (dom m)"
  by (simp add: enumerates_dom)

section \<open>Time\<close>

text \<open>\<^verbatim>\<open>Time.Sub\<close> saturates at the ends of the 64-bit range.\<close>

definition time_sub :: "time \<Rightarrow> time \<Rightarrow> duration" where
  "time_sub a b = max (- (2 ^ 63)) (min (2 ^ 63 - 1) (a - b))"

text \<open>Go's integer division truncates towards zero.\<close>

definition go_div :: "int \<Rightarrow> int \<Rightarrow> int" where
  "go_div a b = sgn a * sgn b * (\<bar>a\<bar> div \<bar>b\<bar>)"

definition milliseconds :: "duration \<Rightarrow> int" where
  "milliseconds d = go_div d 1000000"

definition second :: duration where "second = 1000000000"
definition millisecond :: duration where "millisecond = 1000000"

text \<open>\<^verbatim>\<open>Duration.String\<close>: \<open>frac v prec\<close> is its \<^verbatim>\<open>fmtFrac\<close>.\<close>

definition frac :: "nat \<Rightarrow> nat \<Rightarrow> string" where
  "frac v prec =
     (let d = dec (v mod 10 ^ prec);
          s = trim_right (\<lambda>c. c = CHR ''0'') (replicate (prec - length d) (CHR ''0'') @ d)
      in if s = [] then [] else ''.'' @ s)"

definition dur_string :: "duration \<Rightarrow> string" where
  "dur_string t =
     (let u = nat \<bar>t\<bar>; sign = (if t < 0 then ''-'' else '''') in
      if u = 0 then ''0s''
      else if u < 1000 then sign @ dec u @ ''ns''
      else if u < 1000000
           then sign @ dec (u div 1000) @ frac u 3 @ [char_of (194::nat), char_of (181::nat)] @ ''s''
      else if u < 1000000000 then sign @ dec (u div 1000000) @ frac u 6 @ ''ms''
      else
        let s = u div 1000000000; m = s div 60; h = m div 60;
            secs = dec (s mod 60) @ frac u 9 @ ''s'' in
        sign @ (if m = 0 then secs
                else if h = 0 then dec m @ ''m'' @ secs
                else dec h @ ''h'' @ dec (m mod 60) @ ''m'' @ secs))"

lemma time_sub_mono: "a \<le> b \<Longrightarrow> time_sub a c \<le> time_sub b c"
  by (simp add: time_sub_def)

lemma time_sub_small: "\<bar>a - b\<bar> < 2 ^ 63 \<Longrightarrow> time_sub a b = a - b"
  by (simp add: time_sub_def abs_less_iff)

lemma time_sub_self [simp]: "time_sub a a = 0"
  by (simp add: time_sub_def)

lemma milliseconds_nonneg: "0 \<le> d \<Longrightarrow> 0 \<le> milliseconds d"
  by (simp add: milliseconds_def go_div_def pos_imp_zdiv_nonneg_iff sgn_if)

end
