(* ===== verification/NetIP.thy ===== *)
theory NetIP
  imports GoStrings
begin

text \<open>
  The part of Go's package \<^verbatim>\<open>net\<close> the program uses: \<^verbatim>\<open>net.IP\<close> (a byte slice,
  where nil and the empty slice behave alike and are both \<open>[]\<close>), \<^verbatim>\<open>net.IPNet\<close> and
  \<^verbatim>\<open>net.HardwareAddr\<close>, with their text forms.
\<close>

type_synonym ip = "bytes"

definition v4_in_v6 :: "ip \<Rightarrow> bool" where
  "v4_in_v6 b \<longleftrightarrow> length b = 16 \<and> take 12 b = replicate 10 0 @ [255, 255]"

text \<open>\<^verbatim>\<open>IP.To4\<close>: the address in four bytes, nil when it is not an IPv4 address.\<close>

definition to4 :: "ip \<Rightarrow> ip" where
  "to4 b = (if length b = 4 then b else if v4_in_v6 b then drop 12 b else [])"

definition dotted :: "bytes \<Rightarrow> string" where
  "dotted b = join_with ''.'' (map udec b)"

text \<open>
  \<^verbatim>\<open>netip.Addr.appendTo6\<close>: the longest run of at least two zero groups (the first of
  equal runs) is written \<open>::\<close>, every other group in hexadecimal without leading zeros.
\<close>

fun groups :: "bytes \<Rightarrow> nat list" where
  "groups (a # b # r) = (256 * unat a + unat b) # groups r"
| "groups _ = []"

definition zero_run :: "nat list \<Rightarrow> nat \<Rightarrow> nat" where
  "zero_run g i = length (takeWhile (\<lambda>x. x = 0) (drop i g))"

fun best_run :: "nat list \<Rightarrow> nat list \<Rightarrow> nat \<times> nat \<Rightarrow> nat \<times> nat" where
  "best_run g [] best = best"
| "best_run g (i # is) (s, n) =
     best_run g is (let l = zero_run g i in if 2 \<le> l \<and> n < l then (i, l) else (s, n))"

definition colons :: "nat list \<Rightarrow> string" where
  "colons g = join_with '':'' (map hexs g)"

definition ip6_string :: "bytes \<Rightarrow> string" where
  "ip6_string b =
     (let g = groups b; (s, n) = best_run g [0 ..< 8] (0, 0) in
      if n = 0 then colons g else colons (take s g) @ ''::'' @ colons (drop (s + n) g))"

text \<open>\<^verbatim>\<open>IP.String\<close>.\<close>

definition ip_string :: "ip \<Rightarrow> string" where
  "ip_string b =
     (if b = [] then ''<nil>''
      else if length b \<noteq> 4 \<and> length b \<noteq> 16 then ''?'' @ concat (map hex2 b)
      else if to4 b \<noteq> [] then dotted (to4 b)
      else ip6_string b)"

text \<open>\<^verbatim>\<open>IP.IsUnspecified\<close>: equal to \<^verbatim>\<open>0.0.0.0\<close> or to \<^verbatim>\<open>::\<close>.\<close>

definition is_unspecified :: "ip \<Rightarrow> bool" where
  "is_unspecified b \<longleftrightarrow>
     b = replicate 4 0 \<or> b = replicate 10 0 @ [255, 255, 0, 0, 0, 0] \<or> b = replicate 16 0"

text \<open>\<^verbatim>\<open>HardwareAddr.String\<close>.\<close>

definition mac_string :: "bytes \<Rightarrow> string" where
  "mac_string b = join_with '':'' (map hex2 b)"

text \<open>\<^verbatim>\<open>copy(dst, src)\<close> into a fresh buffer of \<open>n\<close> zero bytes.\<close>

definition copy_into :: "nat \<Rightarrow> bytes \<Rightarrow> bytes" where
  "copy_into n src = take n src @ replicate (n - length src) 0"

lemma copy_into_length [simp]: "length (copy_into n src) = n"
  by (simp add: copy_into_def)

lemma copy_into_exact [simp]: "length src = n \<Longrightarrow> copy_into n src = src"
  by (simp add: copy_into_def)

lemma to4_length: "to4 b \<noteq> [] \<Longrightarrow> length (to4 b) = 4"
  by (auto simp: to4_def v4_in_v6_def split: if_splits)

lemma ip_string_v4: "length b = 4 \<Longrightarrow> ip_string b = dotted b"
  by (auto simp: ip_string_def to4_def)

text \<open>The dotted form determines the four bytes.\<close>

lemma dot_not_digit: "CHR ''.'' \<notin> set (dec n)"
  by (rule not_digit_in_dec) (simp add: is_digit_def)

lemma slash_not_digit: "CHR ''/'' \<notin> set (dec n)"
  by (rule not_digit_in_dec) (simp add: is_digit_def)

lemma dotted_inject:
  assumes "dotted a = dotted b" and "a \<noteq> []" and "b \<noteq> []"
  shows "a = b"
proof -
  have "split_on CHR ''.'' (dotted x) = map udec x" if "x \<noteq> []" for x :: bytes
    unfolding dotted_def using that dot_not_digit by (intro split_join) (auto simp: udec_def)
  with assms have "map udec a = map udec b" by metis
  moreover have "inj (udec :: byte \<Rightarrow> string)" by (simp add: inj_def)
  ultimately show ?thesis by (simp add: inj_map_eq_map)
qed

lemma ip_string_v4_inject:
  "length a = 4 \<Longrightarrow> length b = 4 \<Longrightarrow> ip_string a = ip_string b \<longleftrightarrow> a = b"
  using dotted_inject by (fastforce simp: ip_string_v4)

text \<open>A prefix in CIDR notation, as the ingesters print it.\<close>

definition cidr :: "ip \<Rightarrow> nat \<Rightarrow> string" where
  "cidr a n = ip_string a @ ''/'' @ dec n"

lemma slash_not_dotted: "CHR ''/'' \<notin> set (dotted b)"
proof -
  have "CHR ''/'' \<notin> set (join_with ''.'' xs)" if "\<forall>x \<in> set xs. CHR ''/'' \<notin> set x" for xs
    using that by (induction "''.''" xs rule: join_with.induct) auto
  then show ?thesis by (simp add: dotted_def udec_def slash_not_digit)
qed

lemma cidr_v4_inject:
  assumes "length a = 4" and "length b = 4"
  shows "cidr a m = cidr b n \<longleftrightarrow> a = b \<and> m = n"
proof
  assume eq: "cidr a m = cidr b n"
  have "split_on CHR ''/'' (cidr x k) = [dotted x, dec k]" if "length x = 4" for x k
    using that by (simp add: cidr_def ip_string_v4 split_on_sep slash_not_dotted
        split_on_no_sep slash_not_digit)
  with eq assms have "dotted a = dotted b" and "dec m = dec n" by (metis list.inject)+
  with assms show "a = b \<and> m = n" by (auto dest!: dotted_inject)
qed simp

lemma cidr_nonempty [simp]: "cidr a n \<noteq> []"
  by (simp add: cidr_def)

text \<open>
  \<^verbatim>\<open>net.IPNet\<close> and its \<^verbatim>\<open>String\<close>: the prefix length when the mask is a run of ones,
  else the mask in hexadecimal.
\<close>

record ipnet =
  net_ip :: ip
  net_mask :: bytes

definition bits_of :: "byte \<Rightarrow> bool list" where
  "bits_of b = map (bit b) (rev [0 ..< 8])"

text \<open>\<^verbatim>\<open>simpleMaskLength\<close>: \<open>None\<close> is the result -1.\<close>

definition mask_length :: "bytes \<Rightarrow> nat option" where
  "mask_length m =
     (let bs = concat (map bits_of m); n = length (takeWhile id bs) in
      if True \<in> set (drop n bs) then None else Some n)"

definition ipnet_string :: "ipnet \<Rightarrow> string" where
  "ipnet_string n =
     (let ip4 = to4 (net_ip n);
          ipb = (if ip4 \<noteq> [] then ip4 else if length (net_ip n) = 16 then net_ip n else []);
          m = net_mask n;
          m' = (if length m = 4 then (if length ipb \<noteq> 4 then [] else m)
                else if length m = 16 then (if length ipb = 4 then drop 12 m else m)
                else []) in
      if ipb = [] \<or> m' = [] then ''<nil>''
      else case mask_length m' of
             None \<Rightarrow> ip_string ipb @ ''/'' @ concat (map hex2 m')
           | Some l \<Rightarrow> cidr ipb l)"

end
