(* ===== verification/GnmiTree.thy ===== *)
theory GnmiTree
  imports GoStrings
begin

text \<open>
  The gNMI messages the program builds (paths, updates, notifications), the wrapper
  \<^verbatim>\<open>internal/state/cache.go\<close> around the OpenConfig cache, and the tree a log of
  notifications denotes under the gNMI specification (deletes of a notification first, then
  its updates), which is the abstract view the ingesters' properties are stated on.
\<close>

section \<open>Messages\<close>

text \<open>
  \<^verbatim>\<open>gnmipb.PathElem\<close>: a name and its keys; a key map is the list of its entries.
\<close>

record path_elem =
  pe_name :: string
  pe_key :: "(string \<times> string) list"

record gpath =
  gp_target :: string
  gp_origin :: string
  gp_elem :: "path_elem list"

datatype typed_value =
    StringVal string
  | UintVal "64 word"
  | IntVal int
  | JsonVal string
  | JsonIetfVal string
  | OtherVal

record update =
  u_path :: gpath
  u_val :: typed_value

record notification =
  n_timestamp :: time
  n_prefix :: gpath
  n_update :: "update list"
  n_delete :: "gpath list"

definition el :: "string \<Rightarrow> path_elem" where
  "el n = \<lparr>pe_name = n, pe_key = []\<rparr>"

definition elk :: "string \<Rightarrow> (string \<times> string) list \<Rightarrow> path_elem" where
  "elk n ks = \<lparr>pe_name = n, pe_key = ks\<rparr>"

lemma el_inject [simp]:
  "el a = el b \<longleftrightarrow> a = b" "elk a k = elk b l \<longleftrightarrow> a = b \<and> k = l"
  "el a = elk b l \<longleftrightarrow> a = b \<and> l = []" "elk b l = el a \<longleftrightarrow> a = b \<and> l = []"
  by (auto simp: el_def elk_def)

lemma el_sel [simp]: "pe_name (el a) = a" "pe_key (el a) = []"
    "pe_name (elk a k) = a" "pe_key (elk a k) = k"
  by (simp_all add: el_def elk_def)

text \<open>\<^verbatim>\<open>&gnmipb.Path{Elem: elems}\<close>.\<close>

definition path_of :: "path_elem list \<Rightarrow> gpath" where
  "path_of es = \<lparr>gp_target = [], gp_origin = [], gp_elem = es\<rparr>"

lemma path_of_elem [simp]: "gp_elem (path_of es) = es"
  by (simp add: path_of_def)

lemma path_of_inject [simp]: "path_of a = path_of b \<longleftrightarrow> a = b"
  by (simp add: path_of_def)

definition strVal :: "string \<Rightarrow> typed_value" where
  "strVal s = StringVal s"

definition uintVal :: "64 word \<Rightarrow> typed_value" where
  "uintVal u = UintVal u"

definition leafUpdate :: "path_elem list \<Rightarrow> string \<Rightarrow> update" where
  "leafUpdate elems v = \<lparr>u_path = path_of elems, u_val = strVal v\<rparr>"

lemma leafUpdate_sel [simp]:
  "u_path (leafUpdate es v) = path_of es" "u_val (leafUpdate es v) = StringVal v"
  by (simp_all add: leafUpdate_def strVal_def)

text \<open>The optional tail of the path helpers: \<^verbatim>\<open>/state/<leaf>\<close> unless the leaf is empty.\<close>

definition with_leaf :: "path_elem list \<Rightarrow> string \<Rightarrow> path_elem list" where
  "with_leaf e leaf = (if leaf \<noteq> [] then e @ [el ''state'', el leaf] else e)"

lemma with_leaf_inject [simp]:
  "length e = length e' \<Longrightarrow> with_leaf e l = with_leaf e' l' \<longleftrightarrow> e = e' \<and> l = l'"
  by (auto simp: with_leaf_def)

section \<open>The cache wrapper\<close>

text \<open>
  \<^verbatim>\<open>state.Cache\<close> over the cache of the OpenConfig library, which is a parameter: a
  state of any type and its \<^verbatim>\<open>GnmiUpdate\<close>, which returns the new state and an error.
\<close>

type_synonym 'c gnmi_update = "'c \<Rightarrow> notification \<Rightarrow> 'c \<times> string option"

record 'c cache =
  ca_target :: string
  ca_c :: 'c

definition state_New :: "(string list \<Rightarrow> 'c) \<Rightarrow> string \<Rightarrow> 'c cache" where
  "state_New cache_new target = \<lparr>ca_target = target, ca_c = cache_new [target]\<rparr>"

definition notification_of ::
  "string \<Rightarrow> time \<Rightarrow> string \<Rightarrow> update list \<Rightarrow> gpath list \<Rightarrow> notification" where
  "notification_of target now origin ups dels =
     \<lparr>n_timestamp = now, n_prefix = \<lparr>gp_target = target, gp_origin = origin, gp_elem = []\<rparr>,
      n_update = ups, n_delete = dels\<rparr>"

definition Update ::
  "'c gnmi_update \<Rightarrow> 'c cache \<Rightarrow> time \<Rightarrow> string \<Rightarrow> update list \<Rightarrow> gpath list \<Rightarrow>
   'c cache \<times> string option" where
  "Update gu s now origin ups dels =
     (let (c, err) = gu (ca_c s) (notification_of (ca_target s) now origin ups dels) in
      (s\<lparr>ca_c := c\<rparr>, err))"

section \<open>The tree of a notification log\<close>

type_synonym tree = "string \<times> path_elem list \<Rightarrow> typed_value option"

text \<open>A delete removes every leaf at or below its path, in its origin.\<close>

definition below :: "path_elem list \<Rightarrow> path_elem list \<Rightarrow> bool" where
  "below d p \<longleftrightarrow> take (length d) p = d"

definition del_paths :: "string \<Rightarrow> path_elem list list \<Rightarrow> tree \<Rightarrow> tree" where
  "del_paths org ds t = (\<lambda>(o', p). if o' = org \<and> (\<exists>d \<in> set ds. below d p) then None else t (o', p))"

definition set_leaves :: "string \<Rightarrow> (path_elem list \<times> typed_value) list \<Rightarrow> tree \<Rightarrow> tree" where
  "set_leaves org us t = foldl (\<lambda>t (p, v). t((org, p) \<mapsto> v)) t us"

definition put_tree :: "string \<Rightarrow> update list \<Rightarrow> gpath list \<Rightarrow> tree \<Rightarrow> tree" where
  "put_tree org ups dels t =
     set_leaves org (map (\<lambda>u. (gp_elem (u_path u), u_val u)) ups)
       (del_paths org (map gp_elem dels) t)"

definition tree_notification :: "tree \<Rightarrow> notification \<Rightarrow> tree" where
  "tree_notification t n = put_tree (gp_origin (n_prefix n)) (n_update n) (n_delete n) t"

lemma below_refl [simp]: "below d d"
  by (simp add: below_def)

lemma below_append [simp]: "below d (d @ e)"
  by (simp add: below_def)

lemma below_with_leaf [simp]: "below e (with_leaf e l)"
  by (simp add: with_leaf_def)

lemma below_with_leaf_iff:
  "length d = length e \<Longrightarrow> below d (with_leaf e l) \<longleftrightarrow> d = e"
  by (auto simp: below_def with_leaf_def)

lemma set_leaves_simps [simp]:
  "set_leaves org [] t = t"
  "set_leaves org ((p, v) # us) t = set_leaves org us (t((org, p) \<mapsto> v))"
  by (simp_all add: set_leaves_def)

lemma set_leaves_append [simp]:
  "set_leaves org (us @ vs) t = set_leaves org vs (set_leaves org us t)"
  by (simp add: set_leaves_def)

lemma set_leaves_other_origin: "o' \<noteq> org \<Longrightarrow> set_leaves org us t (o', p) = t (o', p)"
  by (induction us arbitrary: t) auto

lemma set_leaves_other: "p \<notin> fst ` set us \<Longrightarrow> set_leaves org us t (o', p) = t (o', p)"
  by (induction us arbitrary: t) auto

lemma set_leaves_lookup:
  "distinct (map fst us) \<Longrightarrow>
   set_leaves org us t (org, p) = (case map_of us p of Some v \<Rightarrow> Some v | None \<Rightarrow> t (org, p))"
proof (induction us arbitrary: t)
  case (Cons u us)
  obtain q v where u: "u = (q, v)" by (cases u)
  show ?case
  proof (cases "q = p")
    case True
    with Cons.prems u show ?thesis by (simp add: set_leaves_other)
  next
    case False
    with Cons.IH [of "t((org, q) \<mapsto> v)"] Cons.prems u show ?thesis
      by (simp add: fun_upd_def split: option.split)
  qed
qed simp

lemma put_tree_other_origin: "o' \<noteq> org \<Longrightarrow> put_tree org ups dels t (o', p) = t (o', p)"
  by (simp add: put_tree_def set_leaves_other_origin del_paths_def)

lemma del_paths_lookup:
  "del_paths org ds t (o', p) =
     (if o' = org \<and> (\<exists>d \<in> set ds. below d p) then None else t (o', p))"
  by (simp add: del_paths_def)

lemma del_paths_Nil [simp]: "del_paths org [] t = t"
  by (auto simp: del_paths_def)

lemma put_tree_ups: "put_tree org ups [] t = set_leaves org (map (\<lambda>u. (gp_elem (u_path u), u_val u)) ups) t"
  by (simp add: put_tree_def)

lemma put_tree_dels: "put_tree org [] dels t = del_paths org (map gp_elem dels) t"
  by (simp add: put_tree_def)

lemma put_tree_some:
  "put_tree org ups dels t (o', p) = Some v \<Longrightarrow>
   o' = org \<and> (\<exists>u \<in> set ups. gp_elem (u_path u) = p \<and> u_val u = v) \<or> t (o', p) = Some v"
proof -
  have "set_leaves org us t (o', p) = Some v \<Longrightarrow> o' = org \<and> (p, v) \<in> set us \<or> t (o', p) = Some v" for us t
  proof (induction us arbitrary: t)
    case (Cons x us)
    obtain q u where "x = (q, u)" by (rule prod.exhaust)
    with Cons show ?case by (fastforce split: if_splits)
  qed simp
  from this [of "map (\<lambda>u. (gp_elem (u_path u), u_val u)) ups" "del_paths org (map gp_elem dels) t"]
  show "put_tree org ups dels t (o', p) = Some v \<Longrightarrow> ?thesis"
    by (auto simp: put_tree_def del_paths_def split: if_splits)
qed

text \<open>The wrapper over a cache that keeps the tree of its notifications.\<close>

definition tree_update :: "tree gnmi_update" where
  "tree_update t n = (tree_notification t n, None)"

lemma Update_tree:
  "ca_c (fst (Update tree_update s now origin ups dels)) = put_tree origin ups dels (ca_c s)"
  by (simp add: Update_def tree_update_def tree_notification_def notification_of_def)

end
