(* ===== verification/Simulation.thy ===== *)
theory Simulation
  imports Main
begin

text \<open>
  Two contracts that the stateful components share.  A component is a step function on a state
  and an operation.  \<open>invariant_system\<close> says that every admissible operation keeps an
  invariant; \<open>data_refinement\<close> adds an abstract machine that the component simulates under
  an abstraction function.  Both are lifted here, once, from a step to a run; the components
  interpret them.
\<close>

text \<open>Every operation of the run is admissible in the state it is applied to.\<close>

fun admissible :: "('s \<Rightarrow> 'op \<Rightarrow> 's) \<Rightarrow> ('s \<Rightarrow> 'op \<Rightarrow> bool) \<Rightarrow> 's \<Rightarrow> 'op list \<Rightarrow> bool" where
  "admissible step ok s [] = True"
| "admissible step ok s (x # xs) = (ok s x \<and> admissible step ok (step s x) xs)"

lemma admissible_append [simp]:
  "admissible step ok s (xs @ ys) =
     (admissible step ok s xs \<and> admissible step ok (foldl step s xs) ys)"
  by (induction xs arbitrary: s) auto

lemma admissible_always: "(\<And>s x. ok s x) \<Longrightarrow> admissible step ok s xs"
  by (induction xs arbitrary: s) auto

locale invariant_system =
  fixes step :: "'s \<Rightarrow> 'op \<Rightarrow> 's"
    and ok :: "'s \<Rightarrow> 'op \<Rightarrow> bool"
    and inv :: "'s \<Rightarrow> bool"
  assumes inv_step: "inv s \<Longrightarrow> ok s x \<Longrightarrow> inv (step s x)"
begin

lemma inv_run: "inv s \<Longrightarrow> admissible step ok s xs \<Longrightarrow> inv (foldl step s xs)"
  by (induction xs arbitrary: s) (auto intro: inv_step)

text \<open>A property that every step keeps under the invariant is kept by a run.\<close>

lemma stable_run:
  assumes "\<And>s x. inv s \<Longrightarrow> ok s x \<Longrightarrow> x \<in> A \<Longrightarrow> Q s \<Longrightarrow> Q (step s x)"
  shows "inv s \<Longrightarrow> admissible step ok s xs \<Longrightarrow> set xs \<subseteq> A \<Longrightarrow> Q s \<Longrightarrow> Q (foldl step s xs)"
  by (induction xs arbitrary: s) (auto intro: inv_step assms)

end

locale data_refinement = invariant_system step ok inv
  for step :: "'s \<Rightarrow> 'op \<Rightarrow> 's"
    and ok :: "'s \<Rightarrow> 'op \<Rightarrow> bool"
    and inv :: "'s \<Rightarrow> bool" +
  fixes astep :: "'a \<Rightarrow> 'op \<Rightarrow> 'a"
    and abs :: "'s \<Rightarrow> 'a"
  assumes sim_step: "inv s \<Longrightarrow> ok s x \<Longrightarrow> abs (step s x) = astep (abs s) x"
begin

lemma sim_run:
  "inv s \<Longrightarrow> admissible step ok s xs \<Longrightarrow> abs (foldl step s xs) = foldl astep (abs s) xs"
  by (induction xs arbitrary: s) (simp_all add: sim_step inv_step)

end

end
