(* ===== verification/Lineage.thy ===== *)
theory Lineage
  imports GoStrings Simulation
begin

text \<open>
  \<^verbatim>\<open>internal/lineage/lineage.go\<close>: the tracker that joins the three planes that can
  each witness one hop of a prefix's life, BMP (adj-rib-in), FPM (zebra's intent) and the
  kernel, and reports a route that zebra pushed and the kernel never confirmed.
\<close>

section \<open>Data\<close>

text \<open>\<^verbatim>\<open>Stage\<close>; \<open>NStages\<close> is the constant \<^verbatim>\<open>nStages\<close> that closes the enumeration.\<close>

datatype stage = RibIn | Fpm | Kernel | NStages

definition stage_index :: "stage \<Rightarrow> nat" where
  "stage_index s = (case s of RibIn \<Rightarrow> 0 | Fpm \<Rightarrow> 1 | Kernel \<Rightarrow> 2 | NStages \<Rightarrow> 3)"

lemma stage_index_inject: "stage_index a = stage_index b \<longleftrightarrow> a = b"
  by (cases a; cases b) (simp_all add: stage_index_def)

instantiation stage :: linorder
begin

definition "less_eq_stage a b \<longleftrightarrow> stage_index a \<le> stage_index b"

definition "less_stage a b \<longleftrightarrow> stage_index a < stage_index b"

instance
  by standard (auto simp: less_eq_stage_def less_stage_def stage_index_inject)

end

lemma stage_ge_NStages [simp]: "NStages \<le> s \<longleftrightarrow> s = NStages"
  by (cases s) (simp_all add: less_eq_stage_def stage_index_def)

lemma stage_less_NStages: "s < NStages \<longleftrightarrow> s \<noteq> NStages"
  by (cases s) (simp_all add: less_stage_def stage_index_def)

definition StageName :: "stage \<Rightarrow> string" where
  "StageName s =
     (case s of RibIn \<Rightarrow> ''rib-in'' | Fpm \<Rightarrow> ''fpm'' | Kernel \<Rightarrow> ''kernel'' | NStages \<Rightarrow> [])"

record hop =
  h_present :: bool
  h_ts :: time
  h_detail :: string

record entry =
  e_prefix :: string
  e_hops :: "stage \<Rightarrow> hop"
  e_kproto :: string
  e_flagged :: bool

text \<open>The zero values of Go: \<^verbatim>\<open>hop{}\<close> and \<^verbatim>\<open>&Entry{Prefix: prefix}\<close>.\<close>

definition no_hop :: hop where
  "no_hop = \<lparr>h_present = False, h_ts = 0, h_detail = []\<rparr>"

definition new_entry :: "string \<Rightarrow> entry" where
  "new_entry p = \<lparr>e_prefix = p, e_hops = (\<lambda>_. no_hop), e_kproto = [], e_flagged = False\<rparr>"

definition e_present :: "entry \<Rightarrow> stage \<Rightarrow> bool" where
  "e_present e s = h_present (e_hops e s)"

text \<open>
  \<^verbatim>\<open>Tracker\<close>.  The clock \<^verbatim>\<open>now\<close> is an argument of the operations that read
  it; \<open>t_emit\<close> says whether the hook \<^verbatim>\<open>emit\<close> is set.
\<close>

record tracker =
  t_routes :: "string \<Rightarrow> entry option"
  t_grace :: duration
  t_emit :: bool

definition lineage_New :: "duration \<Rightarrow> bool \<Rightarrow> tracker" where
  "lineage_New grace emit =
     \<lparr>t_routes = Map.empty, t_grace = (if grace \<le> 0 then 3 * second else grace), t_emit = emit\<rparr>"

section \<open>Operations\<close>

text \<open>\<^verbatim>\<open>protoOf\<close>: the token after \<^verbatim>\<open>proto=\<close> in a kernel-stage detail.\<close>

definition protoOf :: "string \<Rightarrow> string" where
  "protoOf detail =
     (case index_str detail ''proto='' of
        None \<Rightarrow> []
      | Some i \<Rightarrow>
          let s = drop (i + 6) detail in
          case index_byte s (CHR 0x20) of Some j \<Rightarrow> take j s | None \<Rightarrow> s)"

definition Observe :: "tracker \<Rightarrow> time \<Rightarrow> string \<Rightarrow> stage \<Rightarrow> bool \<Rightarrow> string \<Rightarrow> tracker" where
  "Observe t now prefix stage present detail =
     (if prefix = [] \<or> NStages \<le> stage then t
      else
        let e = (case t_routes t prefix of None \<Rightarrow> new_entry prefix | Some e \<Rightarrow> e);
            e1 = e\<lparr>e_hops := (e_hops e)(stage :=
                     \<lparr>h_present = present, h_ts = now, h_detail = detail\<rparr>)\<rparr>;
            e2 = (if stage = Kernel \<and> present
                  then e1\<lparr>e_flagged := False, e_kproto := protoOf detail\<rparr> else e1) in
        if \<not> present \<and> \<not> e_present e2 RibIn \<and> \<not> e_present e2 Fpm \<and> \<not> e_present e2 Kernel
        then t\<lparr>t_routes := (t_routes t)(prefix := None)\<rparr>
        else t\<lparr>t_routes := (t_routes t)(prefix \<mapsto> e2)\<rparr>)"

type_synonym anomaly = "string \<times> string \<times> string"  \<comment> \<open>kind, prefix, detail\<close>

definition gap_due :: "tracker \<Rightarrow> time \<Rightarrow> entry \<Rightarrow> bool" where
  "gap_due t now e \<longleftrightarrow>
     e_present e Fpm \<and> \<not> e_present e Kernel \<and> \<not> e_flagged e \<and>
     t_grace t < time_sub now (h_ts (e_hops e Fpm))"

definition gap_anomaly :: "tracker \<Rightarrow> entry \<Rightarrow> anomaly" where
  "gap_anomaly t e =
     (''install-gap'', e_prefix e,
      ''fpm pushed but kernel unconfirmed >'' @ dur_string (t_grace t) @
      '' ('' @ h_detail (e_hops e Fpm) @ '')'')"

text \<open>
  \<^verbatim>\<open>reconcile\<close>: one pass over the entries \<open>xs\<close> of the map, in the order of the loop; the
  result lists the anomalies passed to the hook after the lock is released.
\<close>

fun reconcile_loop :: "time \<Rightarrow> tracker \<Rightarrow> (string \<times> entry) list \<Rightarrow> tracker \<times> anomaly list" where
  "reconcile_loop now t [] = (t, [])"
| "reconcile_loop now t ((k, e) # xs) =
     (if gap_due t now e
      then let (t', out) =
             reconcile_loop now (t\<lparr>t_routes := (t_routes t)(k \<mapsto> e\<lparr>e_flagged := True\<rparr>)\<rparr>) xs
           in (t', gap_anomaly t e # out)
      else reconcile_loop now t xs)"

definition reconcile :: "tracker \<Rightarrow> time \<Rightarrow> (string \<times> entry) list \<Rightarrow> tracker \<times> anomaly list" where
  "reconcile t now xs =
     (let (t', out) = reconcile_loop now t xs in (t', if t_emit t then out else []))"

record row =
  r_prefix :: string
  r_stages :: "(string \<times> string) list"
  r_gap :: string

definition snapshot_row :: "entry \<Rightarrow> row" where
  "snapshot_row e =
     \<lparr>r_prefix = e_prefix e,
      r_stages =
        map (\<lambda>s. (StageName s,
                  if h_detail (e_hops e s) = [] then ''yes'' else h_detail (e_hops e s)))
          (filter (e_present e) [RibIn, Fpm, Kernel]),
      r_gap =
        (if e_present e Fpm \<and> \<not> e_present e Kernel then ''install-gap''
         else if e_present e Kernel \<and> \<not> e_present e Fpm \<and> e_kproto e = ''zebra''
              then ''orphan-kernel''
         else [])\<rparr>"

definition Snapshot :: "(string \<times> entry) list \<Rightarrow> row list" where
  "Snapshot xs = map (\<lambda>(_, e). snapshot_row e) xs"

section \<open>Runs\<close>

text \<open>
  The tracker under its callers: observations from the ingesters and passes of the reconcile
  loop, serialised by the tracker's mutex.  A pass is admissible with any enumeration of the
  current map.
\<close>

datatype lin_op =
    Obs time string stage bool string
  | Pass time "(string \<times> entry) list"

fun lin_step :: "tracker \<Rightarrow> lin_op \<Rightarrow> tracker" where
  "lin_step t (Obs now p s b d) = Observe t now p s b d"
| "lin_step t (Pass now xs) = fst (reconcile t now xs)"

fun lin_ok :: "tracker \<Rightarrow> lin_op \<Rightarrow> bool" where
  "lin_ok t (Obs _ _ _ _ _) = True"
| "lin_ok t (Pass _ xs) = enumerates xs (t_routes t)"

text \<open>
  The invariant: an entry is filed under its own prefix, some plane testifies for it, and when
  the kernel does, the entry is not flagged and remembers the protocol of the kernel's detail.
\<close>

definition t_inv :: "tracker \<Rightarrow> bool" where
  "t_inv t \<longleftrightarrow>
     (\<forall>p e. t_routes t p = Some e \<longrightarrow>
        p \<noteq> [] \<and> e_prefix e = p \<and> (\<exists>s. s \<noteq> NStages \<and> e_present e s) \<and>
        (e_present e Kernel \<longrightarrow>
           \<not> e_flagged e \<and> e_kproto e = protoOf (h_detail (e_hops e Kernel)))) \<and>
     finite (dom (t_routes t))"

text \<open>
  The abstract view: what each plane currently says of each prefix, with the time and the
  detail of its testimony.  On it an observation is the update of one point.
\<close>

type_synonym testimony = "string \<times> stage \<Rightarrow> (time \<times> string) option"

definition t_abs :: "tracker \<Rightarrow> testimony" where
  "t_abs t ps =
     (case t_routes t (fst ps) of
        None \<Rightarrow> None
      | Some e \<Rightarrow>
          if snd ps \<noteq> NStages \<and> e_present e (snd ps)
          then Some (h_ts (e_hops e (snd ps)), h_detail (e_hops e (snd ps))) else None)"

fun abs_step :: "testimony \<Rightarrow> lin_op \<Rightarrow> testimony" where
  "abs_step a (Obs now p s b d) =
     (if p = [] \<or> s = NStages then a else a((p, s) := if b then Some (now, d) else None))"
| "abs_step a (Pass _ _) = a"

section \<open>The reconcile pass\<close>

lemma reconcile_loop_grace [simp]: "t_grace (fst (reconcile_loop now t xs)) = t_grace t"
  by (induction now t xs rule: reconcile_loop.induct) (auto simp: Let_def split: prod.splits)

lemma reconcile_loop_emit [simp]: "t_emit (fst (reconcile_loop now t xs)) = t_emit t"
  by (induction now t xs rule: reconcile_loop.induct) (auto simp: Let_def split: prod.splits)

lemma gap_due_routes [simp]: "gap_due (t\<lparr>t_routes := r\<rparr>) now e = gap_due t now e"
  by (simp add: gap_due_def)

lemma gap_anomaly_routes [simp]: "gap_anomaly (t\<lparr>t_routes := r\<rparr>) e = gap_anomaly t e"
  by (simp add: gap_anomaly_def)

text \<open>The anomalies are those of the due entries, in the order of the loop.\<close>

lemma reconcile_loop_out:
  "snd (reconcile_loop now t xs) = map (gap_anomaly t \<circ> snd) (filter (gap_due t now \<circ> snd) xs)"
  by (induction now t xs rule: reconcile_loop.induct) (auto simp: Let_def split: prod.splits)

text \<open>The pass flags the due entries and changes nothing else.\<close>

lemma reconcile_loop_routes:
  "distinct (map fst xs) \<Longrightarrow>
   t_routes (fst (reconcile_loop now t xs)) k =
     (case map_of xs k of
        Some e \<Rightarrow> if gap_due t now e then Some (e\<lparr>e_flagged := True\<rparr>) else t_routes t k
      | None \<Rightarrow> t_routes t k)"
proof (induction now t xs arbitrary: k rule: reconcile_loop.induct)
  case (1 now t)
  then show ?case by simp
next
  case (2 now t k' e xs)
  have out: "map_of xs k' = None" using "2.prems" by (simp add: map_of_eq_None_iff)
  have dist: "distinct (map fst xs)" using "2.prems" by simp
  show ?case
  proof (cases "gap_due t now e")
    case True
    from "2.IH"(1) [OF True dist, of k] True out show ?thesis
      by (cases "map_of xs k") (auto simp del: map_of_eq_Some_iff simp: case_prod_beta Let_def)
  next
    case False
    from "2.IH"(2) [OF False dist, of k] False out show ?thesis
      by (cases "map_of xs k") (auto simp del: map_of_eq_Some_iff)
  qed
qed

lemma reconcile_fst: "fst (reconcile t now xs) = fst (reconcile_loop now t xs)"
  by (simp add: reconcile_def case_prod_beta)

lemma reconcile_routes:
  assumes "enumerates xs (t_routes t)"
  shows "t_routes (fst (reconcile t now xs)) =
    (\<lambda>k. map_option (\<lambda>e. if gap_due t now e then e\<lparr>e_flagged := True\<rparr> else e) (t_routes t k))"
  using assms by (auto simp: enumerates_def reconcile_fst reconcile_loop_routes
      simp del: map_of_eq_Some_iff split: option.split)

section \<open>Invariant and refinement\<close>

lemma e_present_upd [simp]:
  "e_present (e\<lparr>e_hops := (e_hops e)(s := h)\<rparr>) s' = (if s' = s then h_present h else e_present e s')"
  "e_present (e\<lparr>e_flagged := f\<rparr>) s' = e_present e s'"
  "e_present (e\<lparr>e_kproto := k\<rparr>) s' = e_present e s'"
  "\<not> e_present (new_entry p) s'"
  by (simp_all add: e_present_def new_entry_def no_hop_def)

lemma new_entry_simps [simp]:
  "e_prefix (new_entry p) = p" "\<not> e_flagged (new_entry p)"
  by (simp_all add: new_entry_def)

lemma t_inv_New: "t_inv (lineage_New g em)"
  by (simp add: t_inv_def lineage_New_def)

lemma any_stage: "(\<exists>s. s \<noteq> NStages \<and> P s) \<longleftrightarrow> P RibIn \<or> P Fpm \<or> P Kernel"
  by (metis stage.exhaust stage.distinct)

lemma t_inv_Observe: "t_inv t \<Longrightarrow> t_inv (Observe t now p s b d)"
  by (cases s) (auto simp: t_inv_def Observe_def Let_def any_stage split: option.splits)

lemma t_inv_reconcile:
  assumes "t_inv t" and "enumerates xs (t_routes t)"
  shows "t_inv (fst (reconcile t now xs))"
proof -
  have "dom (t_routes (fst (reconcile t now xs))) = dom (t_routes t)"
    by (auto simp: reconcile_routes [OF assms(2)] dom_def)
  with assms(1) show ?thesis
    by (auto simp: t_inv_def reconcile_routes [OF assms(2)] gap_due_def)
qed

lemma t_abs_Observe: "t_abs (Observe t now p s b d) = abs_step (t_abs t) (Obs now p s b d)"
proof (rule ext)
  fix ps
  show "t_abs (Observe t now p s b d) ps = abs_step (t_abs t) (Obs now p s b d) ps"
    by (cases ps; cases "snd ps"; cases s)
      (simp_all add: t_abs_def Observe_def Let_def e_present_def new_entry_def no_hop_def
        split: option.split)
qed

lemma t_abs_reconcile:
  "enumerates xs (t_routes t) \<Longrightarrow> t_abs (fst (reconcile t now xs)) = t_abs t"
  by (rule ext) (auto simp: t_abs_def reconcile_routes split: option.splits)

interpretation lin: data_refinement lin_step lin_ok t_inv abs_step t_abs
proof unfold_locales
  fix t x assume inv: "t_inv t" and ok: "lin_ok t x"
  from inv ok show "t_inv (lin_step t x)"
    by (cases x) (simp_all add: t_inv_Observe t_inv_reconcile)
  from ok show "t_abs (lin_step t x) = abs_step (t_abs t) x"
    by (cases x) (simp_all add: t_abs_Observe t_abs_reconcile)
qed

text \<open>The last word of each plane on each prefix, read off the history (newest first).\<close>

fun latest :: "lin_op list \<Rightarrow> string \<Rightarrow> stage \<Rightarrow> (time \<times> string) option" where
  "latest [] p s = None"
| "latest (Obs now p' s' b d # ops) p s =
     (if p' = p \<and> s' = s then (if b then Some (now, d) else None) else latest ops p s)"
| "latest (Pass _ _ # ops) p s = latest ops p s"

lemma foldl_abs_step:
  "p \<noteq> [] \<Longrightarrow> s \<noteq> NStages \<Longrightarrow> foldl abs_step a ops (p, s) =
     (if \<exists>now b d. Obs now p s b d \<in> set ops then latest (rev ops) p s else a (p, s))"
proof (induction ops rule: rev_induct)
  case (snoc x ops)
  then show ?case by (cases x) auto
qed simp

lemma latest_None: "(\<nexists>now b d. Obs now p s b d \<in> set ops) \<Longrightarrow> latest ops p s = None"
  by (induction ops p s rule: latest.induct) auto

lemma t_abs_New [simp]: "t_abs (lineage_New g em) = (\<lambda>_. None)"
  by (simp add: t_abs_def lineage_New_def fun_eq_iff)

lemma t_abs_run:
  assumes "admissible lin_step lin_ok (lineage_New g em) ops" and "p \<noteq> []" and "s \<noteq> NStages"
  shows "t_abs (foldl lin_step (lineage_New g em) ops) (p, s) = latest (rev ops) p s"
  using lin.sim_run [OF t_inv_New assms(1)] assms(2,3)
  by (auto simp: foldl_abs_step) (metis latest_None set_rev)

lemma reconcile_snd:
  "t_emit t \<Longrightarrow> snd (reconcile t now xs) =
     map (gap_anomaly t \<circ> snd) (filter (gap_due t now \<circ> snd) xs)"
  "\<not> t_emit t \<Longrightarrow> snd (reconcile t now xs) = []"
  by (simp_all add: reconcile_def case_prod_beta reconcile_loop_out)

lemma reconcile_out:
  assumes "t_inv t" and "t_emit t" and "enumerates xs (t_routes t)"
  shows "map (fst \<circ> snd) (snd (reconcile t now xs)) =
    map fst (filter (gap_due t now \<circ> snd) xs)"
proof -
  have "e_prefix e = p" if "(p, e) \<in> set xs" for p e
    using that assms(1,3) by (auto simp: t_inv_def enumerates_lookup [symmetric])
  then show ?thesis by (auto simp: reconcile_snd assms(2) gap_anomaly_def)
qed

lemma reconcile_out_distinct:
  assumes "t_inv t" and "t_emit t" and "enumerates xs (t_routes t)"
  shows "distinct (map (fst \<circ> snd) (snd (reconcile t now xs)))"
  unfolding reconcile_out [OF assms] using enumerates_distinct [OF assms(3)]
  by (simp add: distinct_map_filter)

lemma reconcile_out_set:
  assumes "t_inv t" and "t_emit t" and "enumerates xs (t_routes t)"
  shows "(fst \<circ> snd) ` set (snd (reconcile t now xs)) =
    {p. \<exists>e. t_routes t p = Some e \<and> gap_due t now e}"
proof -
  have "(fst \<circ> snd) ` set (snd (reconcile t now xs)) =
      set (map fst (filter (gap_due t now \<circ> snd) xs))"
    by (simp only: set_map [symmetric] reconcile_out [OF assms])
  also have "\<dots> = {p. \<exists>e. t_routes t p = Some e \<and> gap_due t now e}"
    by (force simp: enumerates_lookup [OF assms(3)])
  finally show ?thesis .
qed

section \<open>Reported gaps\<close>

text \<open>
  The machine the passes are meant to drive: the testimonies, and the prefixes whose gap has
  been reported and not re-armed.  A pass reports what is due and remembers it; the kernel's
  confirmation re-arms a prefix, and so does the last plane's withdrawal.
\<close>

type_synonym gap_state = "testimony \<times> string set"

definition due_gaps :: "duration \<Rightarrow> gap_state \<Rightarrow> time \<Rightarrow> string set" where
  "due_gaps grace s now =
     {p. \<exists>ts d. fst s (p, Fpm) = Some (ts, d) \<and> fst s (p, Kernel) = None \<and>
           grace < time_sub now ts \<and> p \<notin> snd s}"

definition untold :: "testimony \<Rightarrow> string \<Rightarrow> bool" where
  "untold a p \<longleftrightarrow> a (p, RibIn) = None \<and> a (p, Fpm) = None \<and> a (p, Kernel) = None"

fun gap_step :: "duration \<Rightarrow> gap_state \<Rightarrow> lin_op \<Rightarrow> gap_state" where
  "gap_step grace (a, F) (Obs now p s b d) =
     (let a' = abs_step a (Obs now p s b d) in
      (a', if s = Kernel \<and> b \<or> untold a' p then F - {p} else F))"
| "gap_step grace (a, F) (Pass now xs) = (a, F \<union> due_gaps grace (a, F) now)"

definition flagged :: "tracker \<Rightarrow> string set" where
  "flagged t = {p. \<exists>e. t_routes t p = Some e \<and> e_flagged e}"

definition gap_view :: "tracker \<Rightarrow> gap_state" where
  "gap_view t = (t_abs t, flagged t)"

lemma due_gaps_view: "p \<in> due_gaps (t_grace t) (gap_view t) now \<longleftrightarrow> (\<exists>e. t_routes t p = Some e \<and> gap_due t now e)"
  by (cases "t_routes t p") (auto simp: due_gaps_def gap_view_def flagged_def t_abs_def gap_due_def)

lemma flagged_Observe:
  assumes "t_inv t"
  shows "flagged (Observe t now p s b d) =
    (if s = Kernel \<and> b \<or> untold (abs_step (t_abs t) (Obs now p s b d)) p then flagged t - {p} else flagged t)"
proof (cases "p = []")
  case True
  with assms have "[] \<notin> flagged t" by (auto simp: flagged_def t_inv_def)
  with True show ?thesis by (auto simp: Observe_def)
next
  case False
  with assms show ?thesis
    by (cases s; cases b; cases "t_routes t p")
      (auto simp: flagged_def Observe_def Let_def untold_def t_abs_def t_inv_def any_stage split: if_splits)
qed

lemma flagged_reconcile:
  assumes "enumerates xs (t_routes t)"
  shows "flagged (fst (reconcile t now xs)) = flagged t \<union> due_gaps (t_grace t) (gap_view t) now"
proof (rule set_eqI)
  show "p \<in> flagged (fst (reconcile t now xs)) \<longleftrightarrow> p \<in> flagged t \<union> due_gaps (t_grace t) (gap_view t) now" for p
    by (cases "t_routes t p") (auto simp: due_gaps_view flagged_def reconcile_routes [OF assms])
qed

lemma lin_step_grace: "t_grace (lin_step t x) = t_grace t"
  by (cases x) (simp_all add: Observe_def Let_def reconcile_fst)

lemma lin_step_emit: "t_emit (lin_step t x) = t_emit t"
  by (cases x) (simp_all add: Observe_def Let_def reconcile_fst)

interpretation gaps: data_refinement lin_step lin_ok "\<lambda>t. t_inv t \<and> t_grace t = g" "gap_step g" gap_view
  for g
proof unfold_locales
  fix t x assume inv: "t_inv t \<and> t_grace t = g" and ok: "lin_ok t x"
  from inv ok show "t_inv (lin_step t x) \<and> t_grace (lin_step t x) = g"
    using lin.inv_step lin_step_grace by simp
  from inv ok show "gap_view (lin_step t x) = gap_step g (gap_view t) x"
  proof (cases x)
    case (Obs now p s b d)
    with inv show ?thesis by (simp add: gap_view_def flagged_Observe t_abs_Observe Let_def)
  next
    case (Pass now xs)
    with inv ok flagged_reconcile [of xs t now] t_abs_reconcile [of xs t now] show ?thesis
      by (simp add: gap_view_def)
  qed
qed

lemma gap_view_New: "gap_view (lineage_New g em) = (\<lambda>_. None, {})"
  by (simp add: gap_view_def flagged_def lineage_New_def t_abs_def fun_eq_iff)

section \<open>Properties\<close>

text \<open>
  After any sequence of observations and reconcile passes, whatever order the passes walk
  the map in, what the tracker shows for a prefix and a plane is exactly that plane's last
  word on the prefix: present with the time and detail of the last observation, or absent if
  the last observation was a withdrawal or there was none.
\<close>

theorem tracker_shows_last_word:
  assumes "admissible lin_step lin_ok (lineage_New grace emit) ops"
    and "p \<noteq> []" and "s \<noteq> NStages"
  shows "t_abs (foldl lin_step (lineage_New grace emit) ops) (p, s) = latest (rev ops) p s"
  by (rule t_abs_run [OF assms])

theorem tracker_shows_last_word_witness:
  "t_abs (foldl lin_step (lineage_New 0 True)
      [Obs 1 ''10.0.0.0/8'' Fpm True ''nh=a'', Obs 2 ''10.0.0.0/8'' Kernel True ''proto=zebra'',
       Obs 3 ''10.0.0.0/8'' Fpm True ''nh=b'']) (''10.0.0.0/8'', Fpm) = Some (3, ''nh=b'')"
  using tracker_shows_last_word [where grace = 0 and emit = True and p = "''10.0.0.0/8''" and
      s = Fpm and ops = "[Obs 1 ''10.0.0.0/8'' Fpm True ''nh=a'',
        Obs 2 ''10.0.0.0/8'' Kernel True ''proto=zebra'', Obs 3 ''10.0.0.0/8'' Fpm True ''nh=b'']"]
  by simp

text \<open>
  No prefix leaks: in every reachable tracker an entry exists for a prefix exactly when
  some plane currently testifies for it, it is filed under its own name, and an entry the
  kernel confirms is never flagged.
\<close>

theorem tracker_entries_exact:
  assumes "admissible lin_step lin_ok (lineage_New grace emit) ops"
    and "t = foldl lin_step (lineage_New grace emit) ops"
  shows "dom (t_routes t) = {p. \<exists>s. t_abs t (p, s) \<noteq> None} \<and>
    (\<forall>p e. t_routes t p = Some e \<longrightarrow>
       e_prefix e = p \<and> \<not> (e_present e Kernel \<and> e_flagged e))"
proof -
  have "t_inv t" unfolding assms(2) by (rule lin.inv_run [OF t_inv_New assms(1)])
  then show ?thesis
    by (fastforce simp: t_inv_def t_abs_def dom_def split: option.splits if_splits)
qed

theorem tracker_entries_exact_witness:
  "let t = foldl lin_step (lineage_New 0 True)
     [Obs 1 ''a'' RibIn True ''x'', Obs 2 ''b'' Fpm True ''y'', Obs 3 ''a'' RibIn False ''z'']
   in dom (t_routes t) = {p. \<exists>s. t_abs t (p, s) \<noteq> None}"
  unfolding Let_def
  by (rule conjunct1 [OF tracker_entries_exact [where grace = 0 and emit = True, OF _ refl]]) simp

text \<open>
  C13. Over any run of observations and passes, whatever order the passes walk the map in, a
  reconcile pass passes to the hook, each once, exactly the prefixes that zebra has pushed, by
  its last word, for longer than the grace period, that the kernel does not confirm by its
  last word, and that no earlier pass has reported since the kernel last confirmed them or the
  last plane dropped them; from then on those count as reported too, and nothing else changes.
  (Orphans, which the package comment announces as well, are never passed to the hook.)
\<close>

theorem reconcile_reports_gaps:
  assumes "admissible lin_step lin_ok (lineage_New grace True) ops"
    and "t = foldl lin_step (lineage_New grace True) ops" and "enumerates xs (t_routes t)"
    and "s = foldl (gap_step (t_grace t)) (\<lambda>_. None, {}) ops"
  shows "(fst \<circ> snd) ` set (snd (reconcile t now xs)) = due_gaps (t_grace t) s now \<and>
    distinct (map (fst \<circ> snd) (snd (reconcile t now xs))) \<and>
    gap_view (fst (reconcile t now xs)) = (fst s, snd s \<union> due_gaps (t_grace t) s now)"
proof -
  let ?t0 = "lineage_New grace True"
  have const: "t_grace (foldl lin_step t' ops') = t_grace t'" "t_emit (foldl lin_step t' ops') = t_emit t'" for t' ops'
    by (induction ops' arbitrary: t') (simp_all add: lin_step_grace lin_step_emit)
  have inv: "t_inv t" unfolding assms(2) by (rule lin.inv_run [OF t_inv_New assms(1)])
  have emit: "t_emit t" by (simp add: assms(2) const lineage_New_def)
  have s: "gap_view t = s"
    using gaps.sim_run [of ?t0 "t_grace t" ops] assms(1) t_inv_New
    by (simp add: assms(2, 4) const gap_view_New)
  have "(fst \<circ> snd) ` set (snd (reconcile t now xs)) = due_gaps (t_grace t) (gap_view t) now"
    unfolding reconcile_out_set [OF inv emit assms(3)] by (auto simp: due_gaps_view)
  moreover have "gap_view (fst (reconcile t now xs)) = (fst s, snd s \<union> due_gaps (t_grace t) s now)"
    using flagged_reconcile [OF assms(3), of now] t_abs_reconcile [OF assms(3), of now]
    by (simp add: gap_view_def flip: s)
  ultimately show ?thesis using reconcile_out_distinct [OF inv emit assms(3)] s by simp
qed

text \<open>A gap reported by a pass and renewed by zebra since is not due again.\<close>

theorem reconcile_reports_gaps_witness:
  "let t = lin_step (lin_step (lin_step (lineage_New 0 True) (Obs 0 ''p'' Fpm True ''x''))
         (Pass 4000000000 [(''p'', the (t_routes (Observe (lineage_New 0 True) 0 ''p'' Fpm True ''x'') ''p''))]))
         (Obs 5000000000 ''q'' Fpm True ''y'')
   in (fst \<circ> snd) ` set (snd (reconcile t 9000000000 [(''q'', the (t_routes t ''q'')), (''p'', the (t_routes t ''p''))])) = {''q''}"
proof -
  let ?t1 = "Observe (lineage_New 0 True) 0 ''p'' Fpm True ''x''"
  let ?ops = "[Obs 0 ''p'' Fpm True ''x'', Pass 4000000000 [(''p'', the (t_routes ?t1 ''p''))],
    Obs 5000000000 ''q'' Fpm True ''y'']"
  let ?t = "foldl lin_step (lineage_New 0 True) ?ops"
  let ?xs = "[(''q'', the (t_routes ?t ''q'')), (''p'', the (t_routes ?t ''p''))]"
  note defs = Observe_def lineage_New_def new_entry_def no_hop_def Let_def e_present_def
    reconcile_def gap_due_def gap_anomaly_def time_sub_def second_def enumerates_def
  have a: "admissible lin_step lin_ok (lineage_New 0 True) ?ops" by (simp add: defs)
  have x: "enumerates ?xs (t_routes ?t)" by (simp add: defs)
  have g: "t_grace ?t = 3000000000" by (simp add: defs)
  have "(fst \<circ> snd) ` set (snd (reconcile ?t 9000000000 ?xs)) =
      due_gaps (t_grace ?t) (foldl (gap_step (t_grace ?t)) (\<lambda>_. None, {}) ?ops) 9000000000"
    using reconcile_reports_gaps [OF a refl x refl] by blast
  also have "\<dots> = {''q''}"
    unfolding g by (auto simp: due_gaps_def untold_def time_sub_def split: if_splits)
  finally show ?thesis by (simp add: Let_def)
qed

lemma flagged_stable:
  assumes "t_inv t" and "lin_ok t x"
    and "\<And>now s d. x \<noteq> Obs now p s False d" and "\<And>now d. x \<noteq> Obs now p Kernel True d"
    and "\<exists>e. t_routes t p = Some e \<and> e_flagged e"
  shows "\<exists>e. t_routes (lin_step t x) p = Some e \<and> e_flagged e"
proof (cases x)
  case (Obs now q s b d)
  from assms(1,5) have "p \<noteq> []" by (auto simp: t_inv_def)
  with Obs assms(3,4,5) show ?thesis
    by (cases "q = p"; cases b; cases s) (auto simp: Observe_def Let_def)
next
  case (Pass now xs)
  with assms(2,5) show ?thesis by (auto simp: reconcile_routes gap_due_def)
qed

text \<open>
  The report of a gap is edge-triggered: once a pass has reported a prefix, no later pass
  reports it again, over any further observations and passes, as long as no plane withdraws
  the prefix and the kernel does not confirm it.
\<close>

theorem gap_reported_once:
  assumes "t_inv t" and "enumerates xs (t_routes t)"
    and "p \<in> (fst \<circ> snd) ` set (snd (reconcile t now xs))"
    and "admissible lin_step lin_ok (fst (reconcile t now xs)) ops"
    and "\<forall>now s d. Obs now p s False d \<notin> set ops \<and> Obs now p Kernel True d \<notin> set ops"
    and "t' = foldl lin_step (fst (reconcile t now xs)) ops" and "enumerates ys (t_routes t')"
  shows "p \<notin> (fst \<circ> snd) ` set (snd (reconcile t' now' ys))"
proof -
  let ?Q = "\<lambda>t. \<exists>e. t_routes t p = Some e \<and> e_flagged e"
  let ?A = "{x. (\<forall>now s d. x \<noteq> Obs now p s False d) \<and> (\<forall>now d. x \<noteq> Obs now p Kernel True d)}"
  have em: "t_emit t" using assms(3) reconcile_snd(2) [of t now xs] by (cases "t_emit t") auto
  have start: "?Q (fst (reconcile t now xs))"
    using assms(3) unfolding reconcile_out_set [OF assms(1) em assms(2)]
    by (auto simp: reconcile_routes [OF assms(2)])
  have inv: "t_inv (fst (reconcile t now xs))" by (rule t_inv_reconcile [OF assms(1,2)])
  have "?Q t'" unfolding assms(6)
    by (rule lin.stable_run [where A = ?A and Q = ?Q, OF _ inv assms(4) _ start])
      (use flagged_stable assms(5) in auto)
  moreover have inv': "t_inv t'" unfolding assms(6) by (rule lin.inv_run [OF inv assms(4)])
  ultimately show ?thesis
    using reconcile_out_set [OF inv' _ assms(7), of now'] reconcile_snd(2) [of t' now' ys]
    by (cases "t_emit t'") (auto simp: gap_due_def)
qed

theorem gap_reported_once_witness:
  "let t = Observe (lineage_New 0 True) 0 ''p'' Fpm True ''x'';
       t1 = fst (reconcile t 4000000000 [(''p'', the (t_routes t ''p''))]);
       t2 = Observe t1 5000000000 ''p'' Fpm True ''y''
   in ''p'' \<notin> (fst \<circ> snd) ` set (snd (reconcile t2 9000000000 [(''p'', the (t_routes t2 ''p''))]))"
proof -
  let ?t = "Observe (lineage_New 0 True) 0 ''p'' Fpm True ''x''"
  let ?t1 = "fst (reconcile ?t 4000000000 [(''p'', the (t_routes ?t ''p''))])"
  let ?t2 = "Observe ?t1 5000000000 ''p'' Fpm True ''y''"
  note defs = Observe_def lineage_New_def new_entry_def no_hop_def Let_def e_present_def
    reconcile_def gap_due_def gap_anomaly_def time_sub_def second_def enumerates_def
  have a: "t_inv ?t" by (rule t_inv_Observe [OF t_inv_New])
  have b: "enumerates [(''p'', the (t_routes ?t ''p''))] (t_routes ?t)" by (simp add: defs)
  have c: "''p'' \<in> (fst \<circ> snd) ` set (snd (reconcile ?t 4000000000 [(''p'', the (t_routes ?t ''p''))]))"
    by (simp add: defs)
  have d: "enumerates [(''p'', the (t_routes ?t2 ''p''))] (t_routes ?t2)" by (simp add: defs)
  show ?thesis unfolding Let_def
    by (rule gap_reported_once [OF a b c _ _ _ d,
          where ops = "[Obs 5000000000 ''p'' Fpm True ''y'']"]) simp_all
qed

text \<open>
  The gap column of the /lineage snapshot says, for every tracked prefix of a reachable
  tracker, what the testimonies say: an install gap exactly when FPM testifies and the kernel
  does not; an orphan exactly when the kernel testifies, FPM does not, and the kernel's detail
  names zebra as the installer.
\<close>

theorem snapshot_gap_exact:
  assumes "t_inv t" and "t_routes t p = Some e"
  shows "(r_gap (snapshot_row e) = ''install-gap'' \<longleftrightarrow>
            t_abs t (p, Fpm) \<noteq> None \<and> t_abs t (p, Kernel) = None) \<and>
         (r_gap (snapshot_row e) = ''orphan-kernel'' \<longleftrightarrow>
            t_abs t (p, Fpm) = None \<and>
            (\<exists>ts d. t_abs t (p, Kernel) = Some (ts, d) \<and> protoOf d = ''zebra'')) \<and>
         map fst (r_stages (snapshot_row e)) =
           map StageName (filter (\<lambda>s. t_abs t (p, s) \<noteq> None) [RibIn, Fpm, Kernel])"
  using assms by (auto simp: t_inv_def t_abs_def snapshot_row_def)

theorem snapshot_gap_exact_witness:
  "let t = Observe (lineage_New 0 True) 7 ''p'' Kernel True ''proto=zebra nh=10.0.0.1 table=254'';
       e = the (t_routes t ''p'')
   in r_gap (snapshot_row e) = ''orphan-kernel''"
proof -
  let ?t = "Observe (lineage_New 0 True) 7 ''p'' Kernel True ''proto=zebra nh=10.0.0.1 table=254''"
  let ?e = "the (t_routes ?t ''p'')"
  note defs = Observe_def lineage_New_def new_entry_def no_hop_def Let_def e_present_def
  have "t_routes ?t ''p'' = Some ?e" by (simp add: defs)
  from snapshot_gap_exact [OF t_inv_Observe [OF t_inv_New] this]
  have "r_gap (snapshot_row ?e) = ''orphan-kernel'' \<longleftrightarrow> t_abs ?t (''p'', Fpm) = None \<and>
            (\<exists>ts d. t_abs ?t (''p'', Kernel) = Some (ts, d) \<and> protoOf d = ''zebra'')" by blast
  moreover have "protoOf ''proto=zebra nh=10.0.0.1 table=254'' = ''zebra''"
    by (simp add: protoOf_def index_str.simps has_prefix_def)
  ultimately show ?thesis
    unfolding Let_def [of ?t] Let_def [of ?e] by (simp add: t_abs_Observe)
qed

text \<open>
  The package comment says that a kernel route with no FPM intent behind it (an orphan) is
  flagged by the reconcile loop and reaches the emit hook, as an install gap does.  It does
  not: a pass reports install gaps only, for any tracker, clock and map order, and here is a
  reachable tracker whose snapshot shows an orphan that no pass at any time reports.
\<close>

theorem orphans_never_emitted:
  "(\<forall>t now xs. (\<lambda>a. fst a) ` set (snd (reconcile t now xs)) \<subseteq> {''install-gap''}) \<and>
   (let t = Observe (lineage_New 0 True) 7 ''p'' Kernel True ''proto=zebra nh=10.0.0.1 table=254'';
        xs = [(''p'', the (t_routes t ''p''))]
    in map r_gap (Snapshot xs) = [''orphan-kernel''] \<and> (\<forall>now. snd (reconcile t now xs) = []))"
proof -
  have "protoOf ''proto=zebra nh=10.0.0.1 table=254'' = ''zebra''"
    by (simp add: protoOf_def index_str.simps has_prefix_def)
  then show ?thesis
    by (auto simp: reconcile_def case_prod_beta reconcile_loop_out gap_anomaly_def gap_due_def
        Observe_def lineage_New_def new_entry_def no_hop_def Let_def e_present_def
        Snapshot_def snapshot_row_def)
qed

text \<open>
  A reported gap silences the next one: when zebra withdraws a route whose gap was reported
  while a neighbour still advertises it, and then pushes it again, the entry is still flagged,
  and however long the kernel fails to confirm the new push no pass reports it.
\<close>

theorem flag_survives_withdrawal:
  assumes "t_routes t p = Some e" and "e_flagged e" and "e_present e RibIn" and "p \<noteq> []"
    and "t' = Observe (Observe t n1 p Fpm False d1) n2 p Fpm True d2"
    and "t_inv t" and "enumerates xs (t_routes t')"
  shows "p \<notin> (fst \<circ> snd) ` set (snd (reconcile t' now xs))"
proof (cases "t_emit t'")
  case False
  then show ?thesis by (simp add: reconcile_snd)
next
  case True
  have "t_inv t'" using assms(5, 6) by (simp add: t_inv_Observe)
  moreover have "e_flagged (the (t_routes t' p))"
    using assms(1-4) unfolding assms(5) by (simp add: Observe_def Let_def)
  ultimately show ?thesis
    using reconcile_out_set [OF _ True assms(7), of now] by (auto simp: gap_due_def)
qed

definition demo_entry :: "time \<Rightarrow> string \<Rightarrow> entry" where
  "demo_entry ts d = (new_entry ''p'')\<lparr>e_flagged := True,
     e_hops := (\<lambda>_. no_hop)(RibIn := \<lparr>h_present = True, h_ts = 1, h_detail = ''x''\<rparr>,
                            Fpm := \<lparr>h_present = True, h_ts = ts, h_detail = d\<rparr>)\<rparr>"

definition demo_flagged :: tracker where
  "demo_flagged = (lineage_New 0 True)\<lparr>t_routes := [''p'' \<mapsto> demo_entry 1 ''x'']\<rparr>"

theorem flag_survives_withdrawal_witness:
  "''p'' \<notin> (fst \<circ> snd) ` set (snd (reconcile
     (Observe (Observe demo_flagged 5 ''p'' Fpm False ''y'') 6 ''p'' Fpm True ''z'')
     99000000000 [(''p'', demo_entry 6 ''z'')]))"
proof -
  let ?t' = "Observe (Observe demo_flagged 5 ''p'' Fpm False ''y'') 6 ''p'' Fpm True ''z''"
  have inv: "t_inv demo_flagged"
    by (auto simp: t_inv_def demo_flagged_def demo_entry_def e_present_def any_stage new_entry_def no_hop_def)
  have en: "enumerates [(''p'', demo_entry 6 ''z'')] (t_routes ?t')"
    by (simp add: enumerates_def Observe_def Let_def e_present_def new_entry_def demo_flagged_def
        demo_entry_def fun_eq_iff)
  have e: "t_routes demo_flagged ''p'' = Some (demo_entry 1 ''x'')" "e_flagged (demo_entry 1 ''x'')"
    "e_present (demo_entry 1 ''x'') RibIn"
    by (simp_all add: demo_flagged_def demo_entry_def e_present_def)
  show ?thesis
    by (rule flag_survives_withdrawal [OF e _ refl inv en]) simp
qed

end
