(* ===== verification/Channel.thy ===== *)
theory Channel
  imports Main
begin

text \<open>
  The buffered channel with a non-blocking send, as the program uses it twice: the
  correlator's event queue (\<^verbatim>\<open>Emit\<close>, 1024 slots, a full buffer drops the event) and
  the OSPF reconcile trigger (\<^verbatim>\<open>signal\<close>, one slot, a pending trigger absorbs the
  next).  The contract is a locale; what follows from it for any number of sends is proved
  here once and the two components interpret it.
\<close>

text \<open>\<^verbatim>\<open>select { case ch <- x: default: }\<close> on a channel of \<open>cap\<close> slots.\<close>

definition nb_send :: "nat \<Rightarrow> 'e list \<Rightarrow> 'e \<Rightarrow> 'e list" where
  "nb_send cap buf x = (if length buf < cap then buf @ [x] else buf)"

locale nb_channel =
  fixes cap :: nat
    and send :: "'c \<Rightarrow> 'e \<Rightarrow> 'c"
    and recv :: "'c \<Rightarrow> ('e \<times> 'c) option"
    and queue :: "'c \<Rightarrow> 'e list"
  assumes queue_send: "queue (send c x) = nb_send cap (queue c) x"
    and recv_empty: "queue c = [] \<Longrightarrow> recv c = None"
    and recv_head: "queue c = x # xs \<Longrightarrow> \<exists>c'. recv c = Some (x, c') \<and> queue c' = xs"
begin

lemma bounded_send: "length (queue c) \<le> cap \<Longrightarrow> length (queue (send c x)) \<le> cap"
  by (simp add: queue_send nb_send_def)

lemma bounded_recv: "length (queue c) \<le> cap \<Longrightarrow> recv c = Some (x, c') \<Longrightarrow> length (queue c') \<le> cap"
  using recv_empty [of c] recv_head [of c] by (cases "queue c") fastforce+

text \<open>A burst of sends keeps the oldest events that fit, in their order.\<close>

lemma sends:
  "length (queue c) \<le> cap \<Longrightarrow> queue (foldl send c xs) = take cap (queue c @ xs)"
proof (induction xs arbitrary: c)
  case (Cons x xs)
  then show ?case
    using bounded_send [of c x] by (auto simp: queue_send nb_send_def take_Cons' split: if_splits)
qed simp

lemma sends_bounded: "length (queue c) \<le> cap \<Longrightarrow> length (queue (foldl send c xs)) \<le> cap"
  by (simp add: sends)

text \<open>After at least one send there is something to receive: a trigger is never lost.\<close>

lemma sends_pending:
  "0 < cap \<Longrightarrow> length (queue c) \<le> cap \<Longrightarrow> xs \<noteq> [] \<Longrightarrow> recv (foldl send c xs) \<noteq> None"
proof -
  assume "0 < cap" "length (queue c) \<le> cap" "xs \<noteq> []"
  then have "queue (foldl send c xs) \<noteq> []" by (simp add: sends)
  then obtain y ys where "queue (foldl send c xs) = y # ys" by (cases "queue (foldl send c xs)") auto
  from recv_head [OF this] show ?thesis by auto
qed

end

end
