(* ===== verification/Correlate.thy ===== *)
theory Correlate
  imports GoStrings Simulation Channel "HOL-Library.Sublist"
begin

text \<open>
  \<^verbatim>\<open>internal/correlate/correlate.go\<close>: the correlator folds the stream of events of all
  buses into convergence traces.  The queue between the ingesters and the fold is a channel;
  the fold is a state machine driven by the two arms of its \<^verbatim>\<open>select\<close>.
\<close>

section \<open>Data\<close>

record event =
  ev_bus :: string
  ev_kind :: string
  ev_key :: string
  ev_detail :: string
  ev_root :: bool
  ev_ts :: time

record span =
  sp_off :: int
  sp_bus :: string
  sp_kind :: string
  sp_key :: string
  sp_detail :: string

record trace =
  tr_node :: string
  tr_id :: nat
  tr_root :: string
  tr_start :: time
  tr_span :: int
  tr_spans :: "span list"

record acc =
  a_start :: time
  a_last :: time
  a_root :: string
  a_churn :: bool
  a_events :: "event list"

text \<open>
  \<^verbatim>\<open>Correlator\<close>.  \<open>c_log\<close> is the sequence of traces written to the log by
  \<^verbatim>\<open>flush\<close>; the program keeps only the most recent ones, in the ring.
\<close>

record correlator =
  c_node :: string
  c_ch :: "event list"
  c_window :: duration
  c_idle :: duration
  c_warmup :: duration
  c_started :: time
  c_ring :: "trace list"
  c_max :: nat
  c_seq :: nat
  c_log :: "trace list"

definition correlate_New :: "string \<Rightarrow> correlator" where
  "correlate_New node =
     \<lparr>c_node = node, c_ch = [], c_window = 3 * second, c_idle = 3 * second,
      c_warmup = 15 * second, c_started = 0, c_ring = [], c_max = 50, c_seq = 0, c_log = []\<rparr>"

section \<open>Operations\<close>

text \<open>\<^verbatim>\<open>Emit\<close>: nil-safe and non-blocking; the channel has 1024 slots.\<close>

definition chan_cap :: nat where "chan_cap = 1024"

definition Emit ::
  "correlator option \<Rightarrow> time \<Rightarrow> string \<Rightarrow> string \<Rightarrow> string \<Rightarrow> string \<Rightarrow> bool \<Rightarrow> correlator option" where
  "Emit c now bus kind key detail root =
     (case c of
        None \<Rightarrow> None
      | Some c \<Rightarrow>
          Some (c\<lparr>c_ch := nb_send chan_cap (c_ch c)
            \<lparr>ev_bus = bus, ev_kind = kind, ev_key = key, ev_detail = detail, ev_root = root,
             ev_ts = now\<rparr>\<rparr>))"

definition mk_span :: "time \<Rightarrow> event \<Rightarrow> span" where
  "mk_span start e =
     \<lparr>sp_off = milliseconds (time_sub (ev_ts e) start), sp_bus = ev_bus e, sp_kind = ev_kind e,
      sp_key = ev_key e, sp_detail = ev_detail e\<rparr>"

definition mk_trace :: "string \<Rightarrow> nat \<Rightarrow> acc \<Rightarrow> trace" where
  "mk_trace node n a =
     \<lparr>tr_node = node, tr_id = n, tr_root = a_root a, tr_start = a_start a,
      tr_span = milliseconds (time_sub (a_last a) (a_start a)),
      tr_spans = map (mk_span (a_start a)) (a_events a)\<rparr>"

definition flush :: "correlator \<Rightarrow> acc \<Rightarrow> correlator" where
  "flush c a =
     (if a_events a = [] then c
      else if a_churn a \<and> length (a_events a) < 3 then c
      else
        let seq = c_seq c + 1;
            t = mk_trace (c_node c) seq a;
            ring = c_ring c @ [t] in
        c\<lparr>c_seq := seq, c_log := c_log c @ [t],
          c_ring := (if c_max c < length ring then drop (length ring - c_max c) ring else ring)\<rparr>)"

definition add_event :: "acc \<Rightarrow> event \<Rightarrow> acc" where
  "add_event a e = a\<lparr>a_last := ev_ts e, a_events := a_events a @ [e]\<rparr>"

definition open_acc :: "event \<Rightarrow> acc" where
  "open_acc e =
     \<lparr>a_start = ev_ts e, a_last = ev_ts e,
      a_root = (if ev_root e then [] else ''churn/'') @ ev_bus e @
               (if ev_root e then ''/'' else ''-'') @ ev_kind e @ '' '' @ ev_key e,
      a_churn = \<not> ev_root e, a_events = []\<rparr>"

text \<open>
  One turn of the \<^verbatim>\<open>select\<close> in \<^verbatim>\<open>Run\<close>: an event from the channel, with the
  clock reading of \<^verbatim>\<open>time.Since\<close>, or a tick.  The second component of the state is
  the local variable \<^verbatim>\<open>active\<close>.
\<close>

datatype sel = Recv event time | Ticked time

type_synonym corr_state = "correlator \<times> acc option"

definition on_event :: "corr_state \<Rightarrow> event \<Rightarrow> time \<Rightarrow> corr_state" where
  "on_event st e now =
     (let (c, active) =
        (case snd st of
           Some a \<Rightarrow> if c_window (fst st) < time_sub (ev_ts e) (a_last a)
                     then (flush (fst st) a, None) else (fst st, Some a)
         | None \<Rightarrow> (fst st, None)) in
      case active of
        Some a \<Rightarrow> (c, Some (add_event a e))
      | None \<Rightarrow>
          if \<not> ev_root e \<and> time_sub now (c_started c) < c_warmup c then (c, None)
          else (c, Some (add_event (open_acc e) e)))"

definition on_tick :: "corr_state \<Rightarrow> time \<Rightarrow> corr_state" where
  "on_tick st now =
     (case snd st of
        Some a \<Rightarrow> if c_idle (fst st) < time_sub now (a_last a)
                  then (flush (fst st) a, None) else st
      | None \<Rightarrow> st)"

fun Run_step :: "corr_state \<Rightarrow> sel \<Rightarrow> corr_state" where
  "Run_step st (Recv e now) = on_event st e now"
| "Run_step st (Ticked now) = on_tick st now"

definition Run_start :: "correlator \<Rightarrow> time \<Rightarrow> corr_state" where
  "Run_start c now = (c\<lparr>c_started := now\<rparr>, None)"

definition ServeHTTP :: "correlator \<Rightarrow> trace list" where
  "ServeHTTP c = c_ring c"

section \<open>The event queue\<close>

definition emit_event :: "correlator \<Rightarrow> event \<Rightarrow> correlator" where
  "emit_event c e =
     the (Emit (Some c) (ev_ts e) (ev_bus e) (ev_kind e) (ev_key e) (ev_detail e) (ev_root e))"

definition take_event :: "correlator \<Rightarrow> (event \<times> correlator) option" where
  "take_event c = (case c_ch c of [] \<Rightarrow> None | e # es \<Rightarrow> Some (e, c\<lparr>c_ch := es\<rparr>))"

interpretation evq: nb_channel chan_cap emit_event take_event c_ch
proof unfold_locales
  fix c x
  show "c_ch (emit_event c x) = nb_send chan_cap (c_ch c) x"
    by (cases x) (simp add: emit_event_def Emit_def)
qed (simp_all add: take_event_def)

section \<open>The fold\<close>

text \<open>What an accumulator of the machine satisfies at any time.\<close>

definition wf_acc :: "duration \<Rightarrow> acc \<Rightarrow> bool" where
  "wf_acc w a \<longleftrightarrow>
     a_events a \<noteq> [] \<and>
     a_start a = ev_ts (hd (a_events a)) \<and> a_last a = ev_ts (last (a_events a)) \<and>
     successively (\<lambda>x y. time_sub (ev_ts y) (ev_ts x) \<le> w) (a_events a) \<and>
     a_churn a = (\<not> ev_root (hd (a_events a)))"

definition kept :: "acc \<Rightarrow> bool" where
  "kept a \<longleftrightarrow> \<not> (a_churn a \<and> length (a_events a) < 3)"

definition active_events :: "acc option \<Rightarrow> event list" where
  "active_events act = (case act of None \<Rightarrow> [] | Some a \<Rightarrow> a_events a)"

definition traces_of :: "string \<Rightarrow> acc list \<Rightarrow> trace list" where
  "traces_of node accs = map (\<lambda>i. mk_trace node (i + 1) (accs ! i)) [0 ..< length accs]"

definition received :: "sel list \<Rightarrow> event list" where
  "received ops = concat (map (\<lambda>x. case x of Recv e _ \<Rightarrow> [e] | Ticked _ \<Rightarrow> []) ops)"

lemma traces_of_append: "traces_of node (accs @ [a]) =
    traces_of node accs @ [mk_trace node (length accs + 1) a]"
  by (simp add: traces_of_def nth_append)

text \<open>
  The invariant, over the state and the events received so far: the log is the list of traces
  of a sequence of well-formed accumulators, numbered from 1; the ring is its tail; and their
  events, followed by those of the active one, are a subsequence of the events received.
\<close>

definition corr_inv :: "corr_state \<times> event list \<Rightarrow> bool" where
  "corr_inv s \<longleftrightarrow>
     (case s of ((c, act), del) \<Rightarrow>
       (\<exists>accs. c_log c = traces_of (c_node c) accs \<and>
          (\<forall>a \<in> set accs. wf_acc (c_window c) a \<and> kept a) \<and>
          subseq (concat (map a_events accs) @ active_events act) del) \<and>
       (\<forall>a. act = Some a \<longrightarrow> wf_acc (c_window c) a) \<and>
       c_seq c = length (c_log c) \<and>
       c_ring c = drop (length (c_log c) - c_max c) (c_log c))"

definition hist_step :: "corr_state \<times> event list \<Rightarrow> sel \<Rightarrow> corr_state \<times> event list" where
  "hist_step s x = (Run_step (fst s) x, snd s @ received [x])"

lemma hist_run: "foldl hist_step (st, del) ops = (foldl Run_step st ops, del @ received ops)"
  by (induction ops arbitrary: st del) (simp_all add: hist_step_def received_def)

lemma flush_fields [simp]:
  "c_node (flush c a) = c_node c" "c_window (flush c a) = c_window c"
  "c_idle (flush c a) = c_idle c" "c_warmup (flush c a) = c_warmup c"
  "c_started (flush c a) = c_started c" "c_max (flush c a) = c_max c" "c_ch (flush c a) = c_ch c"
  by (simp_all add: flush_def Let_def)

lemma wf_open: "0 \<le> w \<Longrightarrow> wf_acc w (add_event (open_acc e) e)"
  by (simp add: wf_acc_def add_event_def open_acc_def)

lemma wf_add: "wf_acc w a \<Longrightarrow> time_sub (ev_ts e) (a_last a) \<le> w \<Longrightarrow> wf_acc w (add_event a e)"
  by (auto simp: wf_acc_def add_event_def successively_append_iff)

lemma flush_inv:
  assumes "corr_inv ((c, Some a), del)"
  shows "corr_inv ((flush c a, None), del)"
proof (cases "kept a")
  case False
  then have "flush c a = c" by (simp add: kept_def flush_def)
  moreover have "subseq xs del" if "subseq (xs @ ys) del" for xs ys
    using that subseq_order.trans [OF subseq_rev_drop_many [OF subseq_order.refl]] by blast
  ultimately show ?thesis using assms by (fastforce simp: corr_inv_def active_events_def)
next
  case True
  from assms obtain accs where
    log: "c_log c = traces_of (c_node c) accs" and
    wf: "\<forall>a \<in> set accs. wf_acc (c_window c) a \<and> kept a" and
    sub: "subseq (concat (map a_events accs) @ a_events a) del" and
    act: "wf_acc (c_window c) a" and
    seq: "c_seq c = length (c_log c)" and
    ring: "c_ring c = drop (length (c_log c) - c_max c) (c_log c)"
    by (auto simp: corr_inv_def active_events_def)
  let ?t = "mk_trace (c_node c) (c_seq c + 1) a"
  have len: "length (c_log c) = length accs" using log by (simp add: traces_of_def)
  have fl: "flush c a = c\<lparr>c_seq := c_seq c + 1, c_log := c_log c @ [?t],
      c_ring := (if c_max c < length (c_ring c @ [?t])
        then drop (length (c_ring c @ [?t]) - c_max c) (c_ring c @ [?t]) else c_ring c @ [?t])\<rparr>"
    using True act by (auto simp: flush_def Let_def kept_def wf_acc_def)
  have log': "c_log (flush c a) = c_log c @ [?t]" unfolding fl by simp
  have ring': "c_ring (flush c a) =
      drop (length (c_log (flush c a)) - c_max (flush c a)) (c_log (flush c a))"
    unfolding log' flush_fields unfolding fl using ring by (auto simp: drop_append Suc_diff_le)
  have seq': "c_seq (flush c a) = length (c_log (flush c a))"
    unfolding log' unfolding fl using seq by simp
  have tr: "c_log (flush c a) = traces_of (c_node c) (accs @ [a])"
    unfolding log' using log seq len by (simp add: traces_of_append)
  have "\<exists>accs. c_log (flush c a) = traces_of (c_node (flush c a)) accs \<and>
      (\<forall>a \<in> set accs. wf_acc (c_window (flush c a)) a \<and> kept a) \<and>
      subseq (concat (map a_events accs) @ active_events None) del"
    using tr wf act sub True by (intro exI [of _ "accs @ [a]"]) (auto simp: active_events_def)
  then show ?thesis using seq' ring' by (simp add: corr_inv_def)
qed

lemma received_simps [simp]:
  "received [Recv e now] = [e]" "received [Ticked now] = []"
  by (simp_all add: received_def)

lemma extend_inv:
  assumes "corr_inv ((c, act), del)" and "wf_acc (c_window c) a"
    and "a_events a = active_events act @ [e]"
  shows "corr_inv ((c, Some a), del @ [e])"
  using assms by (fastforce simp: corr_inv_def active_events_def
      simp flip: append_assoc intro: list_emb_append_mono)

lemma skip_inv: "corr_inv ((c, act), del) \<Longrightarrow> corr_inv ((c, act), del @ [e])"
  by (fastforce simp: corr_inv_def intro: subseq_rev_drop_many)

lemma corr_inv_Recv:
  assumes "corr_inv ((c, act), del)" and "0 \<le> c_window c"
  shows "corr_inv (on_event (c, act) e now, del @ [e])"
proof -
  have fresh: "corr_inv (if \<not> ev_root e \<and> time_sub now (c_started c') < c_warmup c' then (c', None)
      else (c', Some (add_event (open_acc e) e)), del @ [e])"
    if inv: "corr_inv ((c', None), del)" and pos: "0 \<le> c_window c'" for c'
  proof -
    have "corr_inv ((c', Some (add_event (open_acc e) e)), del @ [e])"
      by (rule extend_inv [OF inv wf_open [OF pos]])
        (simp add: active_events_def add_event_def open_acc_def)
    then show ?thesis using skip_inv [OF inv] by simp
  qed
  show ?thesis
  proof (cases act)
    case None
    with assms fresh [of c] show ?thesis by (simp add: on_event_def)
  next
    case (Some a)
    have wf: "wf_acc (c_window c) a" using assms(1) Some by (simp add: corr_inv_def)
    show ?thesis
    proof (cases "c_window c < time_sub (ev_ts e) (a_last a)")
      case True
      with Some fresh [of "flush c a"] flush_inv [of c a del] assms show ?thesis
        by (simp add: on_event_def)
    next
      case False
      then have "corr_inv ((c, Some (add_event a e)), del @ [e])"
        using extend_inv [OF assms(1), of "add_event a e" e] Some wf_add [OF wf, of e]
        by (simp add: active_events_def add_event_def)
      with False Some show ?thesis by (simp add: on_event_def)
    qed
  qed
qed

lemma corr_inv_Tick: "corr_inv ((c, act), del) \<Longrightarrow> corr_inv (on_tick (c, act) now, del)"
  by (cases act) (auto simp: on_tick_def intro: flush_inv)

text \<open>The state stays a correlator with the window of the program.\<close>

definition run_inv :: "corr_state \<times> event list \<Rightarrow> bool" where
  "run_inv s \<longleftrightarrow> corr_inv s \<and> 0 \<le> c_window (fst (fst s))"

interpretation corr: invariant_system hist_step "\<lambda>_ _. True" run_inv
proof unfold_locales
  fix s :: "corr_state \<times> event list" and x
  assume inv: "run_inv s"
  obtain c act del where s: "s = ((c, act), del)" by (metis prod.collapse)
  have "c_window (fst (Run_step (c, act) x)) = c_window c"
    by (cases x) (auto simp: on_event_def on_tick_def split: option.splits)
  moreover have "corr_inv (hist_step s x)"
    using inv corr_inv_Recv [of c act del] corr_inv_Tick [of c act del]
    by (cases x) (auto simp: s run_inv_def hist_step_def)
  ultimately show "run_inv (hist_step s x)"
    using inv by (simp add: run_inv_def hist_step_def s)
qed

lemma run_inv_start: "run_inv (Run_start (correlate_New node) t0, [])"
  by (simp add: run_inv_def corr_inv_def Run_start_def correlate_New_def traces_of_def
      active_events_def second_def)

lemma run_fixed:
  "c_node (fst (foldl Run_step st ops)) = c_node (fst st) \<and>
   c_window (fst (foldl Run_step st ops)) = c_window (fst st) \<and>
   c_max (fst (foldl Run_step st ops)) = c_max (fst st)"
proof (induction ops arbitrary: st)
  case (Cons x ops)
  have "c_node (fst (Run_step st x)) = c_node (fst st) \<and>
    c_window (fst (Run_step st x)) = c_window (fst st) \<and>
    c_max (fst (Run_step st x)) = c_max (fst st)"
    by (cases x) (auto simp: on_event_def on_tick_def split: option.splits)
  with Cons show ?case by simp
qed simp

section \<open>Properties\<close>

lemma run_corr_inv:
  assumes "st = foldl Run_step (Run_start (correlate_New node) t0) ops"
  shows "corr_inv (st, received ops)" and "c_node (fst st) = node"
    and "c_window (fst st) = 3 * second" and "c_max (fst st) = 50"
proof -
  have "run_inv (foldl hist_step (Run_start (correlate_New node) t0, []) ops)"
    by (intro corr.inv_run run_inv_start admissible_always) simp
  then show "corr_inv (st, received ops)" by (simp add: hist_run assms run_inv_def)
  show "c_node (fst st) = node" and "c_window (fst st) = 3 * second" and "c_max (fst st) = 50"
    using run_fixed [of "Run_start (correlate_New node) t0" ops]
    by (simp_all add: assms Run_start_def correlate_New_def)
qed

text \<open>
  C14. Whatever events and ticks the correlator handles, its log is the list of traces of some
  sequence of accumulators, numbered 1, 2, 3 and so on, such that: consecutive events of an
  accumulator are at most the window apart; its start and end are those of its first and last
  event; it is a churn trace exactly when its first event is not a root; a churn trace has at
  least three spans; and the events of all of them, followed by those still being collected,
  appear in this order among the events received: no event is invented, duplicated or moved.
\<close>

theorem traces_explain_events:
  assumes "st = foldl Run_step (Run_start (correlate_New node) t0) ops"
  shows "\<exists>accs.
    c_log (fst st) = traces_of node accs \<and>
    (\<forall>a \<in> set accs. wf_acc (3 * second) a \<and> kept a) \<and>
    subseq (concat (map a_events accs) @ active_events (snd st)) (received ops)"
  using run_corr_inv [OF assms] by (cases st) (auto simp: corr_inv_def)

theorem traces_explain_events_witness:
  "let e = (\<lambda>k ts r. \<lparr>ev_bus = ''netlink'', ev_kind = k, ev_key = ''pe1-p1'', ev_detail = [],
               ev_root = r, ev_ts = ts\<rparr>);
       ops = [Recv (e ''link-down'' 0 True) 0, Recv (e ''route-del'' 1000000 False) 1000000,
              Ticked 4000000000];
       st = foldl Run_step (Run_start (correlate_New ''pe1'') 0) ops
   in \<exists>accs. c_log (fst st) = traces_of ''pe1'' accs \<and> accs \<noteq> [] \<and>
        subseq (concat (map a_events accs) @ active_events (snd st)) (received ops)"
proof -
  define e where "e = (\<lambda>k ts r. \<lparr>ev_bus = ''netlink'', ev_kind = k, ev_key = ''pe1-p1'',
               ev_detail = [], ev_root = r, ev_ts = ts\<rparr>)"
  define ops where "ops = [Recv (e ''link-down'' 0 True) 0,
      Recv (e ''route-del'' 1000000 False) 1000000, Ticked 4000000000]"
  define st where "st = foldl Run_step (Run_start (correlate_New ''pe1'') 0) ops"
  have "c_log (fst st) \<noteq> []"
    by (simp add: st_def ops_def e_def Run_start_def correlate_New_def on_event_def on_tick_def
        time_sub_def second_def add_event_def open_acc_def flush_def Let_def)
  with traces_explain_events [OF st_def] show ?thesis
    unfolding e_def [symmetric] Let_def ops_def [symmetric] st_def [symmetric]
    by (auto simp: traces_of_def)
qed

text \<open>
  The ring the HTTP endpoint serves is always the most recent 50 traces of the log, oldest
  first, and the identifiers of the log are 1, 2, 3 and so on: none is skipped or used twice.
\<close>

theorem ring_is_log_tail:
  "let c = fst (foldl Run_step (Run_start (correlate_New node) t0) ops)
   in ServeHTTP c = drop (length (c_log c) - 50) (c_log c) \<and>
      length (ServeHTTP c) \<le> 50 \<and>
      map tr_id (c_log c) = map Suc [0 ..< c_seq c]"
proof -
  define st where "st = foldl Run_step (Run_start (correlate_New node) t0) ops"
  from run_corr_inv [OF st_def] obtain accs where "c_log (fst st) = traces_of node accs"
    and "c_seq (fst st) = length (c_log (fst st))"
    and "c_ring (fst st) = drop (length (c_log (fst st)) - 50) (c_log (fst st))"
    by (cases st) (auto simp: corr_inv_def)
  then show ?thesis
    unfolding st_def [symmetric] Let_def
    by (simp add: ServeHTTP_def traces_of_def mk_trace_def comp_def)
qed

text \<open>
  Each event received is either put at the end of the active accumulator (its own, when
  the gap to the active one's last event exceeds the window or there is none) or ignored, and
  it is ignored exactly when it is a follow-up event that finds no accumulator to join within
  the warm-up time: a root event is never ignored.
\<close>

theorem event_joins_or_warmup:
  "let joins = (\<exists>a. snd st = Some a \<and> time_sub (ev_ts e) (a_last a) \<le> c_window (fst st));
       warm = time_sub now (c_started (fst st)) < c_warmup (fst st);
       act = snd (on_event st e now)
   in active_events act =
        (if joins then active_events (snd st) @ [e]
         else if \<not> ev_root e \<and> warm then [] else [e]) \<and>
      (act = None \<longleftrightarrow> \<not> joins \<and> \<not> ev_root e \<and> warm)"
  by (cases st; cases "snd st")
    (auto simp: on_event_def active_events_def add_event_def open_acc_def Let_def not_less)

text \<open>
  A root event that finds no accumulator to join is never lost: once the bus has been
  quiet for longer than the idle time, a tick logs a trace that starts with it, under the root
  label made of its bus, kind and key, even when nothing else happened.
\<close>

theorem lone_root_logged:
  assumes "ev_root e"
    and "snd st = None \<or> c_window (fst st) < time_sub (ev_ts e) (a_last (the (snd st)))"
    and "c_idle (fst st) < time_sub now' (ev_ts e)"
  shows "let st' = Run_step (Run_step st (Recv e now)) (Ticked now') in
    snd st' = None \<and>
    c_log (fst st') \<noteq> [] \<and>
    tr_spans (last (c_log (fst st'))) = [mk_span (ev_ts e) e] \<and>
    tr_root (last (c_log (fst st'))) = ev_bus e @ ''/'' @ ev_kind e @ '' '' @ ev_key e"
  using assms
  by (cases st; cases "snd st")
    (simp_all add: on_event_def on_tick_def add_event_def open_acc_def mk_trace_def
      flush_def Let_def)

theorem lone_root_logged_witness:
  "let e = \<lparr>ev_bus = ''netlink'', ev_kind = ''link-down'', ev_key = ''pe1-p1'', ev_detail = [],
              ev_root = True, ev_ts = 5\<rparr>;
       st' = Run_step (Run_step (Run_start (correlate_New ''pe1'') 0) (Recv e 5)) (Ticked 3000000006)
   in tr_root (last (c_log (fst st'))) = ''netlink/link-down pe1-p1''"
  using lone_root_logged [of "\<lparr>ev_bus = ''netlink'', ev_kind = ''link-down'', ev_key = ''pe1-p1'',
      ev_detail = [], ev_root = True, ev_ts = 5\<rparr>" "Run_start (correlate_New ''pe1'') 0" 3000000006 5]
  by (simp add: Run_start_def correlate_New_def second_def time_sub_def Let_def)

text \<open>
  A root event does not always open a trace window, and can vanish.  The package comment
  says that a root event opens a trace and that follow-up events with no active root are
  dropped.  After the warm-up a follow-up event with no active root opens an accumulator of
  its own, and a link-down that arrives within the window of it joins that churn accumulator:
  when the two are all, the flush drops both and no trace mentions the link-down.
\<close>

theorem root_lost_in_churn:
  "let follow = \<lparr>ev_bus = ''fpm'', ev_kind = ''route-add'', ev_key = ''10.0.0.0/8'',
                  ev_detail = [], ev_root = False, ev_ts = 20000000000\<rparr>;
       root = \<lparr>ev_bus = ''netlink'', ev_kind = ''link-down'', ev_key = ''pe1-p1'',
                ev_detail = [], ev_root = True, ev_ts = 21000000000\<rparr>;
       st = foldl Run_step (Run_start (correlate_New ''pe1'') 0)
              [Recv follow 20000000000, Recv root 21000000000, Ticked 25000000000]
   in c_log (fst st) = [] \<and> snd st = None"
  by code_simp

end
