(* ===== verification/Effects.thy ===== *)
theory Effects
  imports GnmiTree Lineage Correlate
begin

text \<open>
  What an ingester does to the rest of the shim: cache updates, correlator events, lineage
  observations and the reconnect kick.  A handler's model returns the list of these effects
  in program order; \<open>tree_effects\<close> applies the cache updates to the tree.
\<close>

datatype effect =
    CacheUpdate string "update list" "gpath list"    \<comment> \<open>\<^verbatim>\<open>c.Update(origin, ups, dels)\<close>\<close>
  | EmitEvent string string string string bool       \<comment> \<open>\<^verbatim>\<open>cor.Emit(bus, kind, key, detail, root)\<close>\<close>
  | ObserveRoute string stage bool string            \<comment> \<open>\<^verbatim>\<open>lin.Observe(prefix, stage, present, detail)\<close>\<close>
  | KickOSPF string                                  \<comment> \<open>\<^verbatim>\<open>onConnect(reason)\<close>\<close>

text \<open>An ingester's wiring: whether a correlator, a tracker and a reconnect hook are set.\<close>

record wiring =
  w_cor :: bool
  w_lin :: bool
  w_hook :: bool

definition all_wired :: wiring where
  "all_wired = \<lparr>w_cor = True, w_lin = True, w_hook = True\<rparr>"

definition observe_if :: "wiring \<Rightarrow> string \<Rightarrow> stage \<Rightarrow> bool \<Rightarrow> string \<Rightarrow> effect list" where
  "observe_if w p s b d = (if w_lin w then [ObserveRoute p s b d] else [])"

text \<open>\<^verbatim>\<open>Emit\<close> is nil-safe, so a guarded and an unguarded call have the same effect.\<close>

definition emit_if :: "wiring \<Rightarrow> string \<Rightarrow> string \<Rightarrow> string \<Rightarrow> string \<Rightarrow> bool \<Rightarrow> effect list" where
  "emit_if w bus kind key detail root =
     (if w_cor w then [EmitEvent bus kind key detail root] else [])"

definition tree_effect :: "tree \<Rightarrow> effect \<Rightarrow> tree" where
  "tree_effect t e = (case e of CacheUpdate org ups dels \<Rightarrow> put_tree org ups dels t | _ \<Rightarrow> t)"

definition tree_effects :: "tree \<Rightarrow> effect list \<Rightarrow> tree" where
  "tree_effects t es = foldl tree_effect t es"

lemma tree_effect_simps [simp]:
  "tree_effect t (CacheUpdate org ups dels) = put_tree org ups dels t"
  "tree_effect t (EmitEvent a b c d r) = t"
  "tree_effect t (ObserveRoute p s q d) = t"
  "tree_effect t (KickOSPF x) = t"
  by (simp_all add: tree_effect_def)

lemma tree_effects_simps [simp]:
  "tree_effects t [] = t"
  "tree_effects t (e # es) = tree_effects (tree_effect t e) es"
  "tree_effects t (xs @ ys) = tree_effects (tree_effects t xs) ys"
  by (simp_all add: tree_effects_def)

lemma tree_effects_wired [simp]:
  "tree_effects t (observe_if w p s b d) = t" "tree_effects t (emit_if w b' k y d r) = t"
  by (simp_all add: observe_if_def emit_if_def)

definition observations :: "effect list \<Rightarrow> (string \<times> stage \<times> bool \<times> string) list" where
  "observations es =
     concat (map (\<lambda>e. case e of ObserveRoute p s b d \<Rightarrow> [(p, s, b, d)] | _ \<Rightarrow> []) es)"

definition emissions :: "effect list \<Rightarrow> (string \<times> string \<times> string \<times> string \<times> bool) list" where
  "emissions es =
     concat (map (\<lambda>e. case e of EmitEvent a b c d r \<Rightarrow> [(a, b, c, d, r)] | _ \<Rightarrow> []) es)"

lemma observations_simps [simp]:
  "observations [] = []" "observations (xs @ ys) = observations xs @ observations ys"
  "observations (CacheUpdate a b c # es) = observations es"
  "observations (EmitEvent a' b' c' d' e' # es) = observations es"
  "observations (ObserveRoute p s q d # es) = (p, s, q, d) # observations es"
  "observations (KickOSPF x # es) = observations es"
  by (simp_all add: observations_def)

lemma emissions_simps [simp]:
  "emissions [] = []" "emissions (xs @ ys) = emissions xs @ emissions ys"
  "emissions (CacheUpdate a b c # es) = emissions es"
  "emissions (EmitEvent a' b' c' d' e' # es) = (a', b', c', d', e') # emissions es"
  "emissions (ObserveRoute p s q d # es) = emissions es"
  "emissions (KickOSPF x # es) = emissions es"
  by (simp_all add: emissions_def)

end
