(* ===== verification/Wire.thy ===== *)
theory Wire
  imports GoBase "HOL-Library.Multiset"
begin

text \<open>
  The two shapes of loop over a byte string that every parser of the program has, as
  contracts: a loop that collects the items of a concatenation (the attribute, NLRI and
  information-element walks), and a loop that hands each frame of a stream to a handler (the
  BMP and FPM connections).  The lemmas lift one item or frame to any number of them; the
  parsers interpret the contracts.  Before them, what a callback that looks for items of some
  types makes of a list of items in any order and among any others.
\<close>

lemma bind_fundef_cong [fundef_cong]:
  "x = y \<Longrightarrow> (\<And>a. y = Some a \<Longrightarrow> f a = g a) \<Longrightarrow> Option.bind x f = Option.bind y g"
  by (rule Option.bind_cong)

text \<open>A loop whose body can panic.\<close>

fun foldM :: "('s \<Rightarrow> 'x \<Rightarrow> 's option) \<Rightarrow> 's \<Rightarrow> 'x list \<Rightarrow> 's option" where
  "foldM f s [] = Some s"
| "foldM f s (x # xs) = Option.bind (f s x) (\<lambda>s'. foldM f s' xs)"

lemma foldM_total: "(\<And>s x. x \<in> set xs \<Longrightarrow> \<exists>s'. f s x = Some s') \<Longrightarrow> \<exists>s'. foldM f s xs = Some s'"
proof (induction xs arbitrary: s)
  case (Cons x xs)
  obtain s1 where "f s x = Some s1" using Cons.prems [of x s] by auto
  moreover obtain s2 where "foldM f s1 xs = Some s2"
    using Cons.IH [of s1] Cons.prems by force
  ultimately show ?case by simp
qed simp

lemma foldM_pure: "(\<And>s x. x \<in> set xs \<Longrightarrow> f s x = Some (g s x)) \<Longrightarrow> foldM f s xs = Some (foldl g s xs)"
  by (induction xs arbitrary: s) auto

lemma foldM_None:
  assumes "x \<in> set xs" and "\<And>s. f s x = None"
  shows "foldM f s xs = None"
  using assms
proof (induction xs arbitrary: s)
  case (Cons y ys)
  then show ?case by (cases "f s y") auto
qed simp

section \<open>Callbacks over typed items\<close>

text \<open>
  A walk whose callback looks for items of some types \<open>ts\<close> and skips the others.
  \<open>among ts as vs\<close> says that a list of items with flags has the values \<open>vs\<close> for those
  types: in any order, with any flags, and among any items of other types.
\<close>

definition among :: "'t set \<Rightarrow> ('f \<times> 't \<times> 'b) list \<Rightarrow> ('t \<times> 'b) list \<Rightarrow> bool" where
  "among ts as vs \<longleftrightarrow> mset (filter (\<lambda>v. fst v \<in> ts) (map snd as)) = mset vs"

lemma among_single: "among ts as [v] \<longleftrightarrow> filter (\<lambda>v. fst v \<in> ts) (map snd as) = [v]"
  by (simp only: among_def mset_single_iff mset.simps)

lemma foldM_append: "foldM f s (xs @ ys) = Option.bind (foldM f s xs) (\<lambda>s'. foldM f s' ys)"
  by (induction xs arbitrary: s) (auto simp: Option.bind_assoc)

lemma foldM_filter:
  "(\<And>s x. x \<in> set xs \<Longrightarrow> \<not> P x \<Longrightarrow> f s x = Some s) \<Longrightarrow> foldM f s xs = foldM f s (filter P xs)"
proof (induction xs arbitrary: s)
  case (Cons x xs)
  have "foldM f s' xs = foldM f s' (filter P xs)" for s' using Cons by simp
  with Cons.prems [of x s] show ?case by (cases "P x") simp_all
qed simp

lemma foldM_reads:
  assumes step: "\<And>v t p m. ok (t, p) \<Longrightarrow> m t = None \<Longrightarrow>
      \<exists>v'. f v (t, p) = Some v' \<and> rd v' m = rd v (m(t \<mapsto> p))"
    and nil: "\<And>v. rd v Map.empty = v"
  shows "distinct (map fst as) \<Longrightarrow> list_all ok as \<Longrightarrow> foldM f v as = Some (rd v (map_of as))"
proof (induction as arbitrary: v)
  case Nil
  then show ?case by (simp add: nil)
next
  case (Cons a as)
  obtain t p where a: "a = (t, p)" by (cases a)
  have "map_of as t = None" using Cons.prems(1) by (simp add: a map_of_eq_None_iff)
  with step [of t p "map_of as" v] Cons.prems obtain v' where
    "f v (t, p) = Some v'" "rd v' (map_of as) = rd v ((map_of as)(t \<mapsto> p))" by (auto simp: a)
  with Cons show ?case by (simp add: a fun_upd_def)
qed

text \<open>The walk reads a list as the items of the types it looks for, wherever they stand in it.\<close>

lemma foldM_among:
  assumes step: "\<And>v t p m. ok (t, p) \<Longrightarrow> m t = None \<Longrightarrow>
      \<exists>v'. f v (t, p) = Some v' \<and> rd v' m = rd v (m(t \<mapsto> p))"
    and nil: "\<And>v. rd v Map.empty = v"
    and skip: "\<And>v t p. t \<notin> ts \<Longrightarrow> f v (t, p) = Some v"
    and c: "among ts as vs" and d: "distinct (map fst vs)" and ok: "list_all ok vs"
  shows "foldM f v (map snd as) = Some (rd v (map_of vs))"
proof -
  let ?ws = "filter (\<lambda>v. fst v \<in> ts) (map snd as)"
  have m: "mset ?ws = mset vs" using c by (simp add: among_def)
  then have s: "set ?ws = set vs" by (rule mset_eq_setD)
  have "mset (map fst ?ws) = mset (map fst vs)" by (simp only: mset_map m)
  from mset_eq_imp_distinct_iff [OF this] d have d': "distinct (map fst ?ws)" by simp
  have "foldM f v (map snd as) = foldM f v ?ws"
    by (rule foldM_filter) (auto intro: skip)
  also have "\<dots> = Some (rd v (map_of ?ws))"
    using ok s d' by (intro foldM_reads [OF step nil]) (simp_all add: list_all_iff)
  also have "map_of ?ws = map_of vs"
    using map_of_inject_set [OF d' d] s by simp
  finally show ?thesis .
qed

section \<open>Streams\<close>

text \<open>
  Items: \<open>parse\<close> collects the items of a byte string, \<open>enc\<close> writes one of them and
  \<open>ok\<close> says which can be written.
\<close>

locale tlv_stream =
  fixes enc :: "'i \<Rightarrow> bytes"
    and ok :: "'i \<Rightarrow> bool"
    and item :: "'i \<Rightarrow> 'r"
    and parse :: "bytes \<Rightarrow> 'r list option"
  assumes parse_nil: "parse [] = Some []"
    and parse_item: "ok i \<Longrightarrow> parse (enc i @ r) = map_option ((#) (item i)) (parse r)"
begin

lemma parse_items: "\<forall>i \<in> set is. ok i \<Longrightarrow> parse (concat (map enc is)) = Some (map item is)"
  by (induction "is") (simp_all add: parse_nil parse_item)

lemma parse_items_then:
  "\<forall>i \<in> set is. ok i \<Longrightarrow>
   parse (concat (map enc is) @ r) = map_option ((@) (map item is)) (parse r)"
  by (induction "is") (cases "parse r"; simp add: parse_item)+

end

text \<open>Frames: \<open>run\<close> consumes a stream frame by frame, \<open>step\<close> is the handler.\<close>

locale frame_stream =
  fixes enc :: "'m \<Rightarrow> bytes"
    and ok :: "'m \<Rightarrow> bool"
    and step :: "'s \<Rightarrow> 'm \<Rightarrow> 's option"
    and run :: "'s \<Rightarrow> bytes \<Rightarrow> 's option"
  assumes run_nil: "run s [] = Some s"
    and run_frame: "ok m \<Longrightarrow> run s (enc m @ r) = Option.bind (step s m) (\<lambda>s'. run s' r)"
begin

lemma run_frames:
  "\<forall>m \<in> set ms. ok m \<Longrightarrow>
   run s (concat (map enc ms) @ r) = Option.bind (foldM step s ms) (\<lambda>s'. run s' r)"
proof (induction ms arbitrary: s)
  case (Cons m ms)
  then show ?case by (simp add: run_frame Option.bind_assoc)
qed simp

lemma run_all: "\<forall>m \<in> set ms. ok m \<Longrightarrow> run s (concat (map enc ms)) = foldM step s ms"
  using run_frames [of ms s "[]"] by (simp add: run_nil)

end

end
