(* ===== verification/VrfResolver.thy ===== *)
theory VrfResolver
  imports GoStrings
begin

text \<open>
  \<^verbatim>\<open>internal/ingest/vrf.go\<close>: routing-table id to VRF device name.  The link list of
  the kernel (\<^verbatim>\<open>netlink.LinkList\<close>) is an input of the operations that read it:
  \<open>None\<close> when the call fails, else the links, of which the VRF devices matter.
\<close>

datatype nl_link = VrfLink "32 word" string | OtherLink

type_synonym link_list = "nl_link list option"

record vrf_resolver =
  v_m :: "32 word \<Rightarrow> string option"

fun vrf_map :: "nl_link list \<Rightarrow> (32 word \<Rightarrow> string option) \<Rightarrow> (32 word \<Rightarrow> string option)" where
  "vrf_map [] m = m"
| "vrf_map (VrfLink t n # ls) m = vrf_map ls (m(t \<mapsto> n))"
| "vrf_map (OtherLink # ls) m = vrf_map ls m"

definition Refresh :: "link_list \<Rightarrow> vrf_resolver \<Rightarrow> vrf_resolver" where
  "Refresh links r = (case links of None \<Rightarrow> r | Some ls \<Rightarrow> r\<lparr>v_m := vrf_map ls Map.empty\<rparr>)"

definition NewVRFResolver :: "link_list \<Rightarrow> vrf_resolver" where
  "NewVRFResolver links = Refresh links \<lparr>v_m = Map.empty\<rparr>"

definition vrf_lookup :: "vrf_resolver \<Rightarrow> 32 word \<Rightarrow> string option" where
  "vrf_lookup r table = v_m r table"

definition Name :: "link_list \<Rightarrow> vrf_resolver \<Rightarrow> 32 word \<Rightarrow> string \<times> vrf_resolver" where
  "Name links r table =
     (if table = 0 \<or> table = 254 then (''default'', r)
      else if table = 255 then (''local'', r)
      else
        case vrf_lookup r table of
          Some n \<Rightarrow> (n, r)
        | None \<Rightarrow>
            let r' = Refresh links r in
            case vrf_lookup r' table of
              Some n \<Rightarrow> (n, r')
            | None \<Rightarrow> (''table:'' @ udec table, r'))"

text \<open>
  \<^verbatim>\<open>NonDefaultNames\<close> lists the names in the map's iteration order \<open>xs\<close>, an
  enumeration of the refreshed map.
\<close>

definition NonDefaultNames ::
  "link_list \<Rightarrow> vrf_resolver \<Rightarrow> (32 word \<times> string) list \<Rightarrow> string list \<times> vrf_resolver" where
  "NonDefaultNames links r xs = (map snd xs, Refresh links r)"

lemma vrf_map_other: "(\<And>n. VrfLink t n \<notin> set ls) \<Longrightarrow> vrf_map ls m t = m t"
  by (induction ls m rule: vrf_map.induct) auto

text \<open>The VRF devices of a link list, as table and name.\<close>

definition vrf_devices :: "link_list \<Rightarrow> (32 word \<times> string) list" where
  "vrf_devices links =
     (case links of
        None \<Rightarrow> []
      | Some ls \<Rightarrow> concat (map (\<lambda>l. case l of VrfLink t n \<Rightarrow> [(t, n)] | OtherLink \<Rightarrow> []) ls))"

lemma vrf_map_devices: "vrf_map ls m = m ++ map_of (rev (vrf_devices (Some ls)))"
proof (induction ls arbitrary: m)
  case (Cons l ls)
  then show ?case by (cases l) (simp_all add: vrf_devices_def flip: fun_upd_def)
qed (simp add: vrf_devices_def)

lemma Name_main [simp]: "Name links r 254 = (''default'', r)" "Name links r 0 = (''default'', r)"
  by (simp_all add: Name_def)

text \<open>A name once answered for a table is answered again until the map is refreshed.\<close>

lemma Name_stable: "Name links r t = (n, r') \<Longrightarrow> v_m r' t = Some n \<Longrightarrow> t \<notin> {0, 254, 255} \<Longrightarrow>
   fst (Name links' r' t) = n"
  by (simp add: Name_def vrf_lookup_def)

text \<open>
  The name of a table: the main and unspecified tables are the default instance and the
  local table is local, whatever devices exist; any other table has the name it was last
  refreshed with if there is one, else that of the last VRF device bound to it, else, and
  also when the kernel cannot be asked, the printed table number.
\<close>

theorem vrf_name_resolution:
  "fst (Name links r t) =
     (if t \<in> {0, 254} then ''default'' else if t = 255 then ''local''
      else case v_m r t of
             Some n \<Rightarrow> n
           | None \<Rightarrow> (case map_of (rev (vrf_devices links)) t of
                          Some n \<Rightarrow> n | None \<Rightarrow> ''table:'' @ udec t))"
proof -
  have "v_m (Refresh links r) t = map_of (rev (vrf_devices links)) t" if "v_m r t = None"
    using that by (cases links) (simp_all add: Refresh_def vrf_map_devices vrf_devices_def)
  then show ?thesis
    by (auto simp: Name_def vrf_lookup_def Let_def simp del: map_of_eq_Some_iff split: option.split)
qed

end
