(* ===== verification/FpmIngest.thy ===== *)
theory FpmIngest
  imports NetIP Effects Wire VrfResolver
begin

text \<open>
  \<^verbatim>\<open>internal/ingest/fpm.go\<close>: the collector of zebra's forwarding-plane messages,
  Netlink messages in FPM frames.  A function that slices its input has a result of option
  type, and \<open>None\<close> is a run-time panic.  A frame's body has exactly the capacity of its
  length, and no slice expression of this file has an explicit upper bound past the length of
  its operand, so slices are plain byte lists here.
\<close>

section \<open>Netlink attributes\<close>

text \<open>\<^verbatim>\<open>(n+3)&^3\<close>\<close>

definition align4 :: "nat \<Rightarrow> nat" where
  "align4 n = (n + 3) div 4 * 4"

lemma align4_bounds: "n \<le> align4 n" "align4 n < n + 4" "align4 n mod 4 = 0"
  by (auto simp: align4_def)

text \<open>\<^verbatim>\<open>forEachAttr\<close>: the calls of the callback, in order, or a panic.\<close>

function forEachAttr :: "bytes \<Rightarrow> (16 word \<times> bytes) list option" where
  "forEachAttr attrs =
     (if length attrs < 4 then Some []
      else do {
        l \<leftarrow> Option.bind (go_range attrs 0 2) le16;
        t \<leftarrow> Option.bind (go_range attrs 2 4) le16;
        (let alen = unat l; atype = t AND 0x3fff in
         if alen < 4 \<or> length attrs < alen then Some []
         else do {
           p \<leftarrow> go_range attrs 4 alen;
           rest \<leftarrow> go_from attrs (align4 alen);
           more \<leftarrow> forEachAttr rest;
           Some ((atype, p) # more)
         })
      })"
  by pat_completeness auto

termination
  by (relation "measure length") (auto simp: go_from_def align4_def split: if_splits)

declare forEachAttr.simps [simp del]

text \<open>\<^verbatim>\<open>decodeMPLSStack\<close>: big-endian entries, label on top, bottom-of-stack bit 0x100.\<close>

fun decodeMPLSStack :: "bytes \<Rightarrow> 32 word list" where
  "decodeMPLSStack (a # b # c # d # p) =
     (case be32 [a, b, c, d] of
        None \<Rightarrow> []
      | Some entry \<Rightarrow>
          drop_bit 12 entry # (if entry AND 0x100 \<noteq> 0 then [] else decodeMPLSStack p))"
| "decodeMPLSStack _ = []"

definition parseMPLSEncap :: "bytes \<Rightarrow> 32 word list option" where
  "parseMPLSEncap p =
     map_option (foldl (\<lambda>labels (t, v). if t = 1 then decodeMPLSStack v else labels) [])
       (forEachAttr p)"

text \<open>\<^verbatim>\<open>labelsCSV\<close>: the loop with its index.\<close>

definition labelsCSV :: "32 word list \<Rightarrow> string" where
  "labelsCSV l =
     foldl (\<lambda>s (i, x). (if 0 < i then s @ '','' else s) @ udec x) [] (zip [0 ..< length l] l)"

section \<open>State\<close>

record nexthop =
  nh_gw :: ip
  nh_oif :: "32 word"
  nh_group :: "32 word list"
  nh_labels :: "32 word list"
  nh_blackhole :: bool

type_synonym nh_table = "32 word \<Rightarrow> nexthop option"

record fpm =
  f_vrf :: vrf_resolver
  f_nh :: nh_table
  f_w :: wiring

definition NewFPM :: "link_list \<Rightarrow> wiring \<Rightarrow> fpm" where
  "NewFPM links w = \<lparr>f_vrf = NewVRFResolver links, f_nh = Map.empty, f_w = w\<rparr>"

section \<open>Next-hop objects\<close>

text \<open>The local variables of \<^verbatim>\<open>handleNexthop\<close> that its callback assigns.\<close>

record nh_vars =
  nv_id :: "32 word"
  nv_oif :: "32 word"
  nv_gw :: ip
  nv_group :: "32 word list"
  nv_labels :: "32 word list"
  nv_encap :: "16 word"
  nv_bh :: bool

definition nh_vars0 :: nh_vars where
  "nh_vars0 = \<lparr>nv_id = 0, nv_oif = 0, nv_gw = [], nv_group = [], nv_labels = [], nv_encap = 0,
               nv_bh = False\<rparr>"

text \<open>The members of a group attribute: records of eight bytes that start with the id.\<close>

fun group_ids :: "bytes \<Rightarrow> 32 word list" where
  "group_ids (a # b # c # d # e # f # g # h # p) =
     (case le32 [a, b, c, d] of None \<Rightarrow> [] | Some i \<Rightarrow> i # group_ids p)"
| "group_ids _ = []"

definition nh_attr :: "nh_vars \<Rightarrow> 16 word \<times> bytes \<Rightarrow> nh_vars option" where
  "nh_attr v a =
     (let (t, p) = a in
      if t = 1 then
        (if 4 \<le> length p then map_option (\<lambda>x. v\<lparr>nv_id := x\<rparr>) (le32 p) else Some v)
      else if t = 5 then
        (if 4 \<le> length p then map_option (\<lambda>x. v\<lparr>nv_oif := x\<rparr>) (le32 p) else Some v)
      else if t = 6 then Some (v\<lparr>nv_gw := p\<rparr>)
      else if t = 3 then Some (v\<lparr>nv_bh := True\<rparr>)
      else if t = 7 then
        (if 2 \<le> length p then map_option (\<lambda>x. v\<lparr>nv_encap := x\<rparr>) (le16 p) else Some v)
      else if t = 8 then map_option (\<lambda>x. v\<lparr>nv_labels := x\<rparr>) (parseMPLSEncap p)
      else if t = 2 then Some (v\<lparr>nv_group := nv_group v @ group_ids p\<rparr>)
      else Some v)"

text \<open>Only MPLS encapsulation carries a label stack the program understands.\<close>

definition mpls_labels :: "16 word \<Rightarrow> 32 word list \<Rightarrow> 32 word list" where
  "mpls_labels encap labels = (if encap \<noteq> 0 \<and> encap \<noteq> 1 then [] else labels)"

definition handleNexthop :: "fpm \<Rightarrow> bytes \<Rightarrow> bool \<Rightarrow> fpm option" where
  "handleNexthop f b del =
     (if length b < 16 + 8 then Some f
      else do {
        attrs \<leftarrow> go_from b (16 + 8);
        as \<leftarrow> forEachAttr attrs;
        v \<leftarrow> foldM nh_attr nh_vars0 as;
        Some (if nv_id v = 0 then f
              else if del then f\<lparr>f_nh := (f_nh f)(nv_id v := None)\<rparr>
              else f\<lparr>f_nh := (f_nh f)(nv_id v \<mapsto>
                \<lparr>nh_gw = nv_gw v, nh_oif = nv_oif v, nh_group = nv_group v,
                 nh_labels = mpls_labels (nv_encap v) (nv_labels v), nh_blackhole = nv_bh v\<rparr>)\<rparr>)
      })"

text \<open>\<^verbatim>\<open>resolveNH\<close>: gateway, interface, blackhole, labels.\<close>

type_synonym resolved = "ip \<times> 32 word \<times> bool \<times> 32 word list"

function resolveNH :: "nh_table \<Rightarrow> 32 word \<Rightarrow> nat \<Rightarrow> resolved" where
  "resolveNH m id' depth =
     (if 4 < depth then ([], 0, False, [])
      else case m id' of
        None \<Rightarrow> ([], 0, False, [])
      | Some nh \<Rightarrow>
          if nh_blackhole nh then ([], 0, True, [])
          else if nh_gw nh \<noteq> [] \<or> nh_oif nh \<noteq> 0 then (nh_gw nh, nh_oif nh, False, nh_labels nh)
          else (case nh_group nh of
                  g # _ \<Rightarrow> resolveNH m g (depth + 1)
                | [] \<Rightarrow> ([], 0, False, [])))"
  by pat_completeness auto

termination
  by (relation "measure (\<lambda>(m, i, d). 5 - d)") auto

declare resolveNH.simps [simp del]

section \<open>Routes\<close>

definition formatPrefix :: "byte \<Rightarrow> ip \<Rightarrow> byte \<Rightarrow> string \<times> string" where
  "formatPrefix family dst dstLen =
     (if family = 2 then (cidr (copy_into 4 (to4 dst)) (unat dstLen), ''ipv4-unicast'')
      else if family = 10 then (cidr (copy_into 16 dst) (unat dstLen), ''ipv6-unicast'')
      else ([], []))"

definition aftPath :: "string \<Rightarrow> string \<Rightarrow> string \<Rightarrow> string \<Rightarrow> gpath" where
  "aftPath vrf afName pfx leaf =
     path_of
       [el ''network-instances'', elk ''network-instance'' [(''name'', vrf)], el ''afts'',
        el afName,
        elk (if afName = ''ipv6-unicast'' then ''ipv6-entry'' else ''ipv4-entry'')
          [(''prefix'', pfx)],
        el ''state'', el leaf]"

record rt_vars =
  rv_dst :: ip
  rv_gw :: ip
  rv_oif :: "32 word"
  rv_table :: "32 word"
  rv_nhid :: "32 word"
  rv_labels :: "32 word list"
  rv_encap :: "16 word"

definition rt_vars0 :: rt_vars where
  "rt_vars0 = \<lparr>rv_dst = [], rv_gw = [], rv_oif = 0, rv_table = 0, rv_nhid = 0, rv_labels = [],
               rv_encap = 0\<rparr>"

definition rt_attr :: "rt_vars \<Rightarrow> 16 word \<times> bytes \<Rightarrow> rt_vars option" where
  "rt_attr v a =
     (let (t, p) = a in
      if t = 1 then Some (v\<lparr>rv_dst := p\<rparr>)
      else if t = 5 then Some (v\<lparr>rv_gw := p\<rparr>)
      else if t = 4 then
        (if 4 \<le> length p then map_option (\<lambda>x. v\<lparr>rv_oif := x\<rparr>) (le32 p) else Some v)
      else if t = 15 then
        (if 4 \<le> length p then map_option (\<lambda>x. v\<lparr>rv_table := x\<rparr>) (le32 p) else Some v)
      else if t = 21 then
        (if 2 \<le> length p then map_option (\<lambda>x. v\<lparr>rv_encap := x\<rparr>) (le16 p) else Some v)
      else if t = 22 then map_option (\<lambda>x. v\<lparr>rv_labels := x\<rparr>) (parseMPLSEncap p)
      else if t = 30 then
        (if 4 \<le> length p then map_option (\<lambda>x. v\<lparr>rv_nhid := x\<rparr>) (le32 p) else Some v)
      else Some v)"

text \<open>
  The next hop a route gets: its own gateway, or what the next-hop object it names resolves
  to; blackhole, unreachable and prohibit types (6, 7, 8) and blackhole objects win over both.
  The first component is the text written to the tree, the second the label stack.
\<close>

definition route_nexthop :: "nh_table \<Rightarrow> byte \<Rightarrow> rt_vars \<Rightarrow> string \<times> 32 word list" where
  "route_nexthop m rtType v =
     (let blackhole = (rtType = 6 \<or> rtType = 7 \<or> rtType = 8);
          push = mpls_labels (rv_encap v) (rv_labels v);
          (gw, bh, push') =
            (if rv_gw v = [] \<and> rv_nhid v \<noteq> 0
             then let (g, o', bh, lbls) = resolveNH m (rv_nhid v) 0
                  in (g, blackhole \<or> bh, if push = [] then lbls else push)
             else (rv_gw v, blackhole, push)) in
      (if bh then ''blackhole'' else if gw \<noteq> [] then ip_string gw else ''-'', push'))"

text \<open>The part of \<^verbatim>\<open>handleRoute\<close> after the prefix, next hop and VRF name are known.\<close>

definition route_effects ::
  "wiring \<Rightarrow> string \<Rightarrow> string \<Rightarrow> string \<Rightarrow> string \<Rightarrow> 32 word list \<Rightarrow> bool \<Rightarrow> effect list" where
  "route_effects w vrf afName pfx nhStr push del =
     (let detail = ''vrf='' @ vrf @ '' nh='' @ nhStr;
          nhPath = aftPath vrf afName pfx ''next-hop'';
          lblPath = aftPath vrf afName pfx ''pushed-mpls-label-stack'' in
      emit_if w ''fpm'' (if del then ''route-del'' else ''route-add'') pfx detail False @
      observe_if w pfx Fpm (\<not> del) detail @
      (if del then [CacheUpdate ''openconfig'' [] [nhPath, lblPath]]
       else if push \<noteq> [] then
         [CacheUpdate ''openconfig''
            [\<lparr>u_path = nhPath, u_val = strVal nhStr\<rparr>,
             \<lparr>u_path = lblPath, u_val = strVal (labelsCSV push)\<rparr>] []]
       else
         [CacheUpdate ''openconfig'' [] [lblPath],
          CacheUpdate ''openconfig'' [\<lparr>u_path = nhPath, u_val = strVal nhStr\<rparr>] []]))"

definition handleRoute :: "fpm \<Rightarrow> link_list \<Rightarrow> bytes \<Rightarrow> bool \<Rightarrow> (fpm \<times> effect list) option" where
  "handleRoute f links b del =
     (if length b < 16 + 12 then Some (f, [])
      else do {
        rtm \<leftarrow> go_from b 16;
        family \<leftarrow> go_index rtm 0;
        dstLen \<leftarrow> go_index rtm 1;
        rtType \<leftarrow> go_index rtm 7;
        tbl \<leftarrow> go_index rtm 4;
        attrs \<leftarrow> go_from rtm 12;
        as \<leftarrow> forEachAttr attrs;
        v \<leftarrow> foldM rt_attr rt_vars0 as;
        (let table = (if rv_table v \<noteq> 0 then rv_table v else ucast tbl);
             (pfx, afName) = formatPrefix family (rv_dst v) dstLen in
         if pfx = [] then Some (f, [])
         else
           let (nhStr, push) = route_nexthop (f_nh f) rtType v;
               (vrf, res) = Name links (f_vrf f) table in
           Some (f\<lparr>f_vrf := res\<rparr>, route_effects (f_w f) vrf afName pfx nhStr push del))
      })"

definition handleNetlink :: "fpm \<Rightarrow> link_list \<Rightarrow> bytes \<Rightarrow> (fpm \<times> effect list) option" where
  "handleNetlink f links b =
     (if length b < 16 then Some (f, [])
      else do {
        t \<leftarrow> Option.bind (go_range b 4 6) le16;
        (if t = 104 then map_option (\<lambda>f. (f, [])) (handleNexthop f b False)
         else if t = 105 then map_option (\<lambda>f. (f, [])) (handleNexthop f b True)
         else if t = 24 then handleRoute f links b False
         else if t = 25 then handleRoute f links b True
         else Some (f, []))
      })"

section \<open>The connection\<close>

text \<open>
  \<^verbatim>\<open>handle\<close> reads frames until the stream ends or a frame is malformed.  Its state
  is the collector, the number of frames read and the effects so far; \<open>env n\<close> is what the
  kernel's link list is while frame \<open>n\<close> is handled.
\<close>

type_synonym fpm_conn = "fpm \<times> nat \<times> effect list"

definition fpm_frame :: "(nat \<Rightarrow> link_list) \<Rightarrow> fpm_conn \<Rightarrow> byte \<Rightarrow> bytes \<Rightarrow> fpm_conn option" where
  "fpm_frame env s mtype body =
     (let (f, n, out) = s in
      if mtype \<noteq> 1 then Some (f, n + 1, out)
      else map_option (\<lambda>(f', es). (f', n + 1, out @ es)) (handleNetlink f (env n) body))"

function fpm_handle :: "(nat \<Rightarrow> link_list) \<Rightarrow> fpm_conn \<Rightarrow> bytes \<Rightarrow> fpm_conn option" where
  "fpm_handle env s str =
     (if length str < 4 then Some s
      else do {
        l \<leftarrow> Option.bind (go_range str 2 4) be16;
        mtype \<leftarrow> go_index str 1;
        (let msgLen = unat l in
         if msgLen < 4 then Some s
         else if length str < msgLen then Some s
         else do {
           body \<leftarrow> go_range str 4 msgLen;
           s' \<leftarrow> fpm_frame env s mtype body;
           fpm_handle env s' (drop msgLen str)
         })
      })"
  by pat_completeness auto

termination
  by (relation "measure (\<lambda>(env, s, str). length str)") auto

declare fpm_handle.simps [simp del]

text \<open>\<^verbatim>\<open>Run\<close> on a new connection: the reconnect hook, then the frames.\<close>

definition fpm_connect :: "(nat \<Rightarrow> link_list) \<Rightarrow> fpm \<Rightarrow> bytes \<Rightarrow> (fpm \<times> effect list) option" where
  "fpm_connect env f str =
     map_option (\<lambda>(f', n, out). (f', out))
       (fpm_handle env (f, 0, if w_hook (f_w f) then [KickOSPF ''fpm-reconnect''] else []) str)"

section \<open>The attribute walk\<close>

text \<open>
  The writer of an attribute: length, type with flag bits, payload, padding to four bytes.
\<close>

definition put_attr :: "16 word \<times> 16 word \<times> bytes \<Rightarrow> bytes" where
  "put_attr a =
     (let (fl, t, p) = a in
      put_le16 (word_of_nat (4 + length p)) @ put_le16 (fl OR t) @ p @
      replicate (align4 (length p) - length p) 0)"

definition ok_attr :: "16 word \<times> 16 word \<times> bytes \<Rightarrow> bool" where
  "ok_attr a \<longleftrightarrow>
     (let (fl, t, p) = a in fl AND 0x3fff = 0 \<and> t AND 0x3fff = t \<and> 4 + length p < 2 ^ 16)"

lemma align4_add4: "align4 (4 + n) = 4 + align4 n"
  unfolding align4_def by presburger

lemma put_attr_length: "length (put_attr (fl, t, p)) = 4 + align4 (length p)"
  using align4_bounds(1) [of "length p"] by (simp add: put_attr_def)

lemma put_attr_aligned: "length (put_attr a) mod 4 = 0"
  using align4_bounds(3) by (cases a) (auto simp: put_attr_length mod_simps)

lemma forEachAttr_put:
  assumes "ok_attr (fl, t, p)"
  shows "forEachAttr (put_attr (fl, t, p) @ r) = map_option ((#) (t, p)) (forEachAttr r)"
proof -
  let ?b = "put_attr (fl, t, p) @ r"
  let ?n = "4 + length p"
  have n: "unat (word_of_nat ?n :: 16 word) = ?n"
    using assms by (intro unat_of_small16) (simp add: ok_attr_def)
  have t: "(fl OR t) AND 0x3fff = t"
    using assms by (simp add: ok_attr_def word_ao_dist)
  have len: "?n \<le> length ?b" "align4 ?n \<le> length ?b"
    using align4_bounds(1) [of "length p"] by (simp_all add: put_attr_length align4_add4)
  have r1: "go_range ?b 0 2 = Some (put_le16 (word_of_nat ?n))"
    by (simp add: go_range_def put_attr_def)
  have r2: "go_range ?b 2 4 = Some (put_le16 (fl OR t))"
    by (simp add: go_range_def put_attr_def)
  have r3: "go_range ?b 4 ?n = Some p"
    by (simp add: go_range_def put_attr_def)
  have r4: "go_from ?b (align4 ?n) = Some r"
    using len(2) align4_bounds(1) [of "length p"]
    by (simp add: go_from_def put_attr_def align4_add4)
  from len show ?thesis
    by (subst forEachAttr.simps)
      (simp only: r1 r2 r3 r4 n t read_put_nil Option.bind.bind_lunit Let_def; cases "forEachAttr r"; simp)
qed

interpretation nlattr: tlv_stream put_attr ok_attr snd forEachAttr
proof unfold_locales
  show "forEachAttr [] = Some []" by (subst forEachAttr.simps) simp
  fix i r assume "ok_attr i"
  then show "forEachAttr (put_attr i @ r) =
      map_option ((#) (snd i)) (forEachAttr r)"
    by (cases i) (simp add: forEachAttr_put)
qed

text \<open>A walk over a string of a multiple of four bytes never panics.\<close>

lemma align4_le: "n \<le> m \<Longrightarrow> m mod 4 = 0 \<Longrightarrow> align4 n \<le> m"
  by (auto simp: align4_def)

definition attr_len :: "bytes \<Rightarrow> nat" where
  "attr_len attrs = unat (the (le16 (take 2 attrs)))"

definition attr_item :: "bytes \<Rightarrow> 16 word \<times> bytes" where
  "attr_item attrs =
     (the (le16 (take 2 (drop 2 attrs))) AND 0x3fff, take (attr_len attrs - 4) (drop 4 attrs))"

text \<open>One step of the walk, with its three ways to end.\<close>

lemma forEachAttr_short: "length attrs < 4 \<Longrightarrow> forEachAttr attrs = Some []"
  by (subst forEachAttr.simps) simp

lemma forEachAttr_step:
  assumes "4 \<le> length attrs"
  shows "forEachAttr attrs =
    (if attr_len attrs < 4 \<or> length attrs < attr_len attrs then Some []
     else if length attrs < align4 (attr_len attrs) then None
     else map_option ((#) (attr_item attrs)) (forEachAttr (drop (align4 (attr_len attrs)) attrs)))"
proof -
  obtain l where l: "le16 (take 2 attrs) = Some l" using le16_defined [of "take 2 attrs"] assms by auto
  obtain t where t: "le16 (take 2 (drop 2 attrs)) = Some t"
    using le16_defined [of "take 2 (drop 2 attrs)"] assms by auto
  from assms l t show ?thesis
    by (subst forEachAttr.simps) (auto simp: go_range_def go_from_def Let_def not_less attr_len_def
        attr_item_def map_conv_bind_option comp_def)
qed

lemma drop_attr_less:
  "4 \<le> attr_len attrs \<Longrightarrow> attr_len attrs \<le> length attrs \<Longrightarrow>
   length (drop (align4 (attr_len attrs)) attrs) < length attrs"
  using align4_bounds(1) [of "attr_len attrs"] by (simp only: length_drop)

lemma forEachAttr_aligned: "length attrs mod 4 = 0 \<Longrightarrow> forEachAttr attrs \<noteq> None"
proof (induction "length attrs" arbitrary: attrs rule: less_induct)
  case less
  let ?n = "attr_len attrs"
  show ?case
  proof (cases "length attrs < 4 \<or> ?n < 4 \<or> length attrs < ?n")
    case True
    then show ?thesis
      by (cases "length attrs < 4") (auto simp: forEachAttr_short forEachAttr_step)
  next
    case False
    then have le: "align4 ?n \<le> length attrs" using less.prems by (auto intro: align4_le)
    have "length (drop (align4 ?n) attrs) mod 4 = 0"
      using less.prems align4_bounds(3) [of ?n] by (simp add: mod_eq_0_iff_dvd)
    with False drop_attr_less [of attrs] have "forEachAttr (drop (align4 ?n) attrs) \<noteq> None"
      by (intro less.hyps) auto
    with False le show ?thesis by (simp add: forEachAttr_step)
  qed
qed

section \<open>Panics\<close>

definition aligned :: "bytes \<Rightarrow> bool" where
  "aligned b \<longleftrightarrow> length b mod 4 = 0"

lemma parseMPLSEncap_aligned: "aligned p \<Longrightarrow> \<exists>ls. parseMPLSEncap p = Some ls"
  using forEachAttr_aligned [of p] by (auto simp: parseMPLSEncap_def aligned_def)

lemma read_ge:
  "4 \<le> length p \<Longrightarrow> \<exists>x. le32 p = Some x" "2 \<le> length p \<Longrightarrow> \<exists>x. le16 p = Some x"
  by (auto intro: le32_defined le16_defined)

lemma nh_attr_total:
  "(fst a = 8 \<Longrightarrow> aligned (snd a)) \<Longrightarrow> \<exists>v'. nh_attr v a = Some v'"
  using parseMPLSEncap_aligned [of "snd a"] read_ge [of "snd a"]
  by (cases a) (auto simp: nh_attr_def)

lemma rt_attr_total:
  "(fst a = 22 \<Longrightarrow> aligned (snd a)) \<Longrightarrow> \<exists>v'. rt_attr v a = Some v'"
  using parseMPLSEncap_aligned [of "snd a"] read_ge [of "snd a"]
  by (cases a) (auto simp: rt_attr_def)

lemma handleNexthop_total:
  assumes "aligned b" and "\<And>as p. forEachAttr (drop 24 b) = Some as \<Longrightarrow> (8, p) \<in> set as \<Longrightarrow> aligned p"
  shows "\<exists>r. handleNexthop f b del = Some r"
proof (cases "length b < 24")
  case True
  then show ?thesis by (simp add: handleNexthop_def)
next
  case False
  then have "length (drop 24 b) mod 4 = 0"
    using assms(1) by (simp add: aligned_def mod_eq_0_iff_dvd)
  then obtain as where as: "forEachAttr (drop 24 b) = Some as"
    using forEachAttr_aligned [of "drop 24 b"] by auto
  have "\<exists>v. foldM nh_attr nh_vars0 as = Some v"
    using assms(2) [OF as] by (intro foldM_total nh_attr_total) auto
  with False as show ?thesis by (auto simp: handleNexthop_def go_from_def)
qed

lemma handleRoute_total:
  assumes "aligned b" and "\<And>as p. forEachAttr (drop 28 b) = Some as \<Longrightarrow> (22, p) \<in> set as \<Longrightarrow> aligned p"
  shows "\<exists>r. handleRoute f links b del = Some r"
proof (cases "length b < 28")
  case True
  then show ?thesis by (simp add: handleRoute_def)
next
  case False
  then have "length (drop 28 b) mod 4 = 0"
    using assms(1) by (simp add: aligned_def mod_eq_0_iff_dvd)
  then obtain as where as: "forEachAttr (drop 28 b) = Some as"
    using forEachAttr_aligned [of "drop 28 b"] by auto
  have "\<exists>v. foldM rt_attr rt_vars0 as = Some v"
    using assms(2) [OF as] by (intro foldM_total rt_attr_total) auto
  with False as show ?thesis
    by (auto simp: handleRoute_def go_from_def go_index_def Let_def split: prod.splits)
qed

text \<open>
  C23. A Netlink message can make the FPM collector panic only if the length of the message, or
  that of the payload of an encapsulation attribute in it, is not a multiple of four: messages
  with the padding Netlink prescribes are always handled, whatever their contents.
\<close>

theorem fpm_panic_only_unpadded:
  assumes "handleNetlink f links b = None"
  shows "\<not> aligned b \<or>
    (\<exists>as p. forEachAttr (drop 24 b) = Some as \<and> (8, p) \<in> set as \<and> \<not> aligned p) \<or>
    (\<exists>as p. forEachAttr (drop 28 b) = Some as \<and> (22, p) \<in> set as \<and> \<not> aligned p)"
proof (rule ccontr)
  assume neg: "\<not> ?thesis"
  then have nh: "\<exists>r. handleNexthop f b d = Some r" and rt: "\<exists>r. handleRoute f links b d = Some r" for d
    by (blast intro: handleNexthop_total handleRoute_total)+
  have len: "16 \<le> length b" using assms by (auto simp: handleNetlink_def split: if_splits)
  then obtain t where "Option.bind (go_range b 4 6) le16 = Some t"
    using le16_defined [of "take 2 (drop 4 b)"] by (auto simp: go_range_def)
  with assms len nh [of False] nh [of True] rt [of False] rt [of True] show False
    by (auto simp: handleNetlink_def split: if_splits)
qed

definition crash_message :: bytes where
  "crash_message =
     [33, 0, 0, 0, 24, 0, 0, 0, 0, 0, 0, 0, 0, 0, 0, 0,
      2, 24, 0, 0, 254, 0, 0, 1, 0, 0, 0, 0,
      5, 0, 1, 0, 10]"

text \<open>
  A five-byte attribute at the end of a message is enough to crash the shim: the walk's
  bounds check accepts it (its length is within the buffer) and then advances to the next
  multiple of four, past the end.  The message is an RTM_NEWROUTE whose last attribute lacks
  its padding; any client of the FPM port can send it, whatever the collector's state.
\<close>

theorem unpadded_attribute_panics: "handleNetlink f links crash_message = None"
proof -
  have "forEachAttr (drop 28 crash_message) = None"
    by (simp add: crash_message_def forEachAttr_step attr_len_def align4_def)
  then show ?thesis
    by (simp add: handleNetlink_def handleRoute_def go_from_def go_index_def go_range_def
        crash_message_def)
qed

theorem fpm_panic_only_unpadded_witness: "\<not> aligned crash_message"
proof -
  have rt: "forEachAttr (drop 28 crash_message) = None"
    by (simp add: crash_message_def forEachAttr_step attr_len_def align4_def)
  then have panic: "handleNetlink (NewFPM (Some []) all_wired) (Some []) crash_message = None"
    by (simp add: handleNetlink_def handleRoute_def go_from_def go_index_def go_range_def
        crash_message_def)
  have "forEachAttr (drop 24 crash_message) = Some []"
    by (simp add: crash_message_def forEachAttr.simps go_range_def)
  with fpm_panic_only_unpadded [OF panic] rt show ?thesis by simp
qed

end
