(* ===== verification/FpmSpec.thy ===== *)
theory FpmSpec
  imports FpmIngest Simulation
begin

text \<open>
  What the FPM collector promises: the stream of frames is handled frame by frame, Netlink
  messages in the kernel's format are read back exactly (routes and next-hop objects with any
  header and any of their attributes, label stacks), the AFT subtree is a map from routes to
  their last announced next hop, and next-hop groups are followed up to a fixed depth.
\<close>

section \<open>Frames\<close>

text \<open>A frame: version, message type, big-endian length of header and body.\<close>

definition put_fpm :: "byte \<times> byte \<times> bytes \<Rightarrow> bytes" where
  "put_fpm m = (let (ver, ty, body) = m in
     [ver, ty] @ put_be16 (word_of_nat (4 + length body)) @ body)"

definition ok_fpm :: "byte \<times> byte \<times> bytes \<Rightarrow> bool" where
  "ok_fpm m = (let (ver, ty, body) = m in 4 + length body < 2 ^ 16)"

lemma fpm_handle_frame:
  assumes "ok_fpm (ver, ty, body)"
  shows "fpm_handle env s (put_fpm (ver, ty, body) @ r) =
    Option.bind (fpm_frame env s ty body) (\<lambda>s'. fpm_handle env s' r)"
proof -
  let ?b = "put_fpm (ver, ty, body) @ r"
  let ?n = "4 + length body"
  have n: "unat (word_of_nat ?n :: 16 word) = ?n"
    using assms by (intro unat_of_small16) (simp add: ok_fpm_def)
  have r1: "go_range ?b 2 4 = Some (put_be16 (word_of_nat ?n))"
    by (simp add: go_range_def put_fpm_def)
  have r2: "go_index ?b 1 = Some ty" by (simp add: go_index_def put_fpm_def)
  have r3: "go_range ?b 4 ?n = Some body" by (simp add: go_range_def put_fpm_def)
  have r4: "drop ?n ?b = r" by (simp add: put_fpm_def put_be16_def drop_Cons')
  have len: "\<not> length ?b < 4" "\<not> length ?b < ?n" "\<not> ?n < 4" by (simp_all add: put_fpm_def)
  show ?thesis
    by (subst fpm_handle.simps)
      (simp only: len r1 r2 r3 r4 n read_put_nil Option.bind.bind_lunit Let_def if_False)
qed

interpretation fpm_conn: frame_stream put_fpm ok_fpm "\<lambda>s (ver, ty, body). fpm_frame env s ty body"
  "fpm_handle env" for env
proof unfold_locales
  show "fpm_handle env s [] = Some s" for s by (subst fpm_handle.simps) simp
  show "ok_fpm m \<Longrightarrow> fpm_handle env s (put_fpm m @ r) =
      Option.bind (case m of (ver, ty, body) \<Rightarrow> fpm_frame env s ty body)
        (\<lambda>s'. fpm_handle env s' r)" for m s r
    by (cases m) (simp add: fpm_handle_frame)
qed

text \<open>What every frame keeps, a connection keeps.\<close>

lemma fpm_handle_invariant:
  assumes "\<And>s ty body s'. P s \<Longrightarrow> fpm_frame env s ty body = Some s' \<Longrightarrow> P s'"
  shows "fpm_handle env s str = Some s' \<Longrightarrow> P s \<Longrightarrow> P s'"
proof (induction "length str" arbitrary: s str rule: less_induct)
  case less
  show ?case
  proof (cases "length str < 4")
    case True
    with less.prems show ?thesis by (subst (asm) fpm_handle.simps) simp
  next
    case False
    then have "2 \<le> length (take 2 (drop 2 str))" by auto
    from be16_defined [OF this] False obtain l where l: "Option.bind (go_range str 2 4) be16 = Some l"
      by (auto simp: go_range_def)
    show ?thesis
    proof (cases "unat l < 4 \<or> length str < unat l")
      case True
      with less.prems(1) False l have "s' = s"
        by (subst (asm) fpm_handle.simps) (auto simp: go_index_def Let_def split: if_splits)
      with less.prems(2) show ?thesis by simp
    next
      case ok: False
      then obtain body where body: "go_range str 4 (unat l) = Some body" by (auto simp: go_range_def)
      have "go_index str 1 = Some (str ! 1)" using False by (auto simp: go_index_def)
      with False l ok body less.prems(1) obtain s1 where s1: "fpm_frame env s (str ! 1) body = Some s1"
        and run: "fpm_handle env s1 (drop (unat l) str) = Some s'"
        by (subst (asm) fpm_handle.simps) (auto simp: Let_def Option.bind_eq_Some_conv)
      have "P s1" using assms less.prems(2) s1 by blast
      moreover have "length (drop (unat l) str) < length str" using ok by (intro drop_length_less) auto
      ultimately show ?thesis using less.hyps run by blast
    qed
  qed
qed

section \<open>Label stacks\<close>

text \<open>
  The kernel's label stack: label in the top 20 bits, traffic class and TTL zero, the
  bottom-of-stack bit on the last entry only.
\<close>

definition mpls_entry :: "32 word \<Rightarrow> bool \<Rightarrow> 32 word" where
  "mpls_entry l bottom = push_bit 12 l OR (if bottom then 0x100 else 0)"

fun put_stack :: "32 word list \<Rightarrow> bytes" where
  "put_stack [] = []"
| "put_stack [l] = put_be32 (mpls_entry l True)"
| "put_stack (l # ls) = put_be32 (mpls_entry l False) @ put_stack ls"

lemma bottom_bit: "bit (0x100 :: int) n \<longleftrightarrow> n = 8"
proof -
  have "(0x100 :: int) = 2 ^ 8" by simp
  then show ?thesis by (simp only: bit_exp_iff) auto
qed

lemma mpls_entry_label: "take_bit 20 l = l \<Longrightarrow> drop_bit 12 (mpls_entry l b) = (l :: 32 word)"
proof -
  assume l: "take_bit 20 l = l"
  have "drop_bit 12 (push_bit 12 l OR (if b then 0x100 else 0)) = take_bit 20 l"
    by (rule bit_word_eqI) (auto simp: bit_simps bottom_bit)
  with l show ?thesis by (simp add: mpls_entry_def)
qed

lemma mpls_entry_bottom: "mpls_entry l b AND 0x100 = 0 \<longleftrightarrow> \<not> b"
  using and_exp_eq_0_iff_not_bit [of "mpls_entry l b" 8]
  by (auto simp: mpls_entry_def bit_simps)

lemma decodeMPLSStack_entry:
  "decodeMPLSStack (put_be32 w @ r) =
     drop_bit 12 w # (if w AND 0x100 \<noteq> 0 then [] else decodeMPLSStack r)"
  using be32_put [of w "[]"] by (simp add: put_be32_def del: be32.simps)

lemma decode_put_stack:
  "ls \<noteq> [] \<Longrightarrow> \<forall>l \<in> set ls. take_bit 20 l = l \<Longrightarrow> decodeMPLSStack (put_stack ls @ r) = ls"
  by (induction ls rule: put_stack.induct)
    (simp_all add: decodeMPLSStack_entry mpls_entry_label mpls_entry_bottom)


lemma put_stack_length: "length (put_stack ls) = 4 * length ls"
  by (induction ls rule: put_stack.induct) simp_all

section \<open>Messages in the kernel's format\<close>

text \<open>
  A Netlink message: a header with the length of the message, its type, flags, sequence number
  and sender, and a body.
\<close>

record nlhdr =
  nl_flags :: "16 word"
  nl_seq :: "32 word"
  nl_pid :: "32 word"

definition put_nl :: "nlhdr \<Rightarrow> 16 word \<Rightarrow> bytes \<Rightarrow> bytes" where
  "put_nl h ty body =
     put_le32 (word_of_nat (16 + length body)) @ put_le16 ty @ put_le16 (nl_flags h) @
     put_le32 (nl_seq h) @ put_le32 (nl_pid h) @ body"

lemma put_nl_read:
  "length (put_nl h ty body) = 16 + length body" "drop 16 (put_nl h ty body) = body"
  "go_from (put_nl h ty body) 16 = Some body"
  "go_range (put_nl h ty body) 4 6 = Some (put_le16 ty)"
  by (simp_all add: put_nl_def go_from_def go_range_def)

lemma put_nl_from: "length xs = n \<Longrightarrow> go_from (put_nl h ty (xs @ r)) (16 + n) = Some r"
  by (auto simp: put_nl_def go_from_def)

text \<open>
  Attributes have flag bits, a type and a payload.  \<open>carries ts as vs\<close> says that a list of
  attributes has the values \<open>vs\<close> for the types \<open>ts\<close>: in any order, with any flag bits, and
  among any attributes of other types.
\<close>

type_synonym nl_attr = "16 word \<times> 16 word \<times> bytes"
type_synonym nl_value = "16 word \<times> bytes"

definition put_attrs :: "nl_attr list \<Rightarrow> bytes" where
  "put_attrs as = concat (map put_attr as)"

definition carries :: "16 word set \<Rightarrow> nl_attr list \<Rightarrow> nl_value list \<Rightarrow> bool" where
  "carries ts as vs \<longleftrightarrow>
     list_all ok_attr as \<and> among ts as vs"

definition opt_attr :: "bool \<Rightarrow> 16 word \<Rightarrow> bytes \<Rightarrow> nl_value list" where
  "opt_attr c t p = (if c then [(t, p)] else [])"

text \<open>
  The encapsulation of a route or next hop: MPLS with a label stack, possibly among other
  attributes (the TTL), or one of the types the collector does not read.
\<close>

datatype encap = NoEncap | Mpls "nl_attr list" "32 word list" | OtherEncap "16 word" bytes

fun encap_attrs :: "16 word \<Rightarrow> 16 word \<Rightarrow> encap \<Rightarrow> nl_value list" where
  "encap_attrs tt te NoEncap = []"
| "encap_attrs tt te (Mpls as ls) = [(tt, put_le16 1), (te, put_attrs as)]"
| "encap_attrs tt te (OtherEncap ty p) = [(tt, put_le16 ty), (te, p)]"

fun encap_labels :: "encap \<Rightarrow> 32 word list" where
  "encap_labels (Mpls as ls) = ls"
| "encap_labels _ = []"

fun ok_encap :: "encap \<Rightarrow> bool" where
  "ok_encap NoEncap = True"
| "ok_encap (Mpls as ls) =
     (ls \<noteq> [] \<and> list_all (\<lambda>l. take_bit 20 l = l) ls \<and> carries {1} as [(1, put_stack ls)])"
| "ok_encap (OtherEncap ty p) = (ty \<notin> {0, 1} \<and> aligned p)"

text \<open>
  RTM_NEWROUTE and RTM_DELROUTE: every field of the kernel's \<^verbatim>\<open>rtmsg\<close>, then the
  attributes the collector reads, each present or not (an absent interface, next-hop object or
  table is 0, an absent address empty).
\<close>

record kroute =
  r_family :: byte
  r_len :: byte
  r_srclen :: byte
  r_tos :: byte
  r_tbl :: byte
  r_proto :: byte
  r_scope :: byte
  r_type :: byte
  r_flags :: "32 word"
  r_dst :: bytes
  r_gw :: bytes
  r_oif :: "32 word"
  r_table :: "32 word"
  r_nhid :: "32 word"
  r_encap :: encap

definition route_types :: "16 word set" where
  "route_types = {1, 4, 5, 15, 21, 22, 30}"

definition route_attrs :: "kroute \<Rightarrow> nl_value list" where
  "route_attrs r =
     opt_attr (r_dst r \<noteq> []) 1 (r_dst r) @ opt_attr (r_table r \<noteq> 0) 15 (put_le32 (r_table r)) @
     opt_attr (r_gw r \<noteq> []) 5 (r_gw r) @ opt_attr (r_oif r \<noteq> 0) 4 (put_le32 (r_oif r)) @
     opt_attr (r_nhid r \<noteq> 0) 30 (put_le32 (r_nhid r)) @ encap_attrs 21 22 (r_encap r)"

definition put_rtmsg :: "kroute \<Rightarrow> bytes" where
  "put_rtmsg r =
     [r_family r, r_len r, r_srclen r, r_tos r, r_tbl r, r_proto r, r_scope r, r_type r] @
     put_le32 (r_flags r)"

text \<open>The address families the collector files routes of, with the length of their addresses.\<close>

definition afi :: "byte \<Rightarrow> (string \<times> nat) option" where
  "afi family =
     (if family = 2 then Some (''ipv4-unicast'', 4)
      else if family = 10 then Some (''ipv6-unicast'', 16) else None)"

definition ok_kroute :: "kroute \<Rightarrow> bool" where
  "ok_kroute r \<longleftrightarrow>
     ok_encap (r_encap r) \<and>
     (case afi (r_family r) of None \<Rightarrow> True | Some (af, n) \<Rightarrow> r_dst r = [] \<or> length (r_dst r) = n)"

text \<open>RTM_NEWNEXTHOP and RTM_DELNEXTHOP: the object's attributes; a group has ids and weights.\<close>

record nhobj =
  o_id :: "32 word"
  o_gw :: bytes
  o_oif :: "32 word"
  o_group :: "(32 word \<times> 32 word) list"
  o_bh :: bool
  o_encap :: encap

definition put_group :: "(32 word \<times> 32 word) list \<Rightarrow> bytes" where
  "put_group gs = concat (map (\<lambda>(i, w). put_le32 i @ put_le32 w) gs)"

definition nexthop_types :: "16 word set" where
  "nexthop_types = {1, 2, 3, 5, 6, 7, 8}"

definition nexthop_attrs :: "nhobj \<Rightarrow> nl_value list" where
  "nexthop_attrs ob =
     [(1, put_le32 (o_id ob))] @ opt_attr (o_group ob \<noteq> []) 2 (put_group (o_group ob)) @
     opt_attr (o_bh ob) 3 [] @ opt_attr (o_oif ob \<noteq> 0) 5 (put_le32 (o_oif ob)) @
     opt_attr (o_gw ob \<noteq> []) 6 (o_gw ob) @ encap_attrs 7 8 (o_encap ob)"

definition nexthop_of :: "nhobj \<Rightarrow> nexthop" where
  "nexthop_of ob =
     \<lparr>nh_gw = o_gw ob, nh_oif = o_oif ob, nh_group = map fst (o_group ob),
      nh_labels = encap_labels (o_encap ob), nh_blackhole = o_bh ob\<rparr>"

definition ok_nhobj :: "nhobj \<Rightarrow> bool" where
  "ok_nhobj ob \<longleftrightarrow> o_id ob \<noteq> 0 \<and> ok_encap (o_encap ob)"

text \<open>
  The messages of a session: next-hop objects and routes, new or deleted (the first argument),
  and messages of any other type, which the collector skips.
\<close>

datatype kmsg =
    KNexthop bool nlhdr bytes nhobj "nl_attr list"
  | KRoute bool nlhdr kroute "nl_attr list"
  | KOther "16 word" nlhdr bytes

fun put_kmsg :: "kmsg \<Rightarrow> bytes" where
  "put_kmsg (KNexthop del h nhm ob as) = put_nl h (if del then 105 else 104) (nhm @ put_attrs as)"
| "put_kmsg (KRoute del h r as) = put_nl h (if del then 25 else 24) (put_rtmsg r @ put_attrs as)"
| "put_kmsg (KOther ty h body) = put_nl h ty body"

fun well_formed :: "kmsg \<Rightarrow> bool" where
  "well_formed (KNexthop del h nhm ob as) =
     (length nhm = 8 \<and> ok_nhobj ob \<and> carries nexthop_types as (nexthop_attrs ob))"
| "well_formed (KRoute del h r as) = (ok_kroute r \<and> carries route_types as (route_attrs r))"
| "well_formed (KOther ty h body) = (ty \<notin> {24, 25, 104, 105})"

definition ok_kmsg :: "kmsg \<Rightarrow> bool" where
  "ok_kmsg m \<longleftrightarrow> well_formed m \<and> 4 + length (put_kmsg m) < 2 ^ 16"

section \<open>Reading attributes back\<close>

lemma forEachAttr_put_attrs: "list_all ok_attr as \<Longrightarrow> forEachAttr (put_attrs as) = Some (map snd as)"
  unfolding put_attrs_def by (rule nlattr.parse_items) (simp add: list_all_iff)

lemma foldl_skips:
  "(\<And>s x. \<not> P x \<Longrightarrow> f s x = s) \<Longrightarrow> foldl f s xs = foldl f s (filter P xs)"
  by (induction xs arbitrary: s) auto

lemma map_of_opt [simp]: "map_of (opt_attr c t p) k = (if c \<and> k = t then Some p else None)"
  by (simp add: opt_attr_def)

lemma map_of_encap [simp]:
  "map_of (encap_attrs tt te NoEncap) k = None"
  "map_of (encap_attrs tt te (Mpls as ls)) k =
     (if k = tt then Some (put_le16 1) else if k = te then Some (put_attrs as) else None)"
  "map_of (encap_attrs tt te (OtherEncap ty p)) k =
     (if k = tt then Some (put_le16 ty) else if k = te then Some p else None)"
  by simp_all

lemma keys_opt: "map fst (opt_attr c t p) = (if c then [t] else [])"
  by (simp add: opt_attr_def)

lemma keys_encap: "map fst (encap_attrs tt te e) = (if e = NoEncap then [] else [tt, te])"
  by (cases e) simp_all

lemma parse_put_encap:
  assumes "ok_encap (Mpls as ls)"
  shows "parseMPLSEncap (put_attrs as) = Some ls"
proof -
  let ?f = "\<lambda>labels (t, v). if t = 1 then decodeMPLSStack v else labels"
  have one: "filter (\<lambda>v. fst v \<in> {1}) (map snd as) = [(1, put_stack ls)]"
    using assms by (simp only: ok_encap.simps carries_def among_single)
  have "foldl ?f [] (map snd as) = foldl ?f [] (filter (\<lambda>v. fst v \<in> {1}) (map snd as))"
    by (rule foldl_skips) auto
  also have "\<dots> = ls"
    using assms decode_put_stack [of ls "[]"] by (simp only: one) (simp add: list_all_iff)
  finally show ?thesis
    using assms by (simp add: parseMPLSEncap_def carries_def forEachAttr_put_attrs)
qed

text \<open>What the callbacks read from a map of types to payloads.\<close>

definition word_at :: "(16 word \<Rightarrow> bytes option) \<Rightarrow> 16 word \<Rightarrow> 32 word \<Rightarrow> 32 word" where
  "word_at m t x = (case m t of None \<Rightarrow> x | Some p \<Rightarrow> the (le32 p))"

definition half_at :: "(16 word \<Rightarrow> bytes option) \<Rightarrow> 16 word \<Rightarrow> 16 word \<Rightarrow> 16 word" where
  "half_at m t x = (case m t of None \<Rightarrow> x | Some p \<Rightarrow> the (le16 p))"

definition bytes_at :: "(16 word \<Rightarrow> bytes option) \<Rightarrow> 16 word \<Rightarrow> bytes \<Rightarrow> bytes" where
  "bytes_at m t x = (case m t of None \<Rightarrow> x | Some p \<Rightarrow> p)"

definition labels_at :: "(16 word \<Rightarrow> bytes option) \<Rightarrow> 16 word \<Rightarrow> 32 word list \<Rightarrow> 32 word list" where
  "labels_at m t x = (case m t of None \<Rightarrow> x | Some p \<Rightarrow> the (parseMPLSEncap p))"

lemma at_upd:
  "word_at (m(t \<mapsto> p)) u x = (if u = t then the (le32 p) else word_at m u x)"
  "half_at (m(t \<mapsto> p)) u y = (if u = t then the (le16 p) else half_at m u y)"
  "bytes_at (m(t \<mapsto> p)) u z = (if u = t then p else bytes_at m u z)"
  "labels_at (m(t \<mapsto> p)) u ls = (if u = t then the (parseMPLSEncap p) else labels_at m u ls)"
  by (simp_all add: word_at_def half_at_def bytes_at_def labels_at_def)

lemma at_None:
  "m u = None \<Longrightarrow> word_at m u x = x" "m u = None \<Longrightarrow> half_at m u y = y"
  "m u = None \<Longrightarrow> bytes_at m u z = z" "m u = None \<Longrightarrow> labels_at m u ls = ls"
  by (simp_all add: word_at_def half_at_def bytes_at_def labels_at_def)

definition rt_read :: "rt_vars \<Rightarrow> (16 word \<Rightarrow> bytes option) \<Rightarrow> rt_vars" where
  "rt_read v m = \<lparr>rv_dst = bytes_at m 1 (rv_dst v), rv_gw = bytes_at m 5 (rv_gw v),
     rv_oif = word_at m 4 (rv_oif v), rv_table = word_at m 15 (rv_table v),
     rv_nhid = word_at m 30 (rv_nhid v), rv_labels = labels_at m 22 (rv_labels v),
     rv_encap = half_at m 21 (rv_encap v)\<rparr>"

definition nh_read :: "nh_vars \<Rightarrow> (16 word \<Rightarrow> bytes option) \<Rightarrow> nh_vars" where
  "nh_read v m = \<lparr>nv_id = word_at m 1 (nv_id v), nv_oif = word_at m 5 (nv_oif v),
     nv_gw = bytes_at m 6 (nv_gw v),
     nv_group = nv_group v @ (case m 2 of None \<Rightarrow> [] | Some p \<Rightarrow> group_ids p),
     nv_labels = labels_at m 8 (nv_labels v), nv_encap = half_at m 7 (nv_encap v),
     nv_bh = (nv_bh v \<or> m 3 \<noteq> None)\<rparr>"

definition rt_value :: "nl_value \<Rightarrow> bool" where
  "rt_value a \<longleftrightarrow> (let (t, p) = a in
     (if t \<in> {4, 15, 30} then 4 \<le> length p else if t = 21 then 2 \<le> length p
      else if t = 22 then parseMPLSEncap p \<noteq> None else t \<in> {1, 5}))"

definition nh_value_ok :: "nl_value \<Rightarrow> bool" where
  "nh_value_ok a \<longleftrightarrow> (let (t, p) = a in
     (if t \<in> {1, 5} then 4 \<le> length p else if t = 7 then 2 \<le> length p
      else if t = 8 then parseMPLSEncap p \<noteq> None else t \<in> {2, 3, 6}))"

lemma rt_read_cons:
  assumes "rt_value (t, p)" and "m t = None"
  shows "\<exists>v'. rt_attr v (t, p) = Some v' \<and> rt_read v' m = rt_read v (m(t \<mapsto> p))"
  using assms read_ge [of p]
  by (auto simp: rt_value_def rt_attr_def rt_read_def at_upd at_None split: if_splits)

lemma nh_read_cons:
  assumes "nh_value_ok (t, p)" and "m t = None"
  shows "\<exists>v'. nh_attr v (t, p) = Some v' \<and> nh_read v' m = nh_read v (m(t \<mapsto> p))"
  using assms read_ge [of p]
  by (auto simp: nh_value_ok_def nh_attr_def nh_read_def at_upd at_None split: if_splits)


section \<open>Messages\<close>

lemma le_lengths: "4 \<le> length (put_le32 w)" "2 \<le> length (put_le16 v)"
  by simp_all

lemma parse_encap_defined: "ok_encap (OtherEncap ty p) \<Longrightarrow> parseMPLSEncap p \<noteq> None"
  using parseMPLSEncap_aligned [of p] by auto

lemma route_values: "ok_encap (r_encap r) \<Longrightarrow> list_all rt_value (route_attrs r)"
  using parse_encap_defined
  by (cases "r_encap r") (auto simp: route_attrs_def opt_attr_def rt_value_def parse_put_encap)

lemma nexthop_values: "ok_encap (o_encap ob) \<Longrightarrow> list_all nh_value_ok (nexthop_attrs ob)"
  using parse_encap_defined
  by (cases "o_encap ob") (auto simp: nexthop_attrs_def opt_attr_def nh_value_ok_def parse_put_encap)

lemma route_keys: "distinct (map fst (route_attrs r))"
  by (simp add: route_attrs_def keys_opt keys_encap)

lemma nexthop_keys: "distinct (map fst (nexthop_attrs ob))"
  by (simp add: nexthop_attrs_def keys_opt keys_encap)

lemma carried: "carries ts as vs \<Longrightarrow> among ts as vs"
  by (simp add: carries_def)

lemma foldM_route:
  assumes "ok_encap (r_encap r)" and "carries route_types as (route_attrs r)"
  shows "foldM rt_attr v (map snd as) = Some (rt_read v (map_of (route_attrs r)))"
  by (rule foldM_among [OF rt_read_cons _ _ carried [OF assms(2)] route_keys route_values [OF assms(1)]])
    (simp_all add: rt_read_def at_None rt_attr_def route_types_def)

lemma foldM_nexthop:
  assumes "ok_encap (o_encap ob)" and "carries nexthop_types as (nexthop_attrs ob)"
  shows "foldM nh_attr v (map snd as) = Some (nh_read v (map_of (nexthop_attrs ob)))"
  by (rule foldM_among [OF nh_read_cons _ _ carried [OF assms(2)] nexthop_keys nexthop_values [OF assms(1)]])
    (simp_all add: nh_read_def at_None nh_attr_def nexthop_types_def)

text \<open>The variables of the two handlers after the walk.\<close>

lemma at_append:
  "word_at (m ++ m') u x = word_at m' u (word_at m u x)"
  "half_at (m ++ m') u y = half_at m' u (half_at m u y)"
  "bytes_at (m ++ m') u z = bytes_at m' u (bytes_at m u z)"
  "labels_at (m ++ m') u ls = labels_at m' u (labels_at m u ls)"
  by (simp_all add: word_at_def half_at_def bytes_at_def labels_at_def map_add_def split: option.splits)

lemma at_opt:
  "word_at (map_of (opt_attr c t p)) u x = (if c \<and> u = t then the (le32 p) else x)"
  "half_at (map_of (opt_attr c t p)) u y = (if c \<and> u = t then the (le16 p) else y)"
  "bytes_at (map_of (opt_attr c t p)) u z = (if c \<and> u = t then p else z)"
  "labels_at (map_of (opt_attr c t p)) u ls = (if c \<and> u = t then the (parseMPLSEncap p) else ls)"
  by (simp_all add: word_at_def half_at_def bytes_at_def labels_at_def)

lemma at_encap:
  "u \<noteq> tt \<Longrightarrow> u \<noteq> te \<Longrightarrow> word_at (map_of (encap_attrs tt te e)) u x = x"
  "u \<noteq> tt \<Longrightarrow> u \<noteq> te \<Longrightarrow> bytes_at (map_of (encap_attrs tt te e)) u z = z"
  by (cases e; simp add: word_at_def bytes_at_def)+

lemma mpls_labels_encap:
  assumes "ok_encap e" and "tt \<noteq> te"
  shows "mpls_labels (half_at (map_of (encap_attrs tt te e)) tt 0)
    (labels_at (map_of (encap_attrs tt te e)) te []) = encap_labels e"
  using assms
  by (cases e) (simp_all add: mpls_labels_def half_at_def labels_at_def parse_put_encap)

lemma route_vars:
  "rv_dst (rt_read rt_vars0 (map_of (route_attrs r))) = r_dst r"
  "rv_gw (rt_read rt_vars0 (map_of (route_attrs r))) = r_gw r"
  "rv_table (rt_read rt_vars0 (map_of (route_attrs r))) = r_table r"
  "rv_nhid (rt_read rt_vars0 (map_of (route_attrs r))) = r_nhid r"
  "ok_encap (r_encap r) \<Longrightarrow>
   mpls_labels (rv_encap (rt_read rt_vars0 (map_of (route_attrs r))))
     (rv_labels (rt_read rt_vars0 (map_of (route_attrs r)))) = encap_labels (r_encap r)"
  using mpls_labels_encap [of "r_encap r" 21 22]
  by (simp_all add: rt_read_def rt_vars0_def route_attrs_def map_of_append at_append at_opt at_encap)

lemma group_ids_put: "group_ids (put_group gs) = map fst gs"
proof (induction gs)
  case (Cons g gs)
  obtain i w where g: "g = (i, w)" by (cases g)
  have "group_ids (put_le32 i @ put_le32 w @ r) = i # group_ids r" for r
    using le32_put [of i "[]"] by (simp add: put_le32_def del: le32.simps)
  with Cons show ?case by (simp add: put_group_def g)
qed (simp add: put_group_def)

lemma nexthop_vars:
  "nv_id (nh_read nh_vars0 (map_of (nexthop_attrs ob))) = o_id ob"
  "nv_oif (nh_read nh_vars0 (map_of (nexthop_attrs ob))) = o_oif ob"
  "nv_gw (nh_read nh_vars0 (map_of (nexthop_attrs ob))) = o_gw ob"
  "nv_group (nh_read nh_vars0 (map_of (nexthop_attrs ob))) = map fst (o_group ob)"
  "nv_bh (nh_read nh_vars0 (map_of (nexthop_attrs ob))) = o_bh ob"
  "ok_encap (o_encap ob) \<Longrightarrow>
   mpls_labels (nv_encap (nh_read nh_vars0 (map_of (nexthop_attrs ob))))
     (nv_labels (nh_read nh_vars0 (map_of (nexthop_attrs ob)))) = encap_labels (o_encap ob)"
proof -
  let ?m = "map_of (nexthop_attrs ob)"
  have group: "?m 2 = (if o_group ob \<noteq> [] then Some (put_group (o_group ob)) else None)"
    and bh: "?m 3 = (if o_bh ob then Some [] else None)"
    by (cases "o_encap ob"; simp add: nexthop_attrs_def map_add_def)+
  show "nv_group (nh_read nh_vars0 ?m) = map fst (o_group ob)"
    by (simp add: nh_read_def group nh_vars0_def group_ids_put)
  show "nv_bh (nh_read nh_vars0 ?m) = o_bh ob"
    by (simp add: nh_read_def bh nh_vars0_def)
  show "nv_id (nh_read nh_vars0 ?m) = o_id ob" "nv_oif (nh_read nh_vars0 ?m) = o_oif ob"
    "nv_gw (nh_read nh_vars0 ?m) = o_gw ob"
    by (simp_all add: nh_read_def nh_vars0_def nexthop_attrs_def map_of_append at_append at_opt
        at_encap at_upd at_None)
  show "ok_encap (o_encap ob) \<Longrightarrow>
      mpls_labels (nv_encap (nh_read nh_vars0 ?m)) (nv_labels (nh_read nh_vars0 ?m)) =
        encap_labels (o_encap ob)"
    using mpls_labels_encap [of "o_encap ob" 7 8]
    by (simp add: nh_read_def nh_vars0_def nexthop_attrs_def map_of_append at_append at_opt
        at_encap at_upd at_None)
qed

text \<open>
  What a route shows: its own gateway, or that of its next-hop object, unless its type (6, 7
  or 8: blackhole, unreachable, prohibit) or the object says that it forwards nothing; its own
  labels, or the object's.  The table is the attribute's, or that of the header.
\<close>

definition discards :: "kroute \<Rightarrow> bool" where
  "discards r \<longleftrightarrow> r_type r \<in> {6, 7, 8}"

definition hop_text :: "bool \<Rightarrow> ip \<Rightarrow> string" where
  "hop_text bh gw = (if bh then ''blackhole'' else if gw \<noteq> [] then ip_string gw else ''-'')"

definition route_meaning :: "nh_table \<Rightarrow> kroute \<Rightarrow> string \<times> 32 word list" where
  "route_meaning m r =
     (let own = encap_labels (r_encap r) in
      if r_gw r \<noteq> [] \<or> r_nhid r = 0 then (hop_text (discards r) (r_gw r), own)
      else
        (case resolveNH m (r_nhid r) 0 of (gw, oif, bh, ls) \<Rightarrow>
          (hop_text (discards r \<or> bh) gw, if own = [] then ls else own)))"

definition route_table :: "kroute \<Rightarrow> 32 word" where
  "route_table r = (if r_table r \<noteq> 0 then r_table r else ucast (r_tbl r))"

definition route_prefix :: "kroute \<Rightarrow> nat \<Rightarrow> string" where
  "route_prefix r n = cidr (if r_dst r = [] then replicate n 0 else r_dst r) (unat (r_len r))"

lemma route_nexthop_read:
  assumes "ok_encap (r_encap r)"
  shows "route_nexthop m (r_type r) (rt_read rt_vars0 (map_of (route_attrs r))) = route_meaning m r"
  unfolding route_nexthop_def route_vars route_vars(5) [OF assms] Let_def route_meaning_def
  by (auto simp: hop_text_def discards_def split: prod.splits)

lemma formatPrefix_route:
  assumes "afi (r_family r) = Some (af, n)" and "r_dst r = [] \<or> length (r_dst r) = n"
  shows "formatPrefix (r_family r) (r_dst r) (r_len r) = (route_prefix r n, af)"
  using assms by (auto simp: afi_def formatPrefix_def route_prefix_def to4_def copy_into_def
      v4_in_v6_def split: if_splits)

lemma formatPrefix_other:
  "afi family = None \<Longrightarrow> formatPrefix family dst n = ([], [])"
  by (simp add: afi_def formatPrefix_def split: if_splits)

lemma rtmsg_read:
  "length (put_rtmsg r) = 12" "go_index (put_rtmsg r @ as) 0 = Some (r_family r)"
  "go_index (put_rtmsg r @ as) 1 = Some (r_len r)" "go_index (put_rtmsg r @ as) 7 = Some (r_type r)"
  "go_index (put_rtmsg r @ as) 4 = Some (r_tbl r)" "go_from (put_rtmsg r @ as) 12 = Some as"
  by (simp_all add: put_rtmsg_def go_index_def go_from_def put_le32_def)

lemma handle_put_route:
  assumes "well_formed (KRoute del h r as)"
  shows "handleNetlink f links (put_kmsg (KRoute del h r as)) =
    Some (case afi (r_family r) of
      None \<Rightarrow> (f, [])
    | Some (af, n) \<Rightarrow>
        (let (vrf, res) = Name links (f_vrf f) (route_table r); (nh, push) = route_meaning (f_nh f) r in
         (f\<lparr>f_vrf := res\<rparr>, route_effects (f_w f) vrf af (route_prefix r n) nh push del)))"
proof -
  have e: "ok_encap (r_encap r)" and c: "carries route_types as (route_attrs r)"
    and d: "\<And>af n. afi (r_family r) = Some (af, n) \<Longrightarrow> r_dst r = [] \<or> length (r_dst r) = n"
    using assms by (auto simp: ok_kroute_def)
  have attrs: "list_all ok_attr as" using c by (simp add: carries_def)
  let ?b = "put_rtmsg r @ put_attrs as"
  have len: "\<not> length (put_nl h ty ?b) < 16 + 12" for ty by (simp add: put_nl_read rtmsg_read)
  have route: "handleRoute f links (put_nl h ty ?b) del =
    Some (case afi (r_family r) of
      None \<Rightarrow> (f, [])
    | Some (af, n) \<Rightarrow>
        (let (vrf, res) = Name links (f_vrf f) (route_table r); (nh, push) = route_meaning (f_nh f) r in
         (f\<lparr>f_vrf := res\<rparr>, route_effects (f_w f) vrf af (route_prefix r n) nh push del)))" for ty
    unfolding handleRoute_def if_not_P [OF len]
    unfolding put_nl_read rtmsg_read Option.bind.bind_lunit
      forEachAttr_put_attrs [OF attrs] foldM_route [OF e c] route_nexthop_read [OF e] route_vars(1, 3)
    using formatPrefix_route [of r] d formatPrefix_other [of "r_family r"]
    by (auto simp: Let_def route_table_def route_prefix_def split: option.splits prod.splits)
  show ?thesis
    using route [of 24] route [of 25] by (cases del) (simp_all add: handleNetlink_def put_nl_read)
qed

lemma handle_put_nexthop:
  assumes "well_formed (KNexthop del h nhm ob as)"
  shows "handleNetlink f links (put_kmsg (KNexthop del h nhm ob as)) =
    Some (f\<lparr>f_nh := (f_nh f)(o_id ob := if del then None else Some (nexthop_of ob))\<rparr>, [])"
proof -
  have e: "ok_encap (o_encap ob)" and c: "carries nexthop_types as (nexthop_attrs ob)"
    and i: "o_id ob \<noteq> 0" and n: "length nhm = 8"
    using assms by (auto simp: ok_nhobj_def)
  have attrs: "list_all ok_attr as" using c by (simp add: carries_def)
  have len: "\<not> length (put_nl h ty (nhm @ put_attrs as)) < 16 + 8" for ty by (simp add: put_nl_read n)
  have "handleNexthop f (put_nl h ty (nhm @ put_attrs as)) del =
      Some (f\<lparr>f_nh := (f_nh f)(o_id ob := if del then None else Some (nexthop_of ob))\<rparr>)" for ty
    unfolding handleNexthop_def if_not_P [OF len]
    unfolding put_nl_from [OF n] Option.bind.bind_lunit
      forEachAttr_put_attrs [OF attrs] foldM_nexthop [OF e c] nexthop_vars nexthop_vars(6) [OF e]
    using i by (simp add: nexthop_of_def)
  from this [of 104] this [of 105] show ?thesis
    by (cases del) (simp_all add: handleNetlink_def put_nl_read)
qed

lemma handle_put_other:
  "well_formed (KOther ty h body) \<Longrightarrow> handleNetlink f links (put_kmsg (KOther ty h body)) = Some (f, [])"
  by (simp add: handleNetlink_def put_nl_read)

section \<open>The forwarding table in the tree\<close>

text \<open>A route's key and the two leaves it has in the tree: next hop and label stack.\<close>

type_synonym fib = "string \<times> string \<times> string \<Rightarrow> typed_value option \<times> typed_value option"

definition fib_of :: "tree \<Rightarrow> fib" where
  "fib_of t = (\<lambda>(vrf, af, pfx).
     (t (''openconfig'', gp_elem (aftPath vrf af pfx ''next-hop'')),
      t (''openconfig'', gp_elem (aftPath vrf af pfx ''pushed-mpls-label-stack''))))"

definition fib_entry :: "string \<Rightarrow> 32 word list \<Rightarrow> bool \<Rightarrow> typed_value option \<times> typed_value option" where
  "fib_entry nh push del =
     (if del then (None, None)
      else (Some (StringVal nh), if push = [] then None else Some (StringVal (labelsCSV push))))"

lemma aftPath_eq [simp]:
  "gp_elem (aftPath v a p l) = gp_elem (aftPath v' a' p' l') \<longleftrightarrow> v = v' \<and> a = a' \<and> p = p' \<and> l = l'"
  by (auto simp: aftPath_def)

lemma aftPath_below [simp]:
  "below (gp_elem (aftPath v a p l)) (gp_elem (aftPath v' a' p' l')) \<longleftrightarrow>
     v = v' \<and> a = a' \<and> p = p' \<and> l = l'"
  by (auto simp: aftPath_def below_def)

lemma route_effects_fib:
  "fib_of (tree_effects t (route_effects w vrf af pfx nh push del)) =
     (fib_of t)((vrf, af, pfx) := fib_entry nh push del)"
  by (rule ext) (auto simp: fib_of_def route_effects_def put_tree_def del_paths_lookup Let_def
      fib_entry_def strVal_def split: prod.splits)

text \<open>
  The machine the messages are meant to drive: the VRF names, the next-hop objects and the
  forwarding table, with the number of messages so far.
\<close>

definition put_session :: "kmsg list \<Rightarrow> bytes" where
  "put_session ms = concat (map (\<lambda>m. put_fpm (1, 1, put_kmsg m)) ms)"

definition fib_step :: "(nat \<Rightarrow> link_list) \<Rightarrow> fpm \<times> nat \<times> fib \<Rightarrow> kmsg \<Rightarrow> fpm \<times> nat \<times> fib" where
  "fib_step env s m =
     (let (f, n, fib) = s in
      case m of
        KNexthop del h nhm ob as \<Rightarrow>
          (f\<lparr>f_nh := (f_nh f)(o_id ob := if del then None else Some (nexthop_of ob))\<rparr>, n + 1, fib)
      | KRoute del h r as \<Rightarrow>
          (case afi (r_family r) of
             None \<Rightarrow> (f, n + 1, fib)
           | Some (af, alen) \<Rightarrow>
               (let (vrf, res) = Name (env n) (f_vrf f) (route_table r);
                    (nh, push) = route_meaning (f_nh f) r in
                (f\<lparr>f_vrf := res\<rparr>, n + 1,
                 fib((vrf, af, route_prefix r alen) := fib_entry nh push del))))
      | KOther ty h body \<Rightarrow> (f, n + 1, fib))"

lemma ok_frame: "ok_kmsg m \<Longrightarrow> ok_fpm (1, 1, put_kmsg m)"
  by (simp add: ok_kmsg_def ok_fpm_def)

definition fib_view :: "tree \<Rightarrow> fpm_conn \<Rightarrow> fpm \<times> nat \<times> fib" where
  "fib_view t s = (let (f, n, out) = s in (f, n, fib_of (tree_effects t out)))"

lemma fib_frame:
  assumes "ok_kmsg m"
  shows "\<exists>s'. fpm_frame env s 1 (put_kmsg m) = Some s' \<and> fib_view t s' = fib_step env (fib_view t s) m"
proof -
  have ok: "well_formed m" using assms by (simp add: ok_kmsg_def)
  obtain f n out where s: "s = (f, n, out)" by (cases s)
  show ?thesis
  proof (cases m)
    case (KNexthop del h nhm ob as)
    with ok show ?thesis
      by (simp add: s fpm_frame_def fib_view_def fib_step_def handle_put_nexthop del: put_kmsg.simps
          well_formed.simps)
  next
    case (KRoute del h r as)
    with ok show ?thesis
      by (auto simp: s fpm_frame_def fib_view_def fib_step_def handle_put_route route_effects_fib Let_def
          simp del: put_kmsg.simps well_formed.simps split: prod.splits option.splits)
  next
    case (KOther ty h body)
    with ok show ?thesis
      by (simp add: s fpm_frame_def fib_view_def fib_step_def handle_put_other del: put_kmsg.simps
          well_formed.simps)
  qed
qed

lemma fib_frames:
  "\<forall>m \<in> set ms. ok_kmsg m \<Longrightarrow>
   \<exists>s'. foldM (\<lambda>s (ver, ty, body). fpm_frame env s ty body) s (map (\<lambda>m. (1 :: byte, 1, put_kmsg m)) ms) = Some s' \<and>
     fib_view t s' = foldl (fib_step env) (fib_view t s) ms"
proof (induction ms arbitrary: s)
  case (Cons m ms)
  obtain s1 where "fpm_frame env s 1 (put_kmsg m) = Some s1"
    and v: "fib_view t s1 = fib_step env (fib_view t s) m"
    using fib_frame [of m env s t] Cons.prems by auto
  with Cons.IH [of s1] Cons.prems show ?case by simp
qed simp

lemma fpm_handle_session:
  assumes "\<forall>m \<in> set ms. ok_kmsg m"
  shows "\<exists>s'. fpm_handle env s (put_session ms) = Some s' \<and>
    fib_view t s' = foldl (fib_step env) (fib_view t s) ms"
proof -
  have "fpm_handle env s (put_session ms) =
      foldM (\<lambda>s (ver, ty, body). fpm_frame env s ty body) s (map (\<lambda>m. (1 :: byte, 1, put_kmsg m)) ms)"
    using fpm_conn.run_all [of "map (\<lambda>m. (1, 1, put_kmsg m)) ms" env s] assms
    by (simp add: put_session_def ok_frame comp_def)
  with fib_frames [OF assms] show ?thesis by simp
qed

text \<open>
  C8. A zebra session, from its bytes to the tree: over any sequence of FPM frames, each with
  one Netlink message, the collector never panics or loses synchronisation, its next-hop table
  is exactly the objects announced and not deleted, and the AFT subtree is exactly the
  forwarding table the messages describe: per VRF, family and prefix the next hop of the last
  route message, resolved through the objects known at that moment, and its label stack;
  nothing is left of a stack the route no longer imposes or of a route deleted.  The messages
  are new and deleted next-hop objects and routes with any header fields (flags, sequence
  number, sender, protocol, scope, type of route), IPv4, IPv6 or of a family the collector
  ignores, whose destination, table, gateway, interface, next-hop object, group, blackhole flag
  and encapsulation are each there or not, in any order and among any other attributes, each
  with its padding, and messages of any other type.  (Two attributes of one type the collector
  reads, or an address of a foreign length, are not covered; a multipath attribute is one of
  the others, and shows as no next hop.)
\<close>

theorem fpm_session_fib:
  assumes "\<forall>m \<in> set ms. ok_kmsg m"
  shows "\<exists>f' es n. fpm_connect env f (put_session ms) = Some (f', es) \<and>
    (f', n, fib_of (tree_effects t es)) = foldl (fib_step env) (f, 0, fib_of t) ms"
proof -
  let ?s = "(f, 0, if w_hook (f_w f) then [KickOSPF ''fpm-reconnect''] else [])"
  obtain f' n out where "fpm_handle env ?s (put_session ms) = Some (f', n, out)"
    and "fib_view t (f', n, out) = foldl (fib_step env) (fib_view t ?s) ms"
    using fpm_handle_session [OF assms, of env ?s t] by auto
  moreover have "fib_view t ?s = (f, 0, fib_of t)" by (simp add: fib_view_def)
  ultimately show ?thesis by (auto simp: fpm_connect_def fib_view_def)
qed

text \<open>Messages with just the attributes they carry, no flag bits and the header of a request.\<close>

definition plain_attrs :: "nl_value list \<Rightarrow> nl_attr list" where
  "plain_attrs vs = map (Pair 0) vs"

definition request :: nlhdr where
  "request = \<lparr>nl_flags = 0x501, nl_seq = 1, nl_pid = 0\<rparr>"

definition route_msg :: "bool \<Rightarrow> kroute \<Rightarrow> kmsg" where
  "route_msg del r = KRoute del request r (plain_attrs (route_attrs r))"

definition nexthop_msg :: "nhobj \<Rightarrow> kmsg" where
  "nexthop_msg ob = KNexthop False request [2, 0, 11, 0, 0, 0, 0, 0] ob (plain_attrs (nexthop_attrs ob))"

definition mpls :: "32 word list \<Rightarrow> encap" where
  "mpls ls = (if ls = [] then NoEncap else Mpls (plain_attrs [(1, put_stack ls)]) ls)"

text \<open>An IPv4 unicast route of zebra (protocol 11).\<close>

definition v4route :: "ip \<Rightarrow> byte \<Rightarrow> 32 word \<Rightarrow> ip \<Rightarrow> 32 word \<Rightarrow> 32 word list \<Rightarrow> kroute" where
  "v4route dst len table gw nhid ls =
     \<lparr>r_family = 2, r_len = len, r_srclen = 0, r_tos = 0, r_tbl = 0, r_proto = 11, r_scope = 0,
      r_type = 1, r_flags = 0, r_dst = dst, r_gw = gw, r_oif = 0, r_table = table, r_nhid = nhid,
      r_encap = mpls ls\<rparr>"

lemma carries_plain:
  "list_all (\<lambda>(t, p). t \<in> ts \<and> t AND 0x3fff = t \<and> 4 + length p < 2 ^ 16) vs \<Longrightarrow>
   carries ts (plain_attrs vs) vs"
  unfolding carries_def among_def plain_attrs_def
  by (induction vs) (auto simp: ok_attr_def)

text \<open>A session of two messages: an object with a gateway and one label, and a route through it.\<close>

definition demo_route :: kroute where
  "demo_route = v4route [10, 0, 1, 0] 24 254 [] 7 []"

definition demo_object :: nhobj where
  "demo_object = \<lparr>o_id = 7, o_gw = [192, 0, 2, 1], o_oif = 3, o_group = [], o_bh = False, o_encap = mpls [18]\<rparr>"

definition demo_session :: "kmsg list" where
  "demo_session = [nexthop_msg demo_object, route_msg False demo_route]"

lemma mpls_simps [simp]: "encap_labels (mpls ls) = ls"
  by (simp add: mpls_def)

lemma ok_mpls:
  assumes "list_all (\<lambda>l. take_bit 20 l = l) ls" and "length ls \<le> 16"
  shows "ok_encap (mpls ls)"
proof -
  have "carries {1} (plain_attrs [(1, put_stack ls)]) [(1, put_stack ls)]"
    using assms(2) by (intro carries_plain) (simp add: put_stack_length)
  then show ?thesis using assms(1) by (simp add: mpls_def)
qed

lemma put_attrs_plain_length:
  "length (put_attrs (plain_attrs vs)) = sum_list (map (\<lambda>(t, p). 4 + align4 (length p)) vs)"
  by (induction vs) (auto simp: put_attrs_def plain_attrs_def put_attr_length)

lemma mpls_attrs_length:
  "length ls \<le> 16 \<Longrightarrow> (t, p) \<in> set (encap_attrs tt te (mpls ls)) \<Longrightarrow> (t = tt \<or> t = te) \<and> length p \<le> 68"
  by (auto simp: mpls_def put_attrs_plain_length put_stack_length align4_def split: if_splits)

lemma carries_mpls:
  assumes "length ls \<le> 16" and "{tt, te} \<subseteq> ts" and "tt AND 0x3fff = tt" and "te AND 0x3fff = te"
  shows "list_all (\<lambda>(t, p). t \<in> ts \<and> t AND 0x3fff = t \<and> 4 + length p < 2 ^ 16) (encap_attrs tt te (mpls ls))"
  using mpls_attrs_length [OF assms(1)] assms(2-) by (fastforce simp: list_all_iff)

lemma ok_route_msg:
  assumes "dst = [] \<or> length dst = 4" and "length gw \<le> 16" and "length ls \<le> 16"
    and "list_all (\<lambda>l. take_bit 20 l = l) ls"
  shows "ok_kmsg (route_msg del (v4route dst len table gw nhid ls))"
proof -
  let ?r = "v4route dst len table gw nhid ls"
  have "carries route_types (plain_attrs (route_attrs ?r)) (route_attrs ?r)"
    using assms carries_mpls [of ls 21 22 route_types]
    by (intro carries_plain) (auto simp: route_attrs_def v4route_def opt_attr_def route_types_def)
  moreover have "ok_kroute ?r"
    using assms by (auto simp: ok_kroute_def v4route_def ok_mpls afi_def)
  moreover have "length (put_attrs (plain_attrs (route_attrs ?r))) \<le> 200"
    using assms by (auto simp: put_attrs_plain_length route_attrs_def v4route_def opt_attr_def
        mpls_def put_stack_length align4_def)
  ultimately show ?thesis
    by (simp add: ok_kmsg_def route_msg_def put_nl_read put_rtmsg_def)
qed

lemma ok_nexthop_msg:
  assumes "o_id ob \<noteq> 0" and "length (o_gw ob) \<le> 16" and "o_group ob = []"
    and "o_encap ob = mpls ls" and "length ls \<le> 16" and "list_all (\<lambda>l. take_bit 20 l = l) ls"
  shows "ok_kmsg (nexthop_msg ob)"
proof -
  have "carries nexthop_types (plain_attrs (nexthop_attrs ob)) (nexthop_attrs ob)"
    using assms carries_mpls [of ls 7 8 nexthop_types]
    by (intro carries_plain) (auto simp: nexthop_attrs_def opt_attr_def nexthop_types_def)
  moreover have "ok_nhobj ob"
    using assms by (auto simp: ok_nhobj_def ok_mpls)
  moreover have "length (put_attrs (plain_attrs (nexthop_attrs ob))) \<le> 200"
    using assms by (auto simp: put_attrs_plain_length nexthop_attrs_def opt_attr_def
        mpls_def put_stack_length align4_def)
  ultimately show ?thesis
    by (simp add: ok_kmsg_def nexthop_msg_def put_nl_read)
qed

lemma fib_step_route_msg:
  assumes "length dst = 4" and "table \<noteq> 0"
  shows "fib_step env (f, n, fib) (route_msg del (v4route dst len table gw 0 ls)) =
    (let (vrf, res) = Name (env n) (f_vrf f) table in
     (f\<lparr>f_vrf := res\<rparr>, n + 1,
      fib((vrf, ''ipv4-unicast'', cidr dst (unat len)) := fib_entry (hop_text False gw) ls del)))"
  using assms
  by (auto simp: fib_step_def route_msg_def v4route_def afi_def route_table_def route_prefix_def
      route_meaning_def discards_def Let_def split: prod.splits)

lemma handle_route_msg:
  assumes "length dst = 4" and "table \<noteq> 0" and "length gw \<le> 16" and "length ls \<le> 16"
    and "list_all (\<lambda>l. take_bit 20 l = l) ls"
  shows "handleNetlink f links (put_kmsg (route_msg del (v4route dst len table gw 0 ls))) =
    (let (vrf, res) = Name links (f_vrf f) table in
     Some (f\<lparr>f_vrf := res\<rparr>, route_effects (f_w f) vrf ''ipv4-unicast'' (cidr dst (unat len))
       (hop_text False gw) ls del))"
proof -
  have "well_formed (route_msg del (v4route dst len table gw 0 ls))"
    using ok_route_msg [of dst gw ls del len table 0] assms by (simp add: ok_kmsg_def)
  then show ?thesis
    using assms(1, 2) unfolding route_msg_def
    by (simp only: handle_put_route) (auto simp: v4route_def afi_def route_table_def route_prefix_def
        route_meaning_def discards_def Let_def split: prod.splits)
qed

lemma demo_object_ok: "ok_kmsg (nexthop_msg demo_object)"
  by (rule ok_nexthop_msg [where ls = "[18]"]) (simp_all add: demo_object_def take_bit_word_eq_self)

lemma demo_session_ok: "\<forall>m \<in> set demo_session. ok_kmsg m"
  using demo_object_ok by (simp add: demo_session_def demo_route_def ok_route_msg)

text \<open>
  A longer one: the same object and route, a group of two objects, an IPv6 route of type
  unreachable with a priority, a preference and its attributes in another order, and a message
  of another type.
\<close>

definition demo_v6route :: kroute where
  "demo_v6route =
     \<lparr>r_family = 10, r_len = 32, r_srclen = 0, r_tos = 0, r_tbl = 254, r_proto = 186, r_scope = 0,
      r_type = 7, r_flags = 0, r_dst = [0x20, 1, 0xd, 0xb8] @ replicate 12 0, r_gw = [], r_oif = 4,
      r_table = 0, r_nhid = 0, r_encap = NoEncap\<rparr>"

definition demo_group_object :: nhobj where
  "demo_group_object =
     \<lparr>o_id = 9, o_gw = [], o_oif = 0, o_group = [(7, 0), (8, 1)], o_bh = False, o_encap = NoEncap\<rparr>"

definition zebra_session :: "kmsg list" where
  "zebra_session = demo_session @
     [nexthop_msg demo_group_object,
      KRoute False request demo_v6route
        [(0, 6, put_le32 20), (0, 4, put_le32 4), (0x8000, 20, [0]), (0, 1, r_dst demo_v6route)],
      KOther 28 request []]"

lemma zebra_session_ok: "\<forall>m \<in> set zebra_session. ok_kmsg m"
proof -
  have "ok_kmsg (nexthop_msg demo_group_object)"
    by (simp add: ok_kmsg_def nexthop_msg_def demo_group_object_def put_nl_read ok_nhobj_def carries_def among_def
        plain_attrs_def nexthop_attrs_def opt_attr_def put_group_def ok_attr_def nexthop_types_def
        put_attrs_def put_attr_length align4_def)
  moreover have "ok_kmsg (KRoute False request demo_v6route
      [(0, 6, put_le32 20), (0, 4, put_le32 4), (0x8000, 20, [0]), (0, 1, r_dst demo_v6route)])"
    by (simp add: ok_kmsg_def demo_v6route_def put_nl_read ok_kroute_def carries_def among_def put_rtmsg_def
        route_attrs_def opt_attr_def ok_attr_def route_types_def afi_def put_attrs_def put_attr_length
        align4_def)
  moreover have "ok_kmsg (KOther 28 request [])" by (simp add: ok_kmsg_def put_nl_read)
  ultimately show ?thesis using demo_session_ok by (simp add: zebra_session_def)
qed

theorem fpm_session_fib_witness:
  "\<exists>f' es n. fpm_connect (\<lambda>_. Some []) (NewFPM (Some []) all_wired)
      (put_session zebra_session) = Some (f', es) \<and>
    (f', n, fib_of (tree_effects Map.empty es)) =
      foldl (fib_step (\<lambda>_. Some []))
        (NewFPM (Some []) all_wired, 0, fib_of Map.empty) zebra_session"
  by (rule fpm_session_fib [OF zebra_session_ok])


section \<open>Next-hop groups\<close>

text \<open>\<open>follow m k i\<close> goes \<open>k\<close> times from a pure group to its first member.\<close>

definition is_group :: "nexthop \<Rightarrow> bool" where
  "is_group nh \<longleftrightarrow> \<not> nh_blackhole nh \<and> nh_gw nh = [] \<and> nh_oif nh = 0"

fun follow :: "nh_table \<Rightarrow> nat \<Rightarrow> 32 word \<Rightarrow> 32 word option" where
  "follow m 0 i = Some i"
| "follow m (Suc k) i =
     (case m i of
        Some nh \<Rightarrow> if is_group nh \<and> nh_group nh \<noteq> [] then follow m k (hd (nh_group nh)) else None
      | None \<Rightarrow> None)"

definition nh_value :: "nexthop \<Rightarrow> resolved" where
  "nh_value nh = (if nh_blackhole nh then ([], 0, True, []) else (nh_gw nh, nh_oif nh, False, nh_labels nh))"

lemma resolveNH_follow:
  "follow m k i = Some j \<Longrightarrow> m j = Some nh \<Longrightarrow> \<not> is_group nh \<Longrightarrow>
   resolveNH m i d = (if k + d \<le> 4 then nh_value nh else ([], 0, False, []))"
proof (induction k arbitrary: i d)
  case 0
  then show ?case by (subst resolveNH.simps) (auto simp: nh_value_def is_group_def)
next
  case (Suc k)
  then obtain g where g: "m i = Some g" "is_group g" "nh_group g \<noteq> []"
    and f: "follow m k (hd (nh_group g)) = Some j"
    by (auto split: option.splits if_splits)
  have "resolveNH m (hd (nh_group g)) (d + 1) =
      (if k + (d + 1) \<le> 4 then nh_value nh else ([], 0, False, []))"
    using Suc.IH [OF f] Suc.prems by simp
  with g show ?case
    by (subst resolveNH.simps) (auto simp: is_group_def split: list.splits)
qed

text \<open>
  A next-hop group is followed through its first member: when \<open>k\<close> steps from
  pure group to pure group end at an object with a gateway, an interface or a blackhole, the
  route gets that object's next hop and labels if \<open>k\<close> is at most four, and nothing at all
  from five on.  (The comment of \<^verbatim>\<open>resolveNH\<close> speaks of one level of groups.)
\<close>

theorem nexthop_group_depth:
  assumes "follow m k i = Some j" and "m j = Some nh" and "\<not> is_group nh"
  shows "resolveNH m i 0 = (if k \<le> 4 then nh_value nh else ([], 0, False, []))"
  using resolveNH_follow [OF assms, of 0] by simp

definition demo_groups :: nh_table where
  "demo_groups =
     [1 \<mapsto> \<lparr>nh_gw = [], nh_oif = 0, nh_group = [2, 9], nh_labels = [], nh_blackhole = False\<rparr>,
      2 \<mapsto> \<lparr>nh_gw = [], nh_oif = 0, nh_group = [3], nh_labels = [], nh_blackhole = False\<rparr>,
      3 \<mapsto> \<lparr>nh_gw = [10, 0, 0, 1], nh_oif = 4, nh_group = [], nh_labels = [18], nh_blackhole = False\<rparr>]"

theorem nexthop_group_depth_witness:
  "resolveNH demo_groups 1 0 = ([10, 0, 0, 1], 4, False, [18])"
  using nexthop_group_depth [of demo_groups 2 1 3 "the (demo_groups 3)"]
  by (simp add: demo_groups_def is_group_def nh_value_def numeral_2_eq_2)

end

