(* ===== verification/BmpIngest.thy ===== *)
theory BmpIngest
  imports NetIP Effects Wire VrfResolver
begin

text \<open>
  \<^verbatim>\<open>internal/ingest/bmp.go\<close>: the collector of bgpd's BMP session.  Every slice and
  index expression is bounds-checked (\<open>None\<close> is a run-time panic).  Only the attribute walk
  of \<^verbatim>\<open>parseUpdate\<close> has an expression whose upper bound may pass the length of its
  operand, so from there up to the message slices carry their spare capacity.
\<close>

section \<open>Text forms\<close>

definition bytes_string :: "bytes \<Rightarrow> string" where
  "bytes_string b = map (\<lambda>x. char_of (unat x)) b"

fun allZero :: "bytes \<Rightarrow> bool" where
  "allZero [] = True"
| "allZero (x # b) = (if x \<noteq> 0 then False else allZero b)"

definition formatMAC :: "bytes \<Rightarrow> string" where
  "formatMAC b = (if length b < 6 then [] else mac_string (take 6 b))"

definition formatRD :: "bytes \<Rightarrow> string option" where
  "formatRD b =
     (if length b < 8 then Some []
      else do {
        t \<leftarrow> Option.bind (go_range b 0 2) be16;
        (if t = 0 then do {
           a \<leftarrow> Option.bind (go_range b 2 4) be16;
           n \<leftarrow> Option.bind (go_range b 4 8) be32;
           Some (udec a @ '':'' @ udec n)
         } else if t = 1 then do {
           a \<leftarrow> go_range b 2 6;
           n \<leftarrow> Option.bind (go_range b 6 8) be16;
           Some (ip_string a @ '':'' @ udec n)
         } else if t = 2 then do {
           a \<leftarrow> Option.bind (go_range b 2 6) be32;
           n \<leftarrow> Option.bind (go_range b 6 8) be16;
           Some (udec a @ '':'' @ udec n)
         } else Some [])
      })"

text \<open>\<^verbatim>\<open>parseRTs\<close>: extended communities of eight bytes; the route targets among them.\<close>

definition rt_of :: "bytes \<Rightarrow> string list option" where
  "rt_of c = do {
     s \<leftarrow> go_index c 1;
     (if s \<noteq> 2 then Some []
      else do {
        t \<leftarrow> go_index c 0;
        (if t = 0 then do {
           a \<leftarrow> Option.bind (go_range c 2 4) be16;
           n \<leftarrow> Option.bind (go_range c 4 8) be32;
           Some [udec a @ '':'' @ udec n]
         } else if t = 1 then do {
           a \<leftarrow> go_range c 2 6;
           n \<leftarrow> Option.bind (go_range c 6 8) be16;
           Some [ip_string a @ '':'' @ udec n]
         } else if t = 2 then do {
           a \<leftarrow> Option.bind (go_range c 2 6) be32;
           n \<leftarrow> Option.bind (go_range c 6 8) be16;
           Some [udec a @ '':'' @ udec n]
         } else Some [])
      })
   }"

function parseRTs :: "bytes \<Rightarrow> string list option" where
  "parseRTs v =
     (if length v < 8 then Some []
      else do {
        c \<leftarrow> go_range v 0 8;
        rest \<leftarrow> go_from v 8;
        r \<leftarrow> rt_of c;
        more \<leftarrow> parseRTs rest;
        Some (r @ more)
      })"
  by pat_completeness auto

termination
  by (relation "measure length") (auto simp: go_from_def split: if_splits)

declare parseRTs.simps [simp del]

section \<open>Paths\<close>

definition neighborElems :: "string \<Rightarrow> string \<Rightarrow> string \<Rightarrow> path_elem list" where
  "neighborElems vrf peer leaf =
     [el ''network-instances'', elk ''network-instance'' [(''name'', vrf)], el ''protocols'',
      elk ''protocol'' [(''identifier'', ''BGP''), (''name'', ''bgp'')], el ''bgp'',
      el ''neighbors'', elk ''neighbor'' [(''neighbor-address'', peer)], el ''state'', el leaf]"

definition vpnRouteElems :: "string \<Rightarrow> string \<Rightarrow> string \<Rightarrow> path_elem list" where
  "vpnRouteElems rd pfx leaf =
     with_leaf
       [el ''bgp-rib'', el ''afi-safis'', elk ''afi-safi'' [(''name'', ''l3vpn-ipv4-unicast'')],
        el ''routes'', elk ''route'' [(''rd'', rd), (''prefix'', pfx)]] leaf"

definition evpnRouteElems :: "string \<Rightarrow> string \<Rightarrow> string \<Rightarrow> string \<Rightarrow> path_elem list" where
  "evpnRouteElems rd rtype key leaf =
     with_leaf
       [el ''bgp-rib'', el ''afi-safis'', elk ''afi-safi'' [(''name'', ''l2vpn-evpn'')],
        el ''routes'', elk ''route'' [(''rd'', rd), (''type'', rtype), (''key'', key)]] leaf"

section \<open>Writers\<close>

definition nh_text :: "ip \<Rightarrow> string" where
  "nh_text nh = (if nh \<noteq> [] then ip_string nh else ''-'')"

definition writeEVPN ::
  "wiring \<Rightarrow> ip \<Rightarrow> string \<Rightarrow> string \<Rightarrow> string \<Rightarrow> ip \<Rightarrow> string list \<Rightarrow> bool \<Rightarrow> effect list" where
  "writeEVPN w peer kind rd key nh rts withdraw =
     emit_if w ''bmp'' (''evpn-'' @ kind @ ''-'' @ (if withdraw then ''withdraw'' else ''announce''))
       key (''rd='' @ rd @ '' peer='' @ ip_string peer) False @
     (if kind = ''prefix''
      then observe_if w key RibIn (\<not> withdraw) (''evpn-t5 rd='' @ rd @ '' peer='' @ ip_string peer)
      else []) @
     (if withdraw then [CacheUpdate ''frr'' [] [path_of (evpnRouteElems rd kind key [])]]
      else
        [CacheUpdate ''frr''
           [leafUpdate (evpnRouteElems rd kind key ''next-hop'') (nh_text nh),
            leafUpdate (evpnRouteElems rd kind key ''route-target'') (join_with '','' rts),
            leafUpdate (evpnRouteElems rd kind key ''peer'') (ip_string peer)] []])"

definition writeVPNRoute ::
  "wiring \<Rightarrow> ip \<Rightarrow> string \<Rightarrow> string \<Rightarrow> 32 word \<Rightarrow> ip \<Rightarrow> string list \<Rightarrow> bool \<Rightarrow> effect list" where
  "writeVPNRoute w peer rd pfx label nh rts withdraw =
     (let detail = ''rd='' @ rd @ '' peer='' @ ip_string peer in
      observe_if w pfx RibIn (\<not> withdraw) detail @
      (if withdraw then
         CacheUpdate ''frr'' [] [path_of (vpnRouteElems rd pfx [])] #
         emit_if w ''bmp'' ''vpn-withdraw'' pfx detail False
       else
         emit_if w ''bmp'' ''vpn-announce'' pfx detail False @
         [CacheUpdate ''frr''
            [leafUpdate (vpnRouteElems rd pfx ''label'') (udec label),
             leafUpdate (vpnRouteElems rd pfx ''next-hop'') (nh_text nh),
             leafUpdate (vpnRouteElems rd pfx ''route-target'') (join_with '','' rts),
             leafUpdate (vpnRouteElems rd pfx ''peer'') (ip_string peer)] []]))"

section \<open>NLRI\<close>

text \<open>
  The label loop of \<^verbatim>\<open>parseVPNNLRI\<close>: \<open>data\<close> is what is left from index \<open>i\<close>
  on; the result is the last label read and the index after it.
\<close>

fun vpn_labels :: "bytes \<Rightarrow> 32 word \<Rightarrow> nat \<Rightarrow> 32 word \<times> nat" where
  "vpn_labels (a # b # c # data) label i =
     (let label' = drop_bit 4 (push_bit 16 (ucast a) OR push_bit 8 (ucast b) OR ucast c);
          bos = c AND 1 in
      if bos = 1 then (label', i + 3) else vpn_labels data label' (i + 3))"
| "vpn_labels data label i = (label, i)"

text \<open>
  Route distinguisher, prefix, label and the bytes consumed, zero of them for a malformed
  NLRI.  The subtraction is that of \<open>nat\<close>: the code sets a negative difference to 0.
\<close>

definition parseVPNNLRI :: "bytes \<Rightarrow> (string \<times> string \<times> 32 word \<times> nat) option" where
  "parseVPNNLRI p =
     (if length p < 1 then Some ([], [], 0, 0)
      else do {
        b0 \<leftarrow> go_index p 0;
        (let bits = unat b0; total = (bits + 7) div 8 in
         if length p < 1 + total then Some ([], [], 0, 0)
         else do {
           data \<leftarrow> go_range p 1 (1 + total);
           (let (label, i) = vpn_labels data 0 0 in
            if length data < i + 8 then Some ([], [], 0, 0)
            else do {
              r \<leftarrow> go_range data i (i + 8);
              rd \<leftarrow> formatRD r;
              rest \<leftarrow> go_from data (i + 8);
              Some (rd, cidr (copy_into 4 rest) (bits - (i + 8) * 8), label, 1 + total)
            })
         })
      })"

text \<open>The two NLRI loops of \<^verbatim>\<open>handleMP\<close>: the routes they hand on, in order.\<close>

function vpn_nlris :: "bytes \<Rightarrow> (string \<times> string \<times> 32 word) list option" where
  "vpn_nlris p =
     (if length p = 0 then Some []
      else Option.bind (parseVPNNLRI p) (\<lambda>(rd, pfx, label, n).
        if n = 0 then Some []
        else do {
          rest \<leftarrow> go_from p n;
          more \<leftarrow> vpn_nlris rest;
          Some ((rd, pfx, label) # more)
        }))"
  by pat_completeness auto

termination
  by (relation "measure length") (auto simp: go_from_def split: if_splits)

declare vpn_nlris.simps [simp del]

function evpn_nlris :: "bytes \<Rightarrow> (byte \<times> bytes) list option" where
  "evpn_nlris p =
     (if length p < 2 then Some []
      else do {
        rtype \<leftarrow> go_index p 0;
        l8 \<leftarrow> go_index p 1;
        (let l = unat l8 in
         if l = 0 \<or> length p < 2 + l then Some []
         else do {
           v \<leftarrow> go_range p 2 (2 + l);
           rest \<leftarrow> go_from p (2 + l);
           more \<leftarrow> evpn_nlris rest;
           Some ((rtype, v) # more)
         })
      })"
  by pat_completeness auto

termination
  by (relation "measure length") (auto simp: go_from_def split: if_splits)

declare evpn_nlris.simps [simp del]

section \<open>EVPN\<close>

text \<open>
  MAC/IP advertisements (2), inclusive-multicast (3) and IP-prefix (5) routes; the key under
  which the route is written is the MAC with its IP, the originator, or the prefix.
\<close>

definition handleEVPN ::
  "wiring \<Rightarrow> ip \<Rightarrow> byte \<Rightarrow> bytes \<Rightarrow> ip \<Rightarrow> string list \<Rightarrow> bool \<Rightarrow> effect list option" where
  "handleEVPN w peer rtype v nh rts withdraw =
     (if rtype = 2 then
        (if length v < 30 then Some []
         else do {
           r \<leftarrow> go_range v 0 8;
           rd \<leftarrow> formatRD r;
           m \<leftarrow> go_range v 23 29;
           l \<leftarrow> go_index v 29;
           (let mac = formatMAC m; ipl = unat l div 8 in do {
              key \<leftarrow> (if 0 < ipl \<and> 30 + ipl \<le> length v
                      then map_option (\<lambda>a. mac @ ''/'' @ ip_string a) (go_range v 30 (30 + ipl))
                      else Some mac);
              Some (writeEVPN w peer ''mac'' rd key nh rts withdraw)
            })
         })
      else if rtype = 3 then
        (if length v < 13 then Some []
         else do {
           r \<leftarrow> go_range v 0 8;
           rd \<leftarrow> formatRD r;
           l \<leftarrow> go_index v 12;
           (let ipl = unat l div 8 in do {
              key \<leftarrow> (if 0 < ipl \<and> 13 + ipl \<le> length v
                      then map_option ip_string (go_range v 13 (13 + ipl)) else Some []);
              Some (writeEVPN w peer ''imet'' rd key nh rts withdraw)
            })
         })
      else if rtype = 5 then
        (if length v < 23 then Some []
         else do {
           r \<leftarrow> go_range v 0 8;
           rd \<leftarrow> formatRD r;
           pl \<leftarrow> go_index v 22;
           rest \<leftarrow> go_from v 23;
           (let plen = unat pl;
                ipLen = (if 35 \<le> length rest \<or> 32 < plen then 16 else 4 :: nat) in
            if length rest < ipLen then Some []
            else do {
              a \<leftarrow> go_range rest 0 ipLen;
              Some (writeEVPN w peer ''prefix'' rd (cidr a plen) nh rts withdraw)
            })
         })
      else Some [])"

section \<open>Updates\<close>

definition mpNextHop :: "bytes \<Rightarrow> bool \<Rightarrow> ip option" where
  "mpNextHop nhb isVPN =
     (if isVPN then (if 12 \<le> length nhb then go_range nhb 8 12 else Some [])
      else if length nhb = 4 \<or> length nhb = 16 then Some nhb
      else if length nhb = 12 \<or> length nhb = 24 then go_range nhb 8 12
      else Some [])"

text \<open>
  The next hop field of an MP_REACH attribute and what follows it: the inner \<open>None\<close> is the
  early return on a truncated one.
\<close>

definition mp_nexthop :: "bytes \<Rightarrow> bool \<Rightarrow> (ip \<times> bytes) option option" where
  "mp_nexthop p isVPN =
     (if length p < 1 then Some None
      else do {
        l \<leftarrow> go_index p 0;
        p \<leftarrow> go_from p 1;
        (let nhLen = unat l in
         if length p < nhLen then Some None
         else do {
           nhb \<leftarrow> go_range p 0 nhLen;
           nh \<leftarrow> mpNextHop nhb isVPN;
           p \<leftarrow> go_from p nhLen;
           (if length p < 1 then Some None
            else map_option (\<lambda>p. Some (nh, p)) (go_from p 1))
         })
      })"

definition handleMP ::
  "wiring \<Rightarrow> ip \<Rightarrow> bytes \<Rightarrow> string list \<Rightarrow> bool \<Rightarrow> effect list option" where
  "handleMP w peer v rts withdraw =
     (if length v < 3 then Some []
      else do {
        afi \<leftarrow> Option.bind (go_range v 0 2) be16;
        safi \<leftarrow> go_index v 2;
        (let isVPN = (afi = 1 \<and> safi = 128); isEVPN = (afi = 25 \<and> safi = 70) in
         if \<not> isVPN \<and> \<not> isEVPN then Some []
         else do {
           p \<leftarrow> go_from v 3;
           start \<leftarrow> (if withdraw then Some (Some ([], p)) else mp_nexthop p isVPN);
           (case start of
              None \<Rightarrow> Some []
            | Some (nh, p) \<Rightarrow>
                if isVPN then
                  map_option
                    (\<lambda>rs. concat (map (\<lambda>(rd, pfx, label).
                        writeVPNRoute w peer rd pfx label nh rts withdraw) rs))
                    (vpn_nlris p)
                else do {
                  rs \<leftarrow> evpn_nlris p;
                  foldM (\<lambda>es (rtype, x).
                      map_option (\<lambda>es'. es @ es') (handleEVPN w peer rtype x nh rts withdraw)) [] rs
                })
         })
      })"

text \<open>
  The attribute walk: the attributes whose type and value the switch sees.  With the extended
  length flag and exactly three bytes left, \<^verbatim>\<open>attrs[2:4]\<close> reaches one byte past the
  length, into the NLRI that follows the attributes in the message if there is any.
\<close>

function bgp_attrs :: "slice \<Rightarrow> (byte \<times> bytes) list option" where
  "bgp_attrs attrs =
     (if sl_len attrs < 3 then Some []
      else do {
        flags \<leftarrow> sl_index attrs 0;
        atype \<leftarrow> sl_index attrs 1;
        (alen, hdr) \<leftarrow> (if flags AND 0x10 \<noteq> 0
          then do {
            x \<leftarrow> sl_range attrs 2 4;
            l \<leftarrow> be16 (vis x);
            Some (unat l, 4 :: nat)
          }
          else map_option (\<lambda>l. (unat l, 3)) (sl_index attrs 2));
        (if sl_len attrs < hdr + alen then Some []
         else do {
           val \<leftarrow> sl_range attrs hdr (hdr + alen);
           rest \<leftarrow> sl_from attrs (hdr + alen);
           more \<leftarrow> bgp_attrs rest;
           Some ((atype, vis val) # more)
         })
      })"
  by pat_completeness auto

termination
  by (relation "measure sl_len")
    (auto simp: sl_from_def sl_len_def Option.bind_eq_Some_conv split: if_splits)

declare bgp_attrs.simps [simp del]

text \<open>The variables the switch assigns: later attributes of a type replace earlier ones.\<close>

record upd_vars =
  uv_reach :: "bytes option"
  uv_unreach :: "bytes option"
  uv_rts :: "string list"

definition upd_attr :: "upd_vars \<Rightarrow> byte \<times> bytes \<Rightarrow> upd_vars option" where
  "upd_attr v a =
     (let (t, val) = a in
      if t = 14 then Some (v\<lparr>uv_reach := Some val\<rparr>)
      else if t = 15 then Some (v\<lparr>uv_unreach := Some val\<rparr>)
      else if t = 16 then map_option (\<lambda>rts. v\<lparr>uv_rts := rts\<rparr>) (parseRTs val)
      else Some v)"

definition upd_effects :: "wiring \<Rightarrow> ip \<Rightarrow> upd_vars \<Rightarrow> effect list option" where
  "upd_effects w peer v = do {
     reach \<leftarrow> (case uv_reach v of None \<Rightarrow> Some [] | Some x \<Rightarrow> handleMP w peer x (uv_rts v) False);
     unreach \<leftarrow> (case uv_unreach v of None \<Rightarrow> Some [] | Some x \<Rightarrow> handleMP w peer x [] True);
     Some (reach @ unreach)
   }"

definition parseUpdate :: "wiring \<Rightarrow> ip \<Rightarrow> slice \<Rightarrow> effect list option" where
  "parseUpdate w peer m =
     (if sl_len m < 19 then Some []
      else do {
        ty \<leftarrow> sl_index m 18;
        (if ty \<noteq> 2 then Some []
         else do {
           p \<leftarrow> sl_from m 19;
           (if sl_len p < 2 then Some []
            else do {
              x \<leftarrow> sl_range p 0 2;
              wl \<leftarrow> be16 (vis x);
              p \<leftarrow> sl_from p 2;
              (let wLen = unat wl in
               if sl_len p < wLen + 2 then Some []
               else do {
                 p \<leftarrow> sl_from p wLen;
                 x \<leftarrow> sl_range p 0 2;
                 pal \<leftarrow> be16 (vis x);
                 p \<leftarrow> sl_from p 2;
                 (let paLen = unat pal in
                  if sl_len p < paLen then Some []
                  else do {
                    attrs \<leftarrow> sl_range p 0 paLen;
                    as \<leftarrow> bgp_attrs attrs;
                    v \<leftarrow> foldM upd_attr \<lparr>uv_reach = None, uv_unreach = None, uv_rts = []\<rparr> as;
                    upd_effects w peer v
                  })
               })
            })
         })
      })"

section \<open>Messages\<close>

text \<open>
  \<^verbatim>\<open>perPeer\<close>: address, AS, peer type and distinguisher; the inner \<open>None\<close> is
  \<^verbatim>\<open>ok == false\<close>.
\<close>

definition perPeer :: "bytes \<Rightarrow> (ip \<times> 32 word \<times> byte \<times> string) option option" where
  "perPeer body =
     (if length body < 42 then Some None
      else do {
        ptype \<leftarrow> go_index body 0;
        flags \<leftarrow> go_index body 1;
        d \<leftarrow> go_range body 2 10;
        rd \<leftarrow> (if \<not> allZero d then formatRD d else Some []);
        peer \<leftarrow> (if flags AND 0x80 \<noteq> 0 then go_range body 10 26 else go_range body 22 26);
        peerAS \<leftarrow> Option.bind (go_range body 26 30) be32;
        Some (Some (peer, peerAS, ptype, rd))
      })"

text \<open>Skipping one OPEN message; the inner \<open>None\<close> is the early return.\<close>

definition skip_open :: "bytes \<Rightarrow> bytes option option" where
  "skip_open p =
     (if length p < 19 then Some None
      else do {
        l \<leftarrow> Option.bind (go_range p 16 18) be16;
        (if unat l < 19 \<or> length p < unat l then Some None
         else map_option Some (go_from p (unat l)))
      })"

text \<open>The walk over the information TLVs, to the value of the first one of type 3.\<close>

function info_vrf :: "bytes \<Rightarrow> string option" where
  "info_vrf p =
     (if length p < 4 then Some []
      else do {
        t \<leftarrow> Option.bind (go_range p 0 2) be16;
        l16 \<leftarrow> Option.bind (go_range p 2 4) be16;
        (let l = unat l16 in
         if length p < 4 + l then Some []
         else if t = 3 then map_option bytes_string (go_range p 4 (4 + l))
         else do {
           rest \<leftarrow> go_from p (4 + l);
           info_vrf rest
         })
      })"
  by pat_completeness auto

termination
  by (relation "measure length") (auto simp: go_from_def split: if_splits)

declare info_vrf.simps [simp del]

definition peerUpVRF :: "bytes \<Rightarrow> string option" where
  "peerUpVRF body =
     (if length body < 42 then Some []
      else do {
        p \<leftarrow> go_from body 42;
        (if length p < 20 then Some []
         else do {
           p \<leftarrow> go_from p 20;
           s1 \<leftarrow> skip_open p;
           (case s1 of
              None \<Rightarrow> Some []
            | Some p1 \<Rightarrow> do {
                s2 \<leftarrow> skip_open p1;
                (case s2 of None \<Rightarrow> Some [] | Some p2 \<Rightarrow> info_vrf p2)
              })
         })
      })"

record bmp =
  b_vrf :: vrf_resolver
  b_rdVRF :: "string \<Rightarrow> string option"
  b_w :: wiring

definition NewBMP :: "link_list \<Rightarrow> wiring \<Rightarrow> bmp" where
  "NewBMP links w = \<lparr>b_vrf = NewVRFResolver links, b_rdVRF = Map.empty, b_w = w\<rparr>"

text \<open>
  The network instance of a peer with distinguisher \<open>rd\<close>; \<open>tlv\<close> is the name a Peer Up
  message carries (empty when there is none, or on a Peer Down).  \<open>links\<close> and \<open>order\<close>
  are what the kernel answers now and the iteration order of the resolver's map then.
\<close>

type_synonym vrf_env = "link_list \<times> (32 word \<times> string) list"

definition peer_vrf :: "bmp \<Rightarrow> vrf_env \<Rightarrow> string \<Rightarrow> string \<Rightarrow> string \<times> bmp" where
  "peer_vrf b env rd tlv =
     (if rd = [] then (''default'', b)
      else case b_rdVRF b rd of
        Some name \<Rightarrow> (name, b)
      | None \<Rightarrow>
          let (name, b1) =
                (if tlv = [] then
                   let (names, r) = NonDefaultNames (fst env) (b_vrf b) (snd env) in
                   (case names of [n] \<Rightarrow> n | _ \<Rightarrow> [], b\<lparr>b_vrf := r\<rparr>)
                 else (tlv, b)) in
          if name \<noteq> [] then (name, b1\<lparr>b_rdVRF := (b_rdVRF b1)(rd \<mapsto> name)\<rparr>) else (rd, b1))"

definition peerState :: "bmp \<Rightarrow> vrf_env \<Rightarrow> bytes \<Rightarrow> bool \<Rightarrow> (bmp \<times> effect list) option" where
  "peerState b env body up = do {
     pp \<leftarrow> perPeer body;
     (case pp of
        None \<Rightarrow> Some (b, [])
      | Some (peer, peerAS, ptype, rd) \<Rightarrow>
          if is_unspecified peer then Some (b, [])
          else do {
            tlv \<leftarrow> (if rd \<noteq> [] \<and> b_rdVRF b rd = None \<and> up then peerUpVRF body else Some []);
            (let (vrf, b') = peer_vrf b env rd tlv;
                 st = (if up then ''ESTABLISHED'' else ''IDLE'') in
             Some (b', [CacheUpdate ''openconfig''
               (leafUpdate (neighborElems vrf (ip_string peer) ''session-state'') st #
                (if up \<and> peerAS \<noteq> 0
                 then [leafUpdate (neighborElems vrf (ip_string peer) ''peer-as'') (udec peerAS)]
                 else [])) []]))
          })
   }"

definition routeMon :: "wiring \<Rightarrow> bytes \<Rightarrow> effect list option" where
  "routeMon w body = do {
     pp \<leftarrow> perPeer body;
     (case pp of
        None \<Rightarrow> Some []
      | Some (peer, _, _, _) \<Rightarrow> do {
          m \<leftarrow> sl_from (slice_of body) 42;
          parseUpdate w peer m
        })
   }"

section \<open>The connection\<close>

type_synonym bmp_conn = "bmp \<times> nat \<times> effect list"

definition bmp_frame :: "(nat \<Rightarrow> vrf_env) \<Rightarrow> bmp_conn \<Rightarrow> byte \<Rightarrow> bytes \<Rightarrow> bmp_conn option" where
  "bmp_frame env s ty body =
     (let (b, n, out) = s in
      if ty = 3 then
        map_option (\<lambda>(b', es). (b', n + 1, out @ es)) (peerState b (env n) body True)
      else if ty = 2 then
        map_option (\<lambda>(b', es). (b', n + 1, out @ es)) (peerState b (env n) body False)
      else if ty = 0 then map_option (\<lambda>es. (b, n + 1, out @ es)) (routeMon (b_w b) body)
      else Some (b, n + 1, out))"

function bmp_handle :: "(nat \<Rightarrow> vrf_env) \<Rightarrow> bmp_conn \<Rightarrow> bytes \<Rightarrow> bmp_conn option" where
  "bmp_handle env s str =
     (if length str < 6 then Some s
      else do {
        ver \<leftarrow> go_index str 0;
        (if ver \<noteq> 3 then Some s
         else do {
           l \<leftarrow> Option.bind (go_range str 1 5) be32;
           ty \<leftarrow> go_index str 5;
           (let msgLen = unat l in
            if msgLen < 6 then Some s
            else if length str < msgLen then Some s
            else do {
              body \<leftarrow> go_range str 6 msgLen;
              s' \<leftarrow> bmp_frame env s ty body;
              bmp_handle env s' (drop msgLen str)
            })
         })
      })"
  by pat_completeness auto

termination
  by (relation "measure (\<lambda>(env, s, str). length str)") auto

declare bmp_handle.simps [simp del]

definition bmp_connect :: "(nat \<Rightarrow> vrf_env) \<Rightarrow> bmp \<Rightarrow> bytes \<Rightarrow> (bmp \<times> effect list) option" where
  "bmp_connect env b str =
     map_option (\<lambda>(b', n, out). (b', out))
       (bmp_handle env (b, 0, if w_hook (b_w b) then [KickOSPF ''bmp-reconnect''] else []) str)"

end
