(* ===== verification/Reconcile.thy ===== *)
theory Reconcile
  imports Effects Simulation
begin

text \<open>
  The reconcile loop that the LLDP and OSPF ingesters share: each round reads the current
  neighbours, writes their leaves, deletes the neighbours of the previous round whose key is
  gone, and remembers the keys with the sub-identifier that is part of the neighbour's path
  (chassis of an interface, interface of a router).  The contract is stated on the leaves of
  the neighbours; what it guarantees over any number of rounds, and what it does not, is
  proved here once.
\<close>

text \<open>Nothing in the tree but leaves of remembered neighbours.\<close>

definition synced ::
  "('k \<Rightarrow> 'u \<Rightarrow> string \<Rightarrow> path_elem list) \<Rightarrow> string set \<Rightarrow> ('k \<Rightarrow> 'u option) \<Rightarrow> tree \<Rightarrow> bool" where
  "synced node names seen t \<longleftrightarrow>
     (\<forall>k u l. t (''openconfig'', node k u l) \<noteq> None \<longrightarrow> seen k = Some u \<and> l \<in> names)"

text \<open>No key has changed its sub-identifier.\<close>

definition stable_ids :: "('k \<Rightarrow> 'u option) \<Rightarrow> ('k \<Rightarrow> 'u option) option \<Rightarrow> bool" where
  "stable_ids seen cur \<longleftrightarrow>
     (case cur of None \<Rightarrow> True | Some c \<Rightarrow> \<forall>k u v. seen k = Some u \<longrightarrow> c k = Some v \<longrightarrow> u = v)"

definition round_step ::
  "('s \<Rightarrow> 'x \<Rightarrow> 's \<times> effect list) \<Rightarrow> 's \<times> tree \<Rightarrow> 'x \<Rightarrow> 's \<times> tree" where
  "round_step step st x = (let (s', es) = step (fst st) x in (s', tree_effects (snd st) es))"

lemma round_step_simps [simp]:
  "fst (round_step step st x) = fst (step (fst st) x)"
  "snd (round_step step st x) = tree_effects (snd st) (snd (step (fst st) x))"
  by (simp_all add: round_step_def split_beta)

locale reconciler =
  fixes step :: "'s \<Rightarrow> 'x \<Rightarrow> 's \<times> effect list"
    and seen :: "'s \<Rightarrow> 'k \<Rightarrow> 'u option"
    and cur :: "'x \<Rightarrow> ('k \<Rightarrow> 'u option) option"
    and leaves :: "'x \<Rightarrow> 'k \<Rightarrow> string \<Rightarrow> typed_value option"
    and node :: "'k \<Rightarrow> 'u \<Rightarrow> string \<Rightarrow> path_elem list"
    and names :: "string set"
    and ok :: "'s \<Rightarrow> 'x \<Rightarrow> bool"
  assumes seen_step:
      "ok s x \<Longrightarrow> seen (fst (step s x)) = (case cur x of None \<Rightarrow> seen s | Some c \<Rightarrow> c)"
    and tree_step:
      "ok s x \<Longrightarrow> tree_effects t (snd (step s x)) (''openconfig'', node k u l) =
        (case cur x of
           None \<Rightarrow> t (''openconfig'', node k u l)
         | Some c \<Rightarrow>
             if c k = Some u \<and> l \<in> names then leaves x k l
             else if c k = None \<and> seen s k = Some u then None
             else t (''openconfig'', node k u l))"
    and leaves_names: "l \<notin> names \<Longrightarrow> leaves x k l = None"
begin

lemma step_exact:
  assumes "synced node names (seen s) t" and "ok s x" and "stable_ids (seen s) (cur x)" and "cur x = Some c"
  shows "tree_effects t (snd (step s x)) (''openconfig'', node k u l) =
    (if c k = Some u then leaves x k l else None)"
proof -
  have gone: "t (''openconfig'', node k u l) = None" if "seen s k \<noteq> Some u \<or> l \<notin> names"
    using assms(1) that unfolding synced_def by blast
  show ?thesis
  proof (cases "c k")
    case None
    with assms gone show ?thesis by (simp add: tree_step)
  next
    case (Some v)
    show ?thesis
    proof (cases "v = u")
      case True
      with Some assms gone show ?thesis by (simp add: tree_step leaves_names)
    next
      case False
      with Some assms(3, 4) have "seen s k \<noteq> Some u" by (auto simp: stable_ids_def)
      with Some False assms gone show ?thesis by (simp add: tree_step)
    qed
  qed
qed

lemma synced_step:
  assumes "synced node names (seen s) t" and "ok s x" and "stable_ids (seen s) (cur x)"
  shows "synced node names (seen (fst (step s x))) (tree_effects t (snd (step s x)))"
proof (cases "cur x")
  case None
  with assms show ?thesis by (simp add: synced_def seen_step tree_step)
next
  case (Some c)
  with assms step_exact [OF assms Some] leaves_names show ?thesis
    by (fastforce simp: synced_def seen_step split: if_splits)
qed

end

sublocale reconciler \<subseteq> rounds: invariant_system "round_step step"
  "\<lambda>st x. ok (fst st) x \<and> stable_ids (seen (fst st)) (cur x)"
  "\<lambda>st. synced node names (seen (fst st)) (snd st)"
  by unfold_locales (simp add: synced_step)

context reconciler
begin

text \<open>
  After any number of rounds in which no key changes its sub-identifier, the neighbours in the
  tree are those of the last successful reading.
\<close>

lemma rounds_exact:
  assumes "synced node names (seen s) t"
    and "admissible (round_step step) (\<lambda>st x. ok (fst st) x \<and> stable_ids (seen (fst st)) (cur x)) (s, t) (xs @ [x])"
    and "cur x = Some c"
  shows "snd (foldl (round_step step) (s, t) (xs @ [x])) (''openconfig'', node k u l) =
    (if c k = Some u then leaves x k l else None)"
proof -
  let ?st = "foldl (round_step step) (s, t) xs"
  have "synced node names (seen (fst ?st)) (snd ?st)"
    using rounds.inv_run [of "(s, t)" xs] assms(1, 2) by simp
  with assms(2, 3) show ?thesis using step_exact by simp
qed

text \<open>Over any rounds: the last reading that did not fail, whenever it was.\<close>

lemma rounds_last:
  assumes "synced node names (seen s) t"
    and "admissible (round_step step) (\<lambda>st x. ok (fst st) x \<and> stable_ids (seen (fst st)) (cur x)) (s, t) xs"
  shows "snd (foldl (round_step step) (s, t) xs) (''openconfig'', node k u l) =
    (case rev (filter (\<lambda>x. cur x \<noteq> None) xs) of
       [] \<Rightarrow> t (''openconfig'', node k u l)
     | x # _ \<Rightarrow> if the (cur x) k = Some u then leaves x k l else None)"
  using assms(2)
proof (induction xs rule: rev_induct)
  case (snoc x xs)
  show ?case
  proof (cases "cur x")
    case None
    with snoc show ?thesis by (simp add: tree_step)
  next
    case (Some c)
    with rounds_exact [OF assms(1) snoc.prems Some] show ?thesis by (simp del: foldl_append)
  qed
qed simp

text \<open>
  A neighbour that is not remembered under its sub-identifier and is not read with it again
  stays in the tree for good.
\<close>

lemma stranded:
  assumes "seen s k \<noteq> Some u" and "admissible (round_step step) (\<lambda>st x. ok (fst st) x) (s, t) xs"
    and "\<forall>x \<in> set xs. \<forall>c. cur x = Some c \<longrightarrow> c k \<noteq> Some u"
  shows "snd (foldl (round_step step) (s, t) xs) (''openconfig'', node k u l) = t (''openconfig'', node k u l)"
  using assms
proof (induction xs arbitrary: s t)
  case (Cons x xs)
  have same: "tree_effects t (snd (step s x)) (''openconfig'', node k u l) = t (''openconfig'', node k u l)"
    using Cons.prems by (auto simp: tree_step split: option.splits)
  have "seen (fst (step s x)) k \<noteq> Some u"
    using Cons.prems by (auto simp: seen_step split: option.splits)
  with Cons same show ?case by (simp add: round_step_def split_beta)
qed simp

text \<open>A key that comes back under another sub-identifier strands its old neighbour.\<close>

lemma moved_strands:
  assumes "seen s k = Some u" and "cur x = Some c" and "c k = Some v" and "v \<noteq> u"
    and "admissible (round_step step) (\<lambda>st x. ok (fst st) x) (s, t) (x # xs)"
    and "\<forall>y \<in> set xs. \<forall>c. cur y = Some c \<longrightarrow> c k \<noteq> Some u"
  shows "snd (foldl (round_step step) (s, t) (x # xs)) (''openconfig'', node k u l) =
    t (''openconfig'', node k u l)"
proof -
  have "seen (fst (step s x)) k \<noteq> Some u" using assms by (simp add: seen_step)
  moreover have "tree_effects t (snd (step s x)) (''openconfig'', node k u l) = t (''openconfig'', node k u l)"
    using assms by (simp add: tree_step)
  ultimately show ?thesis
    using stranded [of "fst (step s x)" k u "tree_effects t (snd (step s x))" xs l] assms(5, 6)
    by (simp add: round_step_def split_beta)
qed

end

end
