(* ===== verification/LldpIngest.thy ===== *)
theory LldpIngest
  imports Reconcile
begin

text \<open>
  \<^verbatim>\<open>internal/ingest/lldp.go\<close>: the parser of \<^verbatim>\<open>lldpcli -f json show neighbors\<close>
  over the decoded JSON value (the type \<^verbatim>\<open>any\<close> that \<^verbatim>\<open>encoding/json\<close> returns) and
  the reconcile loop; the interleaving of the two goroutines that run it.
\<close>

section \<open>JSON values\<close>

text \<open>An object is the list of its entries, keys distinct, in the order its map is iterated.\<close>

datatype json =
    JNull
  | JBool bool
  | JNum string
  | JStr string
  | JArr "json list"
  | JObj "(string \<times> json) list"

type_synonym obj = "(string \<times> json) list"

text \<open>\<^verbatim>\<open>m[k]\<close> on a possibly nil map; \<open>[]\<close> is also the nil map where only reads follow.\<close>

definition fld :: "obj \<Rightarrow> string \<Rightarrow> json" where
  "fld m k = (case map_of m k of None \<Rightarrow> JNull | Some v \<Rightarrow> v)"

definition asMap :: "json \<Rightarrow> obj option" where
  "asMap v = (case v of JObj m \<Rightarrow> Some m | _ \<Rightarrow> None)"

definition map_or_nil :: "json \<Rightarrow> obj" where
  "map_or_nil v = (case asMap v of None \<Rightarrow> [] | Some m \<Rightarrow> m)"

definition firstObj :: "json \<Rightarrow> obj option" where
  "firstObj v =
     (case v of
        JObj m \<Rightarrow> Some m
      | JArr (x # _) \<Rightarrow> asMap x
      | _ \<Rightarrow> None)"

fun asStr :: "json \<Rightarrow> string" where
  "asStr (JStr s) = s"
| "asStr (JArr (x # xs)) = asStr x"
| "asStr _ = []"

section \<open>Neighbours\<close>

record lldp_nbr =
  nb_ifname :: string
  nb_chassisID :: string
  nb_portID :: string
  nb_sysName :: string
  nb_sysDescr :: string
  nb_mgmtIP :: string

definition fillChassis :: "lldp_nbr \<Rightarrow> obj \<Rightarrow> lldp_nbr" where
  "fillChassis nb ch =
     (let nb = (case asMap (fld ch ''id'') of
                  None \<Rightarrow> nb
                | Some i \<Rightarrow> nb\<lparr>nb_chassisID := asStr (fld i ''value'')\<rparr>) in
      nb\<lparr>nb_sysDescr := asStr (fld ch ''descr''), nb_mgmtIP := asStr (fld ch ''mgmt-ip'')\<rparr>)"

definition chassis_of :: "lldp_nbr \<Rightarrow> obj \<Rightarrow> lldp_nbr" where
  "chassis_of nb ifm =
     (case asMap (fld ifm ''chassis'') of
        None \<Rightarrow> nb
      | Some ch \<Rightarrow>
          if map_of ch ''id'' \<noteq> None
          then fillChassis (nb\<lparr>nb_sysName := asStr (fld ch ''name'')\<rparr>) ch
          else (case ch of
                  [] \<Rightarrow> nb
                | (name, cv) # _ \<Rightarrow> fillChassis (nb\<lparr>nb_sysName := name\<rparr>) (map_or_nil cv)))"

definition port_of :: "lldp_nbr \<Rightarrow> obj \<Rightarrow> lldp_nbr" where
  "port_of nb ifm =
     (case asMap (fld ifm ''port'') of
        None \<Rightarrow> nb
      | Some port \<Rightarrow>
          let nb = (case asMap (fld port ''id'') of
                      None \<Rightarrow> nb
                    | Some i \<Rightarrow> nb\<lparr>nb_portID := asStr (fld i ''value'')\<rparr>) in
          if nb_portID nb = [] then nb\<lparr>nb_portID := asStr (fld port ''descr'')\<rparr> else nb)"

definition parseIface :: "string \<Rightarrow> obj \<Rightarrow> lldp_nbr" where
  "parseIface ifname ifm =
     (let nb = \<lparr>nb_ifname = ifname, nb_chassisID = [], nb_portID = [], nb_sysName = [],
                nb_sysDescr = [], nb_mgmtIP = []\<rparr>;
          nb = port_of (chassis_of nb ifm) ifm in
      if nb_chassisID nb = [] then nb\<lparr>nb_chassisID := nb_sysName nb\<rparr> else nb)"

type_synonym lldp_table = "string \<Rightarrow> lldp_nbr option"

definition add_ifaces :: "obj \<Rightarrow> lldp_table \<Rightarrow> lldp_table" where
  "add_ifaces m res = foldl (\<lambda>r (name, v). r(name \<mapsto> parseIface name (map_or_nil v))) res m"

definition add_elem :: "lldp_table \<Rightarrow> json \<Rightarrow> lldp_table" where
  "add_elem res e =
     (let m = map_or_nil e; name = asStr (fld m ''name'') in
      if name \<noteq> [] then res(name \<mapsto> parseIface name m) else add_ifaces m res)"

text \<open>
  The argument is the result of \<^verbatim>\<open>json.Unmarshal\<close>: \<open>None\<close> on a syntax error.  A
  top-level value that is neither an object nor null does not fit \<^verbatim>\<open>map[string]any\<close> and
  is an error too.
\<close>

definition parseLLDP :: "json option \<Rightarrow> lldp_table" where
  "parseLLDP data =
     (let root = (case data of Some (JObj m) \<Rightarrow> Some m | Some JNull \<Rightarrow> Some [] | _ \<Rightarrow> None) in
      case root of
        None \<Rightarrow> Map.empty
      | Some root \<Rightarrow>
          (case firstObj (fld root ''lldp'') of
             None \<Rightarrow> Map.empty
           | Some lldp \<Rightarrow>
               (case fld lldp ''interface'' of
                  JObj ifaces \<Rightarrow> add_ifaces ifaces Map.empty
                | JArr arr \<Rightarrow> foldl add_elem Map.empty arr
                | _ \<Rightarrow> Map.empty)))"

definition lldpElems :: "string \<Rightarrow> string \<Rightarrow> string \<Rightarrow> path_elem list" where
  "lldpElems ifname i leaf =
     with_leaf
       [el ''lldp'', el ''interfaces'', elk ''interface'' [(''name'', ifname)], el ''neighbors'',
        elk ''neighbor'' [(''id'', i)]] leaf"

section \<open>The reconcile loop\<close>

type_synonym lldp_seen = "string \<Rightarrow> string option"

definition lldp_ups :: "string \<Rightarrow> lldp_nbr \<Rightarrow> update list" where
  "lldp_ups ifn nb =
     [leafUpdate (lldpElems ifn (nb_chassisID nb) ''chassis-id'') (nb_chassisID nb),
      leafUpdate (lldpElems ifn (nb_chassisID nb) ''port-id'') (nb_portID nb),
      leafUpdate (lldpElems ifn (nb_chassisID nb) ''system-name'') (nb_sysName nb),
      leafUpdate (lldpElems ifn (nb_chassisID nb) ''system-description'') (nb_sysDescr nb),
      leafUpdate (lldpElems ifn (nb_chassisID nb) ''management-address'') (nb_mgmtIP nb)]"

fun lldp_write :: "(string \<times> lldp_nbr) list \<Rightarrow> lldp_seen \<Rightarrow> lldp_seen \<times> effect list" where
  "lldp_write [] seen = (seen, [])"
| "lldp_write ((ifn, nb) # xs) seen =
     (if nb_chassisID nb = [] then lldp_write xs seen
      else
        let (seen', es) = lldp_write xs (seen(ifn \<mapsto> nb_chassisID nb)) in
        (seen', CacheUpdate ''openconfig'' (lldp_ups ifn nb) [] # es))"

definition lldp_delete :: "lldp_seen \<Rightarrow> (string \<times> string) list \<Rightarrow> effect list" where
  "lldp_delete seen old =
     concat (map (\<lambda>(ifn, i). if seen ifn = None
       then [CacheUpdate ''openconfig'' [] [path_of (lldpElems ifn i [])]] else []) old)"

text \<open>
  One round.  Its input is what the command prints (\<open>None\<close>: it fails; \<open>Some None\<close>: no
  JSON) and the orders in which the two maps, the parsed neighbours and the old \<^verbatim>\<open>seen\<close>,
  are iterated.
\<close>

type_synonym lldp_input =
  "json option option \<times> (string \<times> lldp_nbr) list \<times> (string \<times> string) list"

definition lldp_reconcile :: "lldp_seen \<Rightarrow> lldp_input \<Rightarrow> lldp_seen \<times> effect list" where
  "lldp_reconcile seen0 x =
     (case x of
        (None, _, _) \<Rightarrow> (seen0, [])
      | (Some out, cur, old) \<Rightarrow>
          let (seen, es) = lldp_write cur Map.empty in (seen, es @ lldp_delete seen old))"

definition lldp_ok :: "lldp_seen \<Rightarrow> lldp_input \<Rightarrow> bool" where
  "lldp_ok seen0 x =
     (case x of
        (None, _, _) \<Rightarrow> True
      | (Some out, cur, old) \<Rightarrow> enumerates cur (parseLLDP out) \<and> enumerates old seen0)"

section \<open>The contract\<close>

definition lldp_ids :: "lldp_table \<Rightarrow> lldp_seen" where
  "lldp_ids m = (\<lambda>ifn. case m ifn of
     None \<Rightarrow> None
   | Some nb \<Rightarrow> if nb_chassisID nb = [] then None else Some (nb_chassisID nb))"

definition lldp_cur :: "lldp_input \<Rightarrow> lldp_seen option" where
  "lldp_cur x = map_option (\<lambda>out. lldp_ids (parseLLDP out)) (fst x)"

definition nbr_leaves :: "lldp_nbr \<Rightarrow> string \<Rightarrow> typed_value option" where
  "nbr_leaves nb =
     [''chassis-id'' \<mapsto> StringVal (nb_chassisID nb), ''port-id'' \<mapsto> StringVal (nb_portID nb),
      ''system-name'' \<mapsto> StringVal (nb_sysName nb),
      ''system-description'' \<mapsto> StringVal (nb_sysDescr nb),
      ''management-address'' \<mapsto> StringVal (nb_mgmtIP nb)]"

definition lldp_leaves :: "lldp_input \<Rightarrow> string \<Rightarrow> string \<Rightarrow> typed_value option" where
  "lldp_leaves x ifn =
     (case fst x of
        None \<Rightarrow> Map.empty
      | Some out \<Rightarrow> (case parseLLDP out ifn of None \<Rightarrow> Map.empty | Some nb \<Rightarrow> nbr_leaves nb))"

definition lldp_names :: "string set" where
  "lldp_names = {''chassis-id'', ''port-id'', ''system-name'', ''system-description'', ''management-address''}"

lemma nbr_leaves_dom: "nbr_leaves nb l = None \<longleftrightarrow> l \<notin> lldp_names"
  by (auto simp: nbr_leaves_def lldp_names_def)

lemma lldpElems_eq [simp]:
  "lldpElems k u l = lldpElems k' u' l' \<longleftrightarrow> k = k' \<and> u = u' \<and> l = l'"
  by (auto simp: lldpElems_def)

lemma lldpElems_below [simp]: "below (lldpElems k u []) (lldpElems k' u' l) \<longleftrightarrow> k = k' \<and> u = u'"
  by (auto simp: lldpElems_def below_def with_leaf_def)

lemma lldp_write_seen:
  "distinct (map fst xs) \<Longrightarrow>
   fst (lldp_write xs seen) k =
     (case map_of xs k of
        None \<Rightarrow> seen k
      | Some nb \<Rightarrow> if nb_chassisID nb = [] then seen k else Some (nb_chassisID nb))"
proof (induction xs seen rule: lldp_write.induct)
  case (2 ifn nb xs seen)
  have "map_of xs ifn = None" using 2 by (simp add: map_of_eq_None_iff)
  with 2 show ?case by (auto simp: split_beta Let_def simp del: map_of_eq_Some_iff split: option.splits
        simp flip: fun_upd_def)
qed simp

lemma lldp_ups_tree:
  "put_tree ''openconfig'' (lldp_ups ifn nb) [] t (''openconfig'', lldpElems k u l) =
     (if k = ifn \<and> u = nb_chassisID nb \<and> l \<in> lldp_names then nbr_leaves nb l
      else t (''openconfig'', lldpElems k u l))"
  by (auto simp: put_tree_ups lldp_ups_def nbr_leaves_def lldp_names_def)

lemma lldp_write_tree:
  "distinct (map fst xs) \<Longrightarrow>
   tree_effects t (snd (lldp_write xs seen)) (''openconfig'', lldpElems k u l) =
     (case map_of xs k of
        None \<Rightarrow> t (''openconfig'', lldpElems k u l)
      | Some nb \<Rightarrow>
          if nb_chassisID nb \<noteq> [] \<and> u = nb_chassisID nb \<and> l \<in> lldp_names then nbr_leaves nb l
          else t (''openconfig'', lldpElems k u l))"
proof (induction xs seen arbitrary: t rule: lldp_write.induct)
  case (2 ifn nb xs seen)
  have "map_of xs ifn = None" using 2 by (simp add: map_of_eq_None_iff)
  with 2 show ?case
    by (auto simp: split_beta Let_def lldp_ups_tree simp del: map_of_eq_Some_iff split: option.splits
        simp flip: fun_upd_def)
qed simp

lemma lldp_delete_simps [simp]:
  "lldp_delete seen [] = []"
  "lldp_delete seen ((ifn, i) # old) =
     (if seen ifn = None then [CacheUpdate ''openconfig'' [] [path_of (lldpElems ifn i [])]] else []) @
     lldp_delete seen old"
  by (simp_all add: lldp_delete_def)

lemma lldp_delete_tree:
  "tree_effects t (lldp_delete seen old) (''openconfig'', lldpElems k u l) =
     (if (k, u) \<in> set old \<and> seen k = None then None else t (''openconfig'', lldpElems k u l))"
  by (induction old arbitrary: t) (auto simp: put_tree_dels del_paths_lookup split: if_splits)

interpretation lldp: reconciler lldp_reconcile "\<lambda>s. s" lldp_cur lldp_leaves lldpElems lldp_names lldp_ok
proof unfold_locales
  fix s :: lldp_seen and x :: lldp_input and t k u l
  assume ok: "lldp_ok s x"
  obtain inp cur old where x: "x = (inp, cur, old)" by (cases x)
  show "fst (lldp_reconcile s x) = (case lldp_cur x of None \<Rightarrow> s | Some c \<Rightarrow> c)"
  proof (cases inp)
    case (Some out)
    with ok x have e: "enumerates cur (parseLLDP out)" by (simp add: lldp_ok_def)
    then have "fst (lldp_write cur Map.empty) = lldp_ids (parseLLDP out)"
      by (intro ext) (auto simp: lldp_write_seen enumerates_def lldp_ids_def
          simp del: map_of_eq_Some_iff split: option.splits)
    with Some x show ?thesis by (simp add: lldp_reconcile_def lldp_cur_def split_beta)
  qed (simp add: x lldp_reconcile_def lldp_cur_def)
  show "tree_effects t (snd (lldp_reconcile s x)) (''openconfig'', lldpElems k u l) =
        (case lldp_cur x of
           None \<Rightarrow> t (''openconfig'', lldpElems k u l)
         | Some c \<Rightarrow>
             if c k = Some u \<and> l \<in> lldp_names then lldp_leaves x k l
             else if c k = None \<and> s k = Some u then None
             else t (''openconfig'', lldpElems k u l))"
  proof (cases inp)
    case (Some out)
    with ok x have e: "distinct (map fst cur)" "map_of cur = parseLLDP out" and old: "enumerates old s"
      by (simp_all add: lldp_ok_def enumerates_def)
    have mem: "(k, u) \<in> set old \<longleftrightarrow> s k = Some u" using enumerates_lookup [OF old] by simp
    show ?thesis
      using Some x mem
      by (auto simp: lldp_reconcile_def lldp_cur_def lldp_leaves_def split_beta Let_def lldp_delete_tree
          lldp_write_seen [OF e(1)] lldp_write_tree [OF e(1)] e(2) lldp_ids_def
          split: option.splits)
  qed (simp add: x lldp_reconcile_def lldp_cur_def)
next
  show "l \<notin> lldp_names \<Longrightarrow> lldp_leaves x k l = None" for l x k
    by (auto simp: lldp_leaves_def nbr_leaves_dom split: option.splits)
qed

section \<open>Properties\<close>

definition lldp_round :: "lldp_seen \<times> tree \<Rightarrow> lldp_input \<Rightarrow> lldp_seen \<times> tree" where
  "lldp_round = round_step lldp_reconcile"

text \<open>The rounds of a run: the iteration orders enumerate the maps, and no interface gets
  another chassis.\<close>

definition lldp_run_ok :: "lldp_seen \<times> tree \<Rightarrow> lldp_input list \<Rightarrow> bool" where
  "lldp_run_ok = admissible lldp_round
     (\<lambda>st x. lldp_ok (fst st) x \<and> stable_ids (fst st) (lldp_cur x))"

text \<open>The last reading that succeeded, and no neighbours before the first.\<close>

definition last_reading :: "lldp_input list \<Rightarrow> lldp_table" where
  "last_reading xs =
     (case rev (filter (\<lambda>x. fst x \<noteq> None) xs) of [] \<Rightarrow> Map.empty | x # _ \<Rightarrow> parseLLDP (the (fst x)))"

text \<open>
  C18. Over any number of reconcile rounds, none of which overlaps another, in which commands
  may fail (also the last ones), neighbours come and go and their attributes change but no
  interface gets a neighbour with another chassis id, the neighbours under \<open>/lldp\<close> and all
  their leaves are after each round exactly those of the last reading that succeeded, and none
  before the first, whatever order the maps were iterated in.  (A reading succeeds when
  \<^verbatim>\<open>lldpcli\<close> does; output that is no JSON reads as no neighbours.  Overlapping rounds
  are C40.)
\<close>

theorem lldp_tree_is_last_reading:
  assumes "lldp_run_ok (Map.empty, t) xs"
    and "\<And>k u l. t (''openconfig'', lldpElems k u l) = None"
  shows "snd (foldl lldp_round (Map.empty, t) xs) (''openconfig'', lldpElems ifn i l) =
    (case last_reading xs ifn of
       Some nb \<Rightarrow> if nb_chassisID nb = i \<and> i \<noteq> [] then nbr_leaves nb l else None
     | None \<Rightarrow> None)"
proof -
  have cur: "(lldp_cur x \<noteq> None) = (fst x \<noteq> None)" for x by (simp add: lldp_cur_def)
  have "synced lldpElems lldp_names Map.empty t" using assms(2) by (simp add: synced_def)
  from lldp.rounds_last [OF this, of xs ifn i l] assms
  have tree: "snd (foldl lldp_round (Map.empty, t) xs) (''openconfig'', lldpElems ifn i l) =
      (case rev (filter (\<lambda>x. fst x \<noteq> None) xs) of [] \<Rightarrow> None
       | x # _ \<Rightarrow> if the (lldp_cur x) ifn = Some i then lldp_leaves x ifn l else None)"
    by (simp only: lldp_run_ok_def lldp_round_def cur)
  show ?thesis
  proof (cases "rev (filter (\<lambda>x. fst x \<noteq> None) xs)")
    case Nil
    then show ?thesis unfolding tree by (simp add: last_reading_def)
  next
    case (Cons x ys)
    then have "x \<in> set (filter (\<lambda>x. fst x \<noteq> None) xs)" by (metis list.set_intros(1) set_rev)
    then obtain out where "fst x = Some out" by auto
    with Cons show ?thesis unfolding tree last_reading_def
      by (auto simp: lldp_cur_def lldp_ids_def lldp_leaves_def split: option.splits)
  qed
qed

text \<open>A reading with one neighbour, as lldpd prints it.\<close>

definition lldp_reading :: "string \<Rightarrow> string \<Rightarrow> json option option" where
  "lldp_reading ifn i =
     Some (Some (JObj [(''lldp'', JObj [(''interface'', JArr [JObj [(ifn, JObj
       [(''chassis'', JObj [(''leaf1'', JObj [(''id'', JObj [(''type'', JStr ''mac''), (''value'', JStr i)]),
                                            (''descr'', JStr ''FRR'')])]),
        (''port'', JObj [(''id'', JObj [(''value'', JStr ''eth1'')])])])]])])]))"

definition lldp_nbr1 :: "string \<Rightarrow> string \<Rightarrow> lldp_nbr" where
  "lldp_nbr1 ifn i = \<lparr>nb_ifname = ifn, nb_chassisID = i, nb_portID = ''eth1'', nb_sysName = ''leaf1'',
     nb_sysDescr = ''FRR'', nb_mgmtIP = ''''\<rparr>"

lemma parse_lldp_reading:
  "i \<noteq> [] \<Longrightarrow> parseLLDP (the (lldp_reading ifn i)) = [ifn \<mapsto> lldp_nbr1 ifn i]"
  by (simp add: lldp_reading_def parseLLDP_def fld_def firstObj_def add_elem_def map_or_nil_def asMap_def
      add_ifaces_def parseIface_def chassis_of_def port_of_def fillChassis_def lldp_nbr1_def Let_def)

definition lldp_input1 :: "string \<Rightarrow> string \<Rightarrow> (string \<times> string) list \<Rightarrow> lldp_input" where
  "lldp_input1 ifn i old = (lldp_reading ifn i, [(ifn, lldp_nbr1 ifn i)], old)"

lemma lldp_reading_Some: "lldp_reading ifn i = Some (the (lldp_reading ifn i))"
  by (simp add: lldp_reading_def)

lemma lldp_ok_input1:
  "i \<noteq> [] \<Longrightarrow> enumerates old seen \<Longrightarrow> lldp_ok seen (lldp_input1 ifn i old)"
  using parse_lldp_reading [of i ifn] lldp_reading_Some [of ifn i]
  by (cases "lldp_reading ifn i") (simp_all add: lldp_ok_def lldp_input1_def enumerates_def)

theorem lldp_tree_is_last_reading_witness:
  "snd (foldl lldp_round (Map.empty, Map.empty) [lldp_input1 ''eth0'' ''02:00'' [], (None, [], [])])
     (''openconfig'', lldpElems ''eth0'' ''02:00'' ''system-name'') = Some (StringVal ''leaf1'')"
proof -
  let ?x = "lldp_input1 ''eth0'' ''02:00'' []"
  have some: "fst ?x = Some (the (lldp_reading ''eth0'' ''02:00''))"
    using lldp_reading_Some by (simp add: lldp_input1_def)
  have "lldp_ok Map.empty ?x" by (rule lldp_ok_input1) (simp_all add: enumerates_def)
  moreover have "lldp_ok s (None, [], [])" "stable_ids s (lldp_cur (None, [], []))" "stable_ids Map.empty c" for s c
    by (simp_all add: lldp_ok_def lldp_cur_def stable_ids_def split: option.split)
  ultimately have "lldp_run_ok (Map.empty, Map.empty) [?x, (None, [], [])]"
    unfolding lldp_run_ok_def by simp
  from lldp_tree_is_last_reading [OF this, of "''eth0''" "''02:00''" "''system-name''"]
  show ?thesis
    by (simp add: last_reading_def some) (simp add: parse_lldp_reading lldp_nbr1_def nbr_leaves_def)
qed

text \<open>
  An interface whose neighbour changes (a cable moved to another chassis) keeps both: the
  reconcile compares interface names only, so the leaves of the old chassis are never deleted,
  however many rounds follow without it.
\<close>

theorem lldp_moved_neighbor_stays:
  assumes "seen ifn = Some i" and "lldp_cur x = Some c" and "c ifn = Some j" and "j \<noteq> i"
    and "admissible lldp_round (\<lambda>st x. lldp_ok (fst st) x) (seen, t) (x # xs)"
    and "\<forall>y \<in> set xs. \<forall>c. lldp_cur y = Some c \<longrightarrow> c ifn \<noteq> Some i"
  shows "snd (foldl lldp_round (seen, t) (x # xs)) (''openconfig'', lldpElems ifn i l) =
    t (''openconfig'', lldpElems ifn i l)"
  using lldp.moved_strands [of seen ifn i x c j t xs l] assms by (simp add: lldp_round_def)

theorem lldp_moved_neighbor_stays_witness:
  "snd (foldl lldp_round ([''eth0'' \<mapsto> ''02:00''],
      [(''openconfig'', lldpElems ''eth0'' ''02:00'' ''port-id'') \<mapsto> StringVal ''eth1''])
      [lldp_input1 ''eth0'' ''04:00'' [(''eth0'', ''02:00'')]])
     (''openconfig'', lldpElems ''eth0'' ''02:00'' ''port-id'') = Some (StringVal ''eth1'')"
proof -
  let ?x = "lldp_input1 ''eth0'' ''04:00'' [(''eth0'', ''02:00'')]"
  have "lldp_cur ?x = Some (lldp_ids (parseLLDP (the (lldp_reading ''eth0'' ''04:00''))))"
    by (simp add: lldp_input1_def lldp_cur_def lldp_reading_def)
  then have c: "lldp_cur ?x = Some [''eth0'' \<mapsto> ''04:00'']"
    by (simp add: parse_lldp_reading lldp_ids_def lldp_nbr1_def fun_eq_iff)
  have ok: "lldp_ok [''eth0'' \<mapsto> ''02:00''] ?x" by (rule lldp_ok_input1) (simp_all add: enumerates_def)
  show ?thesis
    using lldp_moved_neighbor_stays [OF _ c, of "[''eth0'' \<mapsto> ''02:00'']" "''eth0''" "''02:00''" "''04:00''" _ "[]"] ok
    by simp
qed

section \<open>Two goroutines\<close>

text \<open>
  \<^verbatim>\<open>Run\<close> calls \<^verbatim>\<open>reconcile\<close> from its ticker goroutine and from the loop over the
  output of \<^verbatim>\<open>lldpcli watch\<close>, without a lock.  The state of both: what the collector
  remembers, the tree, and how far each goroutine is in its round.
\<close>

datatype lldp_pc =
    PcIdle
  | PcRead "(string \<times> lldp_nbr) list"   \<comment> \<open>the neighbours are parsed\<close>
  | PcWritten lldp_seen                 \<comment> \<open>their leaves are written\<close>
  | PcDeleted lldp_seen                 \<comment> \<open>the gone ones are deleted\<close>

record lldp_par =
  p_seen :: lldp_seen
  p_tree :: tree
  p_ticker :: lldp_pc
  p_watch :: lldp_pc

text \<open>The steps of one goroutine at the points where it touches what both share.\<close>

inductive lldp_gstep ::
  "lldp_seen \<times> tree \<times> lldp_pc \<Rightarrow> lldp_seen \<times> tree \<times> lldp_pc \<Rightarrow> bool" where
  g_read: "enumerates cur (parseLLDP out) \<Longrightarrow> lldp_gstep (seen, t, PcIdle) (seen, t, PcRead cur)"
| g_fail: "lldp_gstep (seen, t, PcIdle) (seen, t, PcIdle)"
| g_write: "lldp_write cur Map.empty = (seen', es) \<Longrightarrow>
    lldp_gstep (seen, t, PcRead cur) (seen, tree_effects t es, PcWritten seen')"
| g_delete: "enumerates old seen \<Longrightarrow>
    lldp_gstep (seen, t, PcWritten seen') (seen, tree_effects t (lldp_delete seen' old), PcDeleted seen')"
| g_remember: "lldp_gstep (seen, t, PcDeleted seen') (seen', t, PcIdle)"

inductive lldp_pstep :: "lldp_par \<Rightarrow> lldp_par \<Rightarrow> bool" where
  p_ticker_step: "lldp_gstep (p_seen s, p_tree s, p_ticker s) (seen, t, pc) \<Longrightarrow>
    lldp_pstep s (s\<lparr>p_seen := seen, p_tree := t, p_ticker := pc\<rparr>)"
| p_watch_step: "lldp_gstep (p_seen s, p_tree s, p_watch s) (seen, t, pc) \<Longrightarrow>
    lldp_pstep s (s\<lparr>p_seen := seen, p_tree := t, p_watch := pc\<rparr>)"

text \<open>One goroutine alone runs exactly \<^verbatim>\<open>lldp_reconcile\<close>.\<close>

lemma lldp_round_steps:
  assumes "lldp_ok seen (Some out, cur, old)"
  shows "lldp_gstep\<^sup>*\<^sup>* (seen, t, PcIdle)
    (fst (lldp_round (seen, t) (Some out, cur, old)), snd (lldp_round (seen, t) (Some out, cur, old)), PcIdle)"
proof -
  obtain seen' es where w: "lldp_write cur Map.empty = (seen', es)" by fastforce
  have "lldp_gstep (seen, t, PcIdle) (seen, t, PcRead cur)"
    using assms by (auto simp: lldp_ok_def intro: lldp_gstep.g_read)
  moreover have "lldp_gstep (seen, t, PcRead cur) (seen, tree_effects t es, PcWritten seen')"
    using w by (rule lldp_gstep.g_write)
  moreover have "lldp_gstep (seen, tree_effects t es, PcWritten seen')
      (seen, tree_effects (tree_effects t es) (lldp_delete seen' old), PcDeleted seen')"
    using assms by (auto simp: lldp_ok_def intro: lldp_gstep.g_delete)
  moreover have "lldp_gstep (seen, tree_effects (tree_effects t es) (lldp_delete seen' old), PcDeleted seen')
      (seen', tree_effects (tree_effects t es) (lldp_delete seen' old), PcIdle)"
    by (rule lldp_gstep.g_remember)
  ultimately have "lldp_gstep\<^sup>*\<^sup>* (seen, t, PcIdle)
      (seen', tree_effects (tree_effects t es) (lldp_delete seen' old), PcIdle)"
    by (meson converse_rtranclp_into_rtranclp rtranclp.rtrancl_refl)
  then show ?thesis by (simp add: lldp_round_def lldp_reconcile_def w)
qed

definition lldp_par0 :: "tree \<Rightarrow> lldp_par" where
  "lldp_par0 t = \<lparr>p_seen = Map.empty, p_tree = t, p_ticker = PcIdle, p_watch = PcIdle\<rparr>"

text \<open>
  The race: the ticker reads a neighbour, the watcher reads that there is none, the ticker
  finishes its round and the watcher its own.
\<close>

definition lldp_race :: "string \<Rightarrow> string \<Rightarrow> tree \<Rightarrow> lldp_par list" where
  "lldp_race ifn i t =
     (let nb = lldp_nbr1 ifn i; t' = put_tree ''openconfig'' (lldp_ups ifn nb) [] t;
          s = lldp_par0 t; sn = [ifn \<mapsto> i] in
      [s\<lparr>p_ticker := PcRead [(ifn, nb)]\<rparr>,
       s\<lparr>p_ticker := PcRead [(ifn, nb)], p_watch := PcRead []\<rparr>,
       s\<lparr>p_ticker := PcRead [(ifn, nb)], p_watch := PcWritten Map.empty\<rparr>,
       s\<lparr>p_ticker := PcRead [(ifn, nb)], p_watch := PcDeleted Map.empty\<rparr>,
       s\<lparr>p_tree := t', p_ticker := PcWritten sn, p_watch := PcDeleted Map.empty\<rparr>,
       s\<lparr>p_tree := t', p_ticker := PcDeleted sn, p_watch := PcDeleted Map.empty\<rparr>,
       s\<lparr>p_seen := sn, p_tree := t', p_ticker := PcIdle, p_watch := PcDeleted Map.empty\<rparr>,
       s\<lparr>p_tree := t'\<rparr>])"

fun lldp_path :: "lldp_par \<Rightarrow> lldp_par list \<Rightarrow> bool" where
  "lldp_path s [] = True"
| "lldp_path s (s' # ss) = (lldp_pstep s s' \<and> lldp_path s' ss)"

lemma lldp_path_reach: "lldp_path s ss \<Longrightarrow> lldp_pstep\<^sup>*\<^sup>* s (last (s # ss))"
  by (induction s ss rule: lldp_path.induct) (auto intro: converse_rtranclp_into_rtranclp)

lemma lldp_ticker:
  assumes "lldp_gstep (p_seen s, p_tree s, p_ticker s) (p_seen s', p_tree s', p_ticker s')"
    and "p_watch s' = p_watch s"
  shows "lldp_pstep s s'"
proof -
  have "s\<lparr>p_seen := p_seen s', p_tree := p_tree s', p_ticker := p_ticker s'\<rparr> = s'"
    by (rule lldp_par.equality) (simp_all add: assms(2))
  with lldp_pstep.p_ticker_step [OF assms(1)] show ?thesis by simp
qed

lemma lldp_watch:
  assumes "lldp_gstep (p_seen s, p_tree s, p_watch s) (p_seen s', p_tree s', p_watch s')"
    and "p_ticker s' = p_ticker s"
  shows "lldp_pstep s s'"
proof -
  have "s\<lparr>p_seen := p_seen s', p_tree := p_tree s', p_watch := p_watch s'\<rparr> = s'"
    by (rule lldp_par.equality) (simp_all add: assms(2))
  with lldp_pstep.p_watch_step [OF assms(1)] show ?thesis by simp
qed

lemma lldp_race_path:
  assumes "i \<noteq> []"
  shows "lldp_path (lldp_par0 t) (lldp_race ifn i t)"
proof -
  let ?nb = "lldp_nbr1 ifn i"
  let ?t' = "put_tree ''openconfig'' (lldp_ups ifn ?nb) [] t"
  have id: "nb_chassisID ?nb = i" by (simp add: lldp_nbr1_def)
  have read: "lldp_gstep (Map.empty, t, PcIdle) (Map.empty, t, PcRead [(ifn, ?nb)])"
    using parse_lldp_reading [OF assms, of ifn]
    by (intro lldp_gstep.g_read [of _ "the (lldp_reading ifn i)"]) (simp add: enumerates_def)
  have none: "lldp_gstep (Map.empty, t, PcIdle) (Map.empty, t, PcRead [])"
    by (rule lldp_gstep.g_read [of _ "Some JNull"])
      (simp add: enumerates_def parseLLDP_def fld_def firstObj_def)
  have wnone: "lldp_gstep (Map.empty, t, PcRead []) (Map.empty, t, PcWritten Map.empty)"
    using lldp_gstep.g_write [of "[]" Map.empty "[]" Map.empty t] by simp
  have dnone: "lldp_gstep (Map.empty, t, PcWritten Map.empty) (Map.empty, t, PcDeleted Map.empty)"
    using lldp_gstep.g_delete [of "[]" Map.empty t Map.empty] by (simp add: enumerates_def)
  have w: "lldp_gstep (Map.empty, t, PcRead [(ifn, ?nb)]) (Map.empty, ?t', PcWritten [ifn \<mapsto> i])"
    using lldp_gstep.g_write [of "[(ifn, ?nb)]" "[ifn \<mapsto> i]" "[CacheUpdate ''openconfig'' (lldp_ups ifn ?nb) []]" Map.empty t]
      assms id by simp
  have d: "lldp_gstep (Map.empty, ?t', PcWritten [ifn \<mapsto> i]) (Map.empty, ?t', PcDeleted [ifn \<mapsto> i])"
    using lldp_gstep.g_delete [of "[]" Map.empty ?t' "[ifn \<mapsto> i]"] by (simp add: enumerates_def)
  show ?thesis
    unfolding lldp_race_def Let_def lldp_path.simps lldp_par0_def
    apply (intro conjI TrueI)
           apply (rule lldp_ticker; simp add: read)
          apply (rule lldp_watch; simp add: none)
         apply (rule lldp_watch; simp add: wnone)
        apply (rule lldp_watch; simp add: dnone)
       apply (rule lldp_ticker; simp add: w)
      apply (rule lldp_ticker; simp add: d)
     apply (rule lldp_ticker; simp add: lldp_gstep.g_remember)
    apply (rule lldp_watch; simp add: lldp_gstep.g_remember)
    done
qed

text \<open>
  C40. The two goroutines that reconcile LLDP race: when one has read a neighbour that is gone
  by the time the other reads, they can finish in an order that leaves the neighbour's leaves
  in the tree while nothing remembers it, and then no later round ever deletes it.
\<close>

theorem lldp_race_strands_neighbor:
  assumes "i \<noteq> []" and "admissible lldp_round (\<lambda>st x. lldp_ok (fst st) x)
      (Map.empty, put_tree ''openconfig'' (lldp_ups ifn (lldp_nbr1 ifn i)) [] t) xs"
    and "\<forall>x \<in> set xs. \<forall>c. lldp_cur x = Some c \<longrightarrow> c ifn \<noteq> Some i"
  shows "\<exists>s. lldp_pstep\<^sup>*\<^sup>* (lldp_par0 t) s \<and> p_ticker s = PcIdle \<and> p_watch s = PcIdle \<and>
    snd (foldl lldp_round (p_seen s, p_tree s) xs) (''openconfig'', lldpElems ifn i ''chassis-id'') =
      Some (StringVal i)"
proof -
  let ?t = "put_tree ''openconfig'' (lldp_ups ifn (lldp_nbr1 ifn i)) [] t"
  have "lldp_pstep\<^sup>*\<^sup>* (lldp_par0 t) ((lldp_par0 t)\<lparr>p_tree := ?t\<rparr>)"
    using lldp_path_reach [OF lldp_race_path [OF assms(1), of t ifn]] by (simp add: lldp_race_def Let_def)
  moreover have "snd (foldl lldp_round (Map.empty, ?t) xs) (''openconfig'', lldpElems ifn i ''chassis-id'') =
      Some (StringVal i)"
    using lldp.stranded [of Map.empty ifn i ?t xs "''chassis-id''"] assms(2, 3)
    by (simp add: lldp_round_def lldp_ups_tree lldp_names_def nbr_leaves_def lldp_nbr1_def)
  ultimately show ?thesis
    by (intro exI [of _ "(lldp_par0 t)\<lparr>p_tree := ?t\<rparr>"]) (simp add: lldp_par0_def)
qed

theorem lldp_race_strands_neighbor_witness:
  "\<exists>s. lldp_pstep\<^sup>*\<^sup>* (lldp_par0 Map.empty) s \<and> p_ticker s = PcIdle \<and> p_watch s = PcIdle \<and>
    snd (foldl lldp_round (p_seen s, p_tree s) [(Some (Some JNull), [], [])])
      (''openconfig'', lldpElems ''eth0'' ''02:00'' ''chassis-id'') = Some (StringVal ''02:00'')"
  by (rule lldp_race_strands_neighbor)
    (auto simp: lldp_ok_def enumerates_def parseLLDP_def fld_def firstObj_def lldp_cur_def lldp_ids_def)

end
