(* ===== verification/OspfIngest.thy ===== *)
theory OspfIngest
  imports Reconcile Channel
begin

text \<open>
  \<^verbatim>\<open>internal/ingest/ospf.go\<close>: the reconcile of OSPF neighbours from the decoded output
  of \<^verbatim>\<open>show ip ospf neighbor json\<close>, and the coalescing trigger that the syslog reader,
  the other planes' reconnects and the fallback ticker share.
\<close>

section \<open>Neighbours\<close>

definition lc :: "string \<Rightarrow> string" where
  "lc s = map lower s"

text \<open>\<^verbatim>\<open>strings.SplitN(s, "/", 2)[0]\<close>, then the enum of OpenConfig.\<close>

definition adjState :: "string \<Rightarrow> string" where
  "adjState s =
     (let p = hd (split_n2 CHR ''/'' s) in
      if p = ''Full'' then ''FULL''
      else if p = ''2-Way'' then ''TWO_WAY''
      else if p = ''Init'' then ''INIT''
      else if p = ''Down'' then ''DOWN''
      else if p = ''ExStart'' then ''EXCHANGE_START''
      else if p = ''Exchange'' then ''EXCHANGE''
      else if p = ''Loading'' then ''LOADING''
      else if p = ''Attempt'' then ''ATTEMPT''
      else ''UNKNOWN'')"

definition ospfNbrElems :: "string \<Rightarrow> string \<Rightarrow> string \<Rightarrow> path_elem list" where
  "ospfNbrElems iface rid leaf =
     with_leaf
       [el ''network-instances'', elk ''network-instance'' [(''name'', ''default'')], el ''protocols'',
        elk ''protocol'' [(''identifier'', ''OSPF''), (''name'', ''ospf'')], el ''ospfv2'', el ''areas'',
        elk ''area'' [(''identifier'', ''0.0.0.0'')], el ''interfaces'',
        elk ''interface'' [(''id'', iface)], el ''neighbors'', elk ''neighbor'' [(''router-id'', rid)]]
       leaf"

record ospf_nbr =
  on_iface :: string
  on_addr :: string
  on_state :: string

text \<open>
  A row of the JSON, and the decoded document: router id to its rows, as the list of the
  map's entries.
\<close>

record ospf_row =
  row_nbrState :: string
  row_converged :: string
  row_ifaceName :: string
  row_ifaceAddress :: string

type_synonym ospf_doc = "(string \<times> ospf_row list) list"

text \<open>The text of an interface name before the colon.\<close>

definition before_colon :: "string \<Rightarrow> string" where
  "before_colon s = (case index_byte s CHR '':'' of Some i \<Rightarrow> take i s | None \<Rightarrow> s)"

definition row_nbr :: "ospf_row \<Rightarrow> ospf_nbr" where
  "row_nbr n =
     \<lparr>on_iface = before_colon (row_ifaceName n), on_addr = row_ifaceAddress n,
      on_state = (if row_converged n = [] then row_nbrState n else row_converged n)\<rparr>"

fun add_rows :: "ospf_doc \<Rightarrow> (string \<Rightarrow> ospf_nbr option) \<Rightarrow> (string \<Rightarrow> ospf_nbr option)" where
  "add_rows [] res = res"
| "add_rows ((rid, arr) # d) res =
     (case arr of [] \<Rightarrow> add_rows d res | n # _ \<Rightarrow> add_rows d (res(rid \<mapsto> row_nbr n)))"

text \<open>\<open>None\<close> is an error of \<^verbatim>\<open>json.Unmarshal\<close>.\<close>

definition parseOSPFNbrs :: "ospf_doc option \<Rightarrow> (string \<Rightarrow> ospf_nbr option)" where
  "parseOSPFNbrs data = (case data of None \<Rightarrow> Map.empty | Some d \<Rightarrow> add_rows d Map.empty)"

section \<open>The reconcile loop\<close>

record ospf =
  o_seen :: "string \<Rightarrow> string option"
  o_st :: "string \<Rightarrow> string option"
  o_w :: wiring

definition NewOSPF :: "wiring \<Rightarrow> ospf" where
  "NewOSPF w = \<lparr>o_seen = Map.empty, o_st = Map.empty, o_w = w\<rparr>"

definition nbr_ups :: "string \<Rightarrow> ospf_nbr \<Rightarrow> update list" where
  "nbr_ups rid n =
     [leafUpdate (ospfNbrElems (on_iface n) rid ''adjacency-state'') (adjState (on_state n)),
      leafUpdate (ospfNbrElems (on_iface n) rid ''neighbor-address'') (on_addr n)]"

definition adj_change :: "wiring \<Rightarrow> (string \<Rightarrow> string option) \<Rightarrow> string \<Rightarrow> ospf_nbr \<Rightarrow> effect list" where
  "adj_change w sts rid n =
     (let st = adjState (on_state n) in
      case sts rid of
        None \<Rightarrow> []
      | Some old \<Rightarrow>
          if old \<noteq> st
          then emit_if w ''ospf'' (''adj-'' @ lc st) rid (''if='' @ on_iface n @ '' '' @ old @ ''->'' @ st) True
          else [])"

text \<open>The loop over the neighbours read: new \<^verbatim>\<open>seen\<close>, states, effects.\<close>

fun ospf_write ::
  "wiring \<Rightarrow> (string \<times> ospf_nbr) list \<Rightarrow> (string \<Rightarrow> string option) \<Rightarrow> (string \<Rightarrow> string option) \<Rightarrow>
   (string \<Rightarrow> string option) \<times> (string \<Rightarrow> string option) \<times> effect list" where
  "ospf_write w [] seen sts = (seen, sts, [])"
| "ospf_write w ((rid, n) # xs) seen sts =
     (let (seen', sts', es) =
            ospf_write w xs (seen(rid \<mapsto> on_iface n)) (sts(rid \<mapsto> adjState (on_state n))) in
      (seen', sts', CacheUpdate ''openconfig'' (nbr_ups rid n) [] # adj_change w sts rid n @ es))"

text \<open>The loop over the neighbours remembered from the round before.\<close>

fun ospf_delete ::
  "wiring \<Rightarrow> (string \<Rightarrow> string option) \<Rightarrow> (string \<times> string) list \<Rightarrow> (string \<Rightarrow> string option) \<Rightarrow>
   (string \<Rightarrow> string option) \<times> effect list" where
  "ospf_delete w seen [] sts = (sts, [])"
| "ospf_delete w seen ((rid, iface) # old) sts =
     (if seen rid = None then
        let (sts', es) = ospf_delete w seen old (sts(rid := None)) in
        (sts', CacheUpdate ''openconfig'' [] [path_of (ospfNbrElems iface rid [])] #
           emit_if w ''ospf'' ''adj-down'' rid (''if='' @ iface @ '' neighbor gone'') True @ es)
      else ospf_delete w seen old sts)"

text \<open>
  The input of a round: the command's result (\<open>None\<close>: it fails; \<open>Some None\<close>: no JSON)
  and the iteration orders of the neighbours and of the old \<^verbatim>\<open>seen\<close>.
\<close>

type_synonym ospf_input =
  "ospf_doc option option \<times> (string \<times> ospf_nbr) list \<times> (string \<times> string) list"

definition ospf_reconcile :: "ospf \<Rightarrow> ospf_input \<Rightarrow> ospf \<times> effect list" where
  "ospf_reconcile s x =
     (case x of
        (None, _, _) \<Rightarrow> (s, [])
      | (Some out, cur, old) \<Rightarrow>
          let (seen, sts, es) = ospf_write (o_w s) cur Map.empty (o_st s);
              (sts', ds) = ospf_delete (o_w s) seen old sts in
          (s\<lparr>o_seen := seen, o_st := sts'\<rparr>, es @ ds))"

definition ospf_ok :: "ospf \<Rightarrow> ospf_input \<Rightarrow> bool" where
  "ospf_ok s x =
     (case x of
        (None, _, _) \<Rightarrow> True
      | (Some out, cur, old) \<Rightarrow> enumerates cur (parseOSPFNbrs out) \<and> enumerates old (o_seen s))"

section \<open>The contract\<close>

definition ospf_cur :: "ospf_input \<Rightarrow> (string \<Rightarrow> string option) option" where
  "ospf_cur x = map_option (\<lambda>out. map_option on_iface \<circ> parseOSPFNbrs out) (fst x)"

definition adj_leaves :: "ospf_nbr \<Rightarrow> string \<Rightarrow> typed_value option" where
  "adj_leaves n =
     [''adjacency-state'' \<mapsto> StringVal (adjState (on_state n)), ''neighbor-address'' \<mapsto> StringVal (on_addr n)]"

definition ospf_leaves :: "ospf_input \<Rightarrow> string \<Rightarrow> string \<Rightarrow> typed_value option" where
  "ospf_leaves x rid =
     (case fst x of
        None \<Rightarrow> Map.empty
      | Some out \<Rightarrow> (case parseOSPFNbrs out rid of None \<Rightarrow> Map.empty | Some n \<Rightarrow> adj_leaves n))"

definition ospf_names :: "string set" where
  "ospf_names = {''adjacency-state'', ''neighbor-address''}"

definition ospf_node :: "string \<Rightarrow> string \<Rightarrow> string \<Rightarrow> path_elem list" where
  "ospf_node rid iface leaf = ospfNbrElems iface rid leaf"

lemma adj_leaves_dom: "adj_leaves n l = None \<longleftrightarrow> l \<notin> ospf_names"
  by (auto simp: adj_leaves_def ospf_names_def)

lemma ospf_node_eq [simp]:
  "ospfNbrElems u k l = ospfNbrElems u' k' l' \<longleftrightarrow> k = k' \<and> u = u' \<and> l = l'"
  by (auto simp: ospfNbrElems_def)

lemma ospf_node_below [simp]: "below (ospfNbrElems u k []) (ospfNbrElems u' k' l) \<longleftrightarrow> k = k' \<and> u = u'"
  by (auto simp: ospfNbrElems_def below_def with_leaf_def)

lemma ospf_write_maps:
  "distinct (map fst xs) \<Longrightarrow>
   fst (ospf_write w xs seen sts) = seen ++ (map_option on_iface \<circ> map_of xs) \<and>
   fst (snd (ospf_write w xs seen sts)) = sts ++ (map_option (adjState \<circ> on_state) \<circ> map_of xs)"
proof (induction w xs seen sts rule: ospf_write.induct)
  case (2 w rid n xs seen sts)
  have none: "map_of xs rid = None" using 2 by (simp add: map_of_eq_None_iff)
  have upd: "(m(rid \<mapsto> f n)) ++ (map_option f \<circ> map_of xs) = m ++ (map_option f \<circ> map_of ((rid, n) # xs))"
    for m :: "string \<Rightarrow> string option" and f
    using none by (auto simp: map_add_def fun_eq_iff split: option.splits)
  have IH: "fst (ospf_write w xs (seen(rid \<mapsto> on_iface n)) (sts(rid \<mapsto> adjState (on_state n)))) =
      seen(rid \<mapsto> on_iface n) ++ (map_option on_iface \<circ> map_of xs)"
    "fst (snd (ospf_write w xs (seen(rid \<mapsto> on_iface n)) (sts(rid \<mapsto> adjState (on_state n))))) =
      sts(rid \<mapsto> (adjState \<circ> on_state) n) ++ (map_option (adjState \<circ> on_state) \<circ> map_of xs)"
    using 2 by (simp_all add: comp_def flip: fun_upd_def)
  show ?case
    by (simp only: ospf_write.simps Let_def split_beta fst_conv snd_conv IH upd simp_thms)
qed (simp add: map_add_def fun_eq_iff)

lemma adj_change_tree [simp]: "tree_effects t (adj_change w sts rid n) = t"
  by (simp add: adj_change_def Let_def split: option.split)

lemma nbr_ups_tree:
  "put_tree ''openconfig'' (nbr_ups rid n) [] t (''openconfig'', ospfNbrElems u k l) =
     (if k = rid \<and> u = on_iface n \<and> l \<in> ospf_names then adj_leaves n l
      else t (''openconfig'', ospfNbrElems u k l))"
  by (auto simp: put_tree_ups nbr_ups_def adj_leaves_def ospf_names_def)

lemma ospf_write_tree:
  "distinct (map fst xs) \<Longrightarrow>
   tree_effects t (snd (snd (ospf_write w xs seen sts))) (''openconfig'', ospfNbrElems u k l) =
     (case map_of xs k of
        None \<Rightarrow> t (''openconfig'', ospfNbrElems u k l)
      | Some n \<Rightarrow>
          if u = on_iface n \<and> l \<in> ospf_names then adj_leaves n l else t (''openconfig'', ospfNbrElems u k l))"
proof (induction w xs seen sts arbitrary: t rule: ospf_write.induct)
  case (2 w rid n xs seen sts)
  have "map_of xs rid = None" using 2 by (simp add: map_of_eq_None_iff)
  with 2 show ?case
    by (auto simp: split_beta Let_def nbr_ups_tree simp del: map_of_eq_Some_iff split: option.splits
        simp flip: fun_upd_def)
qed simp

lemma ospf_delete_tree:
  "tree_effects t (snd (ospf_delete w seen old sts)) (''openconfig'', ospfNbrElems u k l) =
     (if (k, u) \<in> set old \<and> seen k = None then None else t (''openconfig'', ospfNbrElems u k l))"
  by (induction w seen old sts arbitrary: t rule: ospf_delete.induct)
    (auto simp: put_tree_dels del_paths_lookup split_beta Let_def)

interpretation ospf: reconciler ospf_reconcile o_seen ospf_cur ospf_leaves ospf_node ospf_names ospf_ok
proof unfold_locales
  fix s :: ospf and x :: ospf_input and t k u l
  assume ok: "ospf_ok s x"
  obtain inp cur old where x: "x = (inp, cur, old)" by (cases x)
  show "o_seen (fst (ospf_reconcile s x)) = (case ospf_cur x of None \<Rightarrow> o_seen s | Some c \<Rightarrow> c)"
  proof (cases inp)
    case (Some out)
    with ok x have e: "distinct (map fst cur)" "map_of cur = parseOSPFNbrs out"
      by (simp_all add: ospf_ok_def enumerates_def)
    show ?thesis
      using ospf_write_maps [OF e(1), of "o_w s" Map.empty "o_st s"] e(2) Some x
      by (simp add: ospf_reconcile_def ospf_cur_def split_beta Let_def)
  qed (simp add: x ospf_reconcile_def ospf_cur_def)
  show "tree_effects t (snd (ospf_reconcile s x)) (''openconfig'', ospf_node k u l) =
        (case ospf_cur x of
           None \<Rightarrow> t (''openconfig'', ospf_node k u l)
         | Some c \<Rightarrow>
             if c k = Some u \<and> l \<in> ospf_names then ospf_leaves x k l
             else if c k = None \<and> o_seen s k = Some u then None
             else t (''openconfig'', ospf_node k u l))"
  proof (cases inp)
    case (Some out)
    with ok x have e: "distinct (map fst cur)" "map_of cur = parseOSPFNbrs out" and old: "enumerates old (o_seen s)"
      by (simp_all add: ospf_ok_def enumerates_def)
    have mem: "(k, u) \<in> set old \<longleftrightarrow> o_seen s k = Some u" using enumerates_lookup [OF old] by simp
    have seen: "fst (ospf_write (o_w s) cur Map.empty (o_st s)) = map_option on_iface \<circ> parseOSPFNbrs out"
      using ospf_write_maps [OF e(1), of "o_w s" Map.empty "o_st s"] e(2) by simp
    show ?thesis
      using Some x mem
      by (auto simp: ospf_reconcile_def ospf_cur_def ospf_leaves_def ospf_node_def split_beta Let_def
          ospf_delete_tree seen ospf_write_tree [OF e(1)] e(2) split: option.splits)
  qed (simp add: x ospf_reconcile_def ospf_cur_def)
next
  show "l \<notin> ospf_names \<Longrightarrow> ospf_leaves x k l = None" for l x k
    by (auto simp: ospf_leaves_def adj_leaves_dom split: option.splits)
qed

section \<open>Properties of the reconcile\<close>

definition ospf_round :: "ospf \<times> tree \<Rightarrow> ospf_input \<Rightarrow> ospf \<times> tree" where
  "ospf_round = round_step ospf_reconcile"

definition ospf_run_ok :: "ospf \<times> tree \<Rightarrow> ospf_input list \<Rightarrow> bool" where
  "ospf_run_ok = admissible ospf_round
     (\<lambda>st x. ospf_ok (fst st) x \<and> stable_ids (o_seen (fst st)) (ospf_cur x))"

text \<open>
  The OSPF subtree converges in one round: after any number of reconcile rounds in which
  commands may fail, routers come and go and their states and addresses change but no router
  changes its interface, the neighbours in the tree and their leaves are exactly those of the
  last successful reading, with the adjacency state as an OpenConfig enum.
\<close>

theorem ospf_tree_is_last_reading:
  assumes "ospf_run_ok (NewOSPF w, t) (xs @ [x])" and "fst x = Some out"
    and "\<And>k u l. t (''openconfig'', ospfNbrElems u k l) = None"
  shows "snd (foldl ospf_round (NewOSPF w, t) (xs @ [x])) (''openconfig'', ospfNbrElems iface rid l) =
    (case parseOSPFNbrs out rid of
       Some n \<Rightarrow> if on_iface n = iface then adj_leaves n l else None
     | None \<Rightarrow> None)"
proof -
  have c: "ospf_cur x = Some (map_option on_iface \<circ> parseOSPFNbrs out)" using assms(2) by (simp add: ospf_cur_def)
  have "synced ospf_node ospf_names (o_seen (NewOSPF w)) t"
    using assms(3) by (simp add: synced_def ospf_node_def)
  from ospf.rounds_exact [OF this _ c, of xs rid iface l] assms(1, 2) show ?thesis
    by (auto simp: ospf_run_ok_def ospf_round_def ospf_leaves_def ospf_node_def split: option.splits)
qed

text \<open>
  A router seen over another interface than before (a link moved, or the second of two
  parallel links answering first) keeps both neighbours: the old interface's entry is never
  deleted, however many rounds follow without it, and shows the state it last had.
\<close>

theorem ospf_moved_neighbor_stays:
  assumes "o_seen s rid = Some i" and "ospf_cur x = Some c" and "c rid = Some j" and "j \<noteq> i"
    and "admissible ospf_round (\<lambda>st x. ospf_ok (fst st) x) (s, t) (x # xs)"
    and "\<forall>y \<in> set xs. \<forall>c. ospf_cur y = Some c \<longrightarrow> c rid \<noteq> Some i"
  shows "snd (foldl ospf_round (s, t) (x # xs)) (''openconfig'', ospfNbrElems i rid l) =
    t (''openconfig'', ospfNbrElems i rid l)"
  using ospf.moved_strands [of s rid i x c j t xs l] assms by (simp add: ospf_round_def ospf_node_def)

text \<open>One router in the output of vtysh.\<close>

definition ospf_doc1 :: "string \<Rightarrow> string \<Rightarrow> string \<Rightarrow> ospf_doc" where
  "ospf_doc1 rid iface st =
     [(rid, [\<lparr>row_nbrState = st, row_converged = '''', row_ifaceName = iface @ '':10.0.0.1'',
              row_ifaceAddress = ''10.0.0.1''\<rparr>])]"

definition ospf_input1 :: "string \<Rightarrow> string \<Rightarrow> string \<Rightarrow> (string \<times> string) list \<Rightarrow> ospf_input" where
  "ospf_input1 rid iface st old =
     (Some (Some (ospf_doc1 rid iface st)),
      [(rid, \<lparr>on_iface = iface, on_addr = ''10.0.0.1'', on_state = st\<rparr>)], old)"

lemma parse_ospf_doc1:
  "CHR '':'' \<notin> set iface \<Longrightarrow>
   parseOSPFNbrs (Some (ospf_doc1 rid iface st)) =
     [rid \<mapsto> \<lparr>on_iface = iface, on_addr = ''10.0.0.1'', on_state = st\<rparr>]"
  using index_byte_append [of "CHR '':''" iface "''10.0.0.1''"]
  by (simp add: parseOSPFNbrs_def ospf_doc1_def row_nbr_def before_colon_def)

lemma ospf_ok_input1:
  "CHR '':'' \<notin> set iface \<Longrightarrow> enumerates old (o_seen s) \<Longrightarrow> ospf_ok s (ospf_input1 rid iface st old)"
  by (simp add: ospf_ok_def ospf_input1_def parse_ospf_doc1 enumerates_def)

lemma ospf_cur_input1:
  "CHR '':'' \<notin> set iface \<Longrightarrow> ospf_cur (ospf_input1 rid iface st old) = Some [rid \<mapsto> iface]"
  by (simp add: ospf_cur_def ospf_input1_def parse_ospf_doc1 fun_eq_iff)

theorem ospf_tree_is_last_reading_witness:
  "snd (foldl ospf_round (NewOSPF all_wired, Map.empty) ([] @ [ospf_input1 ''1.1.1.1'' ''eth0'' ''Full/DR'' []]))
     (''openconfig'', ospfNbrElems ''eth0'' ''1.1.1.1'' ''adjacency-state'') = Some (StringVal ''FULL'')"
proof -
  have "ospf_run_ok (NewOSPF all_wired, Map.empty) ([] @ [ospf_input1 ''1.1.1.1'' ''eth0'' ''Full/DR'' []])"
    by (simp add: ospf_run_ok_def ospf_ok_input1 stable_ids_def enumerates_def NewOSPF_def split: option.split)
  from ospf_tree_is_last_reading [OF this, of "Some (ospf_doc1 ''1.1.1.1'' ''eth0'' ''Full/DR'')" "''eth0''" "''1.1.1.1''"
      "''adjacency-state''"]
  show ?thesis
    by (simp add: ospf_input1_def parse_ospf_doc1 adj_leaves_def adjState_def split_n2_def)
qed

theorem ospf_moved_neighbor_stays_witness:
  "snd (foldl ospf_round ((NewOSPF all_wired)\<lparr>o_seen := [''1.1.1.1'' \<mapsto> ''eth0'']\<rparr>,
      [(''openconfig'', ospfNbrElems ''eth0'' ''1.1.1.1'' ''adjacency-state'') \<mapsto> StringVal ''FULL''])
      [ospf_input1 ''1.1.1.1'' ''eth1'' ''Full/DR'' [(''1.1.1.1'', ''eth0'')]])
     (''openconfig'', ospfNbrElems ''eth0'' ''1.1.1.1'' ''adjacency-state'') = Some (StringVal ''FULL'')"
proof -
  let ?x = "ospf_input1 ''1.1.1.1'' ''eth1'' ''Full/DR'' [(''1.1.1.1'', ''eth0'')]"
  let ?s = "(NewOSPF all_wired)\<lparr>o_seen := [''1.1.1.1'' \<mapsto> ''eth0'']\<rparr>"
  have c: "ospf_cur ?x = Some [''1.1.1.1'' \<mapsto> ''eth1'']" by (rule ospf_cur_input1) simp
  have ok: "ospf_ok ?s ?x" by (rule ospf_ok_input1) (simp_all add: enumerates_def)
  show ?thesis
    using ospf_moved_neighbor_stays [OF _ c, of ?s "''1.1.1.1''" "''eth0''" "''eth1''" _ "[]"] ok
    by simp
qed

section \<open>Events\<close>

text \<open>What a round reports about a router read, and about one remembered.\<close>

definition nbr_event ::
  "(string \<Rightarrow> string option) \<Rightarrow> string \<times> ospf_nbr \<Rightarrow> (string \<times> string \<times> string \<times> string \<times> bool) list" where
  "nbr_event sts x =
     (let (rid, n) = x; st = adjState (on_state n) in
      case sts rid of
        Some old \<Rightarrow>
          if old = st then []
          else [(''ospf'', ''adj-'' @ lc st, rid, ''if='' @ on_iface n @ '' '' @ old @ ''->'' @ st, True)]
      | None \<Rightarrow> [])"

definition gone_event ::
  "(string \<Rightarrow> ospf_nbr option) \<Rightarrow> string \<times> string \<Rightarrow> (string \<times> string \<times> string \<times> string \<times> bool) list" where
  "gone_event m x =
     (let (rid, iface) = x in
      if m rid = None then [(''ospf'', ''adj-down'', rid, ''if='' @ iface @ '' neighbor gone'', True)] else [])"

lemma ospf_write_events:
  assumes "w_cor w"
  shows "distinct (map fst xs) \<Longrightarrow>
    emissions (snd (snd (ospf_write w xs seen sts))) = concat (map (nbr_event sts) xs)"
proof (induction xs arbitrary: seen sts)
  case (Cons x xs)
  obtain rid n where x: "x = (rid, n)" by (cases x)
  have "map (nbr_event (sts(rid \<mapsto> adjState (on_state n)))) xs = map (nbr_event sts) xs"
    using Cons.prems x by (intro map_cong refl) (auto simp: nbr_event_def Let_def image_iff split: prod.splits)
  then have IH: "emissions (snd (snd (ospf_write w xs (seen(rid \<mapsto> on_iface n))
      (sts(rid \<mapsto> adjState (on_state n)))))) = concat (map (nbr_event sts) xs)"
    using Cons by (simp del: map_eq_conv)
  have "emissions (adj_change w sts rid n) = nbr_event sts (rid, n)"
    using assms by (simp add: adj_change_def emit_if_def nbr_event_def Let_def split: option.split)
  then show ?case by (simp add: x split_beta Let_def IH)
qed simp

lemma ospf_delete_events:
  "w_cor w \<Longrightarrow>
   emissions (snd (ospf_delete w (map_option on_iface \<circ> m) old sts)) = concat (map (gone_event m) old)"
  by (induction old arbitrary: sts) (auto simp: split_beta Let_def emit_if_def gone_event_def)

text \<open>
  The adjacency events of a reconcile round are exactly the differences between two
  readings, each reported once and as a root event: one for every router whose state differs
  from the one it had before the round, one \<^verbatim>\<open>adj-down\<close> for every router that is gone, and
  none for a router seen for the first time or unchanged.
\<close>

theorem ospf_round_events:
  assumes "ospf_ok s (Some out, cur, old)" and "w_cor (o_w s)"
  shows "emissions (snd (ospf_reconcile s (Some out, cur, old))) =
    concat (map (nbr_event (o_st s)) cur) @ concat (map (gone_event (parseOSPFNbrs out)) old)"
proof -
  have e: "distinct (map fst cur)" "map_of cur = parseOSPFNbrs out"
    using assms(1) by (simp_all add: ospf_ok_def enumerates_def)
  have "fst (ospf_write (o_w s) cur Map.empty (o_st s)) = map_option on_iface \<circ> parseOSPFNbrs out"
    using ospf_write_maps [OF e(1), of "o_w s" Map.empty "o_st s"] e(2) by simp
  then show ?thesis
    using ospf_write_events [OF assms(2) e(1)] ospf_delete_events [OF assms(2)]
    by (simp add: ospf_reconcile_def split_beta Let_def)
qed

theorem ospf_round_events_witness:
  "emissions (snd (ospf_reconcile
      ((NewOSPF all_wired)\<lparr>o_seen := [''2.2.2.2'' \<mapsto> ''eth0''], o_st := [''2.2.2.2'' \<mapsto> ''FULL'']\<rparr>)
      (ospf_input1 ''1.1.1.1'' ''eth1'' ''Full/DR'' [(''2.2.2.2'', ''eth0'')]))) =
   [(''ospf'', ''adj-down'', ''2.2.2.2'', ''if=eth0 neighbor gone'', True)]"
proof -
  let ?s = "(NewOSPF all_wired)\<lparr>o_seen := [''2.2.2.2'' \<mapsto> ''eth0''], o_st := [''2.2.2.2'' \<mapsto> ''FULL'']\<rparr>"
  have "ospf_ok ?s (ospf_input1 ''1.1.1.1'' ''eth1'' ''Full/DR'' [(''2.2.2.2'', ''eth0'')])"
    by (rule ospf_ok_input1) (simp_all add: enumerates_def)
  from ospf_round_events [OF this [unfolded ospf_input1_def]] show ?thesis
    by (simp add: ospf_input1_def NewOSPF_def all_wired_def parse_ospf_doc1 nbr_event_def gone_event_def)
qed

section \<open>The trigger\<close>

text \<open>\<^verbatim>\<open>signal\<close>: a non-blocking send on a channel of one slot.\<close>

definition ospf_signal :: "unit list \<Rightarrow> unit list" where
  "ospf_signal ch = nb_send 1 ch ()"

definition chan_recv :: "'e list \<Rightarrow> ('e \<times> 'e list) option" where
  "chan_recv ch = (case ch of [] \<Rightarrow> None | x # xs \<Rightarrow> Some (x, xs))"

interpretation trig: nb_channel 1 "\<lambda>ch _. ospf_signal ch" chan_recv "\<lambda>ch. ch"
  by unfold_locales (auto simp: ospf_signal_def chan_recv_def)

text \<open>\<^verbatim>\<open>Kick\<close>, from the reconnect hooks of the other planes, signals (and logs its reason).\<close>

definition Kick :: "string \<Rightarrow> unit list \<Rightarrow> unit list" where
  "Kick reason ch = ospf_signal ch"

text \<open>
  Whether the syslog reader signals on a datagram.
\<close>

definition syslog_signal :: "string \<Rightarrow> unit list \<Rightarrow> unit list" where
  "syslog_signal msg ch = (if contains_str (lc msg) ''ospf'' then ospf_signal ch else ch)"

text \<open>
  The worker takes a trigger, lets the burst settle, reads (\<^verbatim>\<open>vtysh\<close>), and applies what it
  read; signals may come at any moment.  \<open>tr_dirty\<close> is a ghost: a signal has come since the
  last reading.
\<close>

datatype worker = Waiting | Settling | Applying

record trigger =
  tr_chan :: "unit list"
  tr_worker :: worker
  tr_dirty :: bool

definition trigger0 :: trigger where
  "trigger0 = \<lparr>tr_chan = [], tr_worker = Waiting, tr_dirty = False\<rparr>"

inductive worker_step :: "trigger \<Rightarrow> trigger \<Rightarrow> bool" where
  take: "tr_worker s = Waiting \<Longrightarrow> chan_recv (tr_chan s) = Some (u, ch) \<Longrightarrow>
    worker_step s (s\<lparr>tr_chan := ch, tr_worker := Settling\<rparr>)"
| read_ospf: "tr_worker s = Settling \<Longrightarrow> worker_step s (s\<lparr>tr_worker := Applying, tr_dirty := False\<rparr>)"
| apply_read: "tr_worker s = Applying \<Longrightarrow> worker_step s (s\<lparr>tr_worker := Waiting\<rparr>)"

inductive trigger_step :: "trigger \<Rightarrow> trigger \<Rightarrow> bool" where
  by_worker: "worker_step s s' \<Longrightarrow> trigger_step s s'"
| by_signal: "trigger_step s (s\<lparr>tr_chan := ospf_signal (tr_chan s), tr_dirty := True\<rparr>)"

definition trigger_inv :: "trigger \<Rightarrow> bool" where
  "trigger_inv s \<longleftrightarrow> length (tr_chan s) \<le> 1 \<and>
     (tr_dirty s \<longrightarrow> tr_chan s \<noteq> [] \<or> tr_worker s = Settling)"

lemma trigger_inv_step:
  assumes "trigger_step s s'" and "trigger_inv s"
  shows "trigger_inv s'"
  using assms(1)
proof (cases rule: trigger_step.cases)
  case by_worker
  then show ?thesis
    using assms(2) by (cases rule: worker_step.cases)
      (auto simp: trigger_inv_def chan_recv_def split: list.splits)
next
  case by_signal
  with trig.bounded_send [of "tr_chan s"] assms(2) show ?thesis
    by (auto simp: trigger_inv_def ospf_signal_def nb_send_def)
qed

lemma trigger_reachable: "trigger_step\<^sup>*\<^sup>* trigger0 s \<Longrightarrow> trigger_inv s"
proof (induction rule: rtranclp_induct)
  case base
  show ?case by (simp add: trigger_inv_def trigger0_def)
next
  case (step s s')
  then show ?case by (blast intro: trigger_inv_step)
qed

lemma worker_reads:
  assumes "tr_worker s = Settling"
  shows "\<exists>s'. worker_step s s' \<and> \<not> tr_dirty s'"
  using worker_step.read_ospf [OF assms] by force

lemma worker_takes:
  assumes "tr_worker s = Waiting" and "tr_chan s \<noteq> []"
  shows "\<exists>s'. worker_step s s' \<and> tr_worker s' = Settling"
  using assms worker_step.take [of s "hd (tr_chan s)" "tl (tr_chan s)"]
  by (cases "tr_chan s") (auto simp: chan_recv_def)

text \<open>
  C33. No wake-up is lost: whatever the order in which the syslog reader, reconnects and the
  ticker signal and the worker runs, in every reachable state in which a signal has come since
  the last reading the worker alone gets to a new reading in at most three of its steps, and
  meanwhile at most one trigger is pending.
\<close>

theorem ospf_no_lost_signal:
  assumes "trigger_step\<^sup>*\<^sup>* trigger0 s" and "tr_dirty s"
  shows "\<exists>n s'. n \<le> 3 \<and> (worker_step ^^ n) s s' \<and> \<not> tr_dirty s' \<and> length (tr_chan s) \<le> 1"
proof -
  have inv: "trigger_inv s" using assms(1) by (rule trigger_reachable)
  then have len: "length (tr_chan s) \<le> 1" by (simp add: trigger_inv_def)
  show ?thesis
  proof (cases "tr_worker s")
    case Settling
    from worker_reads [OF this] obtain s' where s': "worker_step s s'" "\<not> tr_dirty s'" by blast
    then have "(worker_step ^^ 1) s s'" by (simp only: relpowp_1)
    with s' len show ?thesis
      by (intro exI [of _ 1] exI [of _ s'] conjI) simp_all
  next
    case Waiting
    with inv assms(2) have "tr_chan s \<noteq> []" by (auto simp: trigger_inv_def)
    from worker_takes [OF Waiting this] obtain s1 where 1: "worker_step s s1" "tr_worker s1 = Settling" by blast
    from worker_reads [OF 1(2)] obtain s' where "worker_step s1 s'" "\<not> tr_dirty s'" by blast
    with 1 have "(worker_step ^^ 2) s s'" by (auto simp: numeral_2_eq_2)
    with \<open>\<not> tr_dirty s'\<close> len show ?thesis by (intro exI [of _ 2] exI [of _ s']) simp
  next
    case Applying
    let ?s = "s\<lparr>tr_worker := Waiting\<rparr>"
    have 0: "worker_step s ?s" using Applying by (rule worker_step.apply_read)
    from inv assms(2) Applying have "tr_chan ?s \<noteq> []" by (auto simp: trigger_inv_def)
    from worker_takes [OF _ this] obtain s1 where 1: "worker_step ?s s1" "tr_worker s1 = Settling" by auto
    from worker_reads [OF 1(2)] obtain s' where "worker_step s1 s'" "\<not> tr_dirty s'" by blast
    with 0 1 have "(worker_step ^^ 3) s s'" by (auto simp: numeral_3_eq_3)
    with \<open>\<not> tr_dirty s'\<close> len show ?thesis by (intro exI [of _ 3] exI [of _ s']) simp
  qed
qed

theorem ospf_no_lost_signal_witness:
  "\<exists>n s'. n \<le> 3 \<and> (worker_step ^^ n) (trigger0\<lparr>tr_chan := [()], tr_dirty := True\<rparr>) s' \<and> \<not> tr_dirty s' \<and>
     length (tr_chan (trigger0\<lparr>tr_chan := [()], tr_dirty := True\<rparr>)) \<le> 1"
proof (rule ospf_no_lost_signal)
  have "trigger_step trigger0 (trigger0\<lparr>tr_chan := [()], tr_dirty := True\<rparr>)"
    using trigger_step.by_signal [of trigger0] by (simp add: trigger0_def ospf_signal_def nb_send_def)
  then show "trigger_step\<^sup>*\<^sup>* trigger0 (trigger0\<lparr>tr_chan := [()], tr_dirty := True\<rparr>)" by blast
qed simp

end
