(* ===== verification/NetParse.thy ===== *)
theory NetParse
  imports NetIP
begin

text \<open>
  The parsing half of Go's package \<^verbatim>\<open>net\<close>: \<^verbatim>\<open>ParseIP\<close>, \<^verbatim>\<open>ParseCIDR\<close>,
  \<^verbatim>\<open>CIDRMask\<close>, \<^verbatim>\<open>IP.Mask\<close>, \<^verbatim>\<open>IPMask.Size\<close> and \<^verbatim>\<open>IPNet.Contains\<close>,
  which the path tracer reads the AFT with; then that a prefix the ingesters print is read
  back as the network it stands for.
\<close>

section \<open>Addresses\<close>

text \<open>A field of a dotted address: one to three digits, no leading zero, at most 255.\<close>

definition v4_field :: "string \<Rightarrow> byte option" where
  "v4_field s =
     (if s = [] \<or> (hd s = CHR ''0'' \<and> length s \<noteq> 1) then None
      else case parse_digits 0 s of
             None \<Rightarrow> None
           | Some n \<Rightarrow> if n \<le> 255 then Some (word_of_nat n) else None)"

fun all_some :: "'a option list \<Rightarrow> 'a list option" where
  "all_some [] = Some []"
| "all_some (None # xs) = None"
| "all_some (Some x # xs) = map_option (\<lambda>ys. x # ys) (all_some xs)"

definition parse_v4 :: "string \<Rightarrow> bytes option" where
  "parse_v4 s =
     (let fs = split_on CHR ''.'' s in if length fs = 4 then all_some (map v4_field fs) else None)"

definition hex_val :: "char \<Rightarrow> nat option" where
  "hex_val c =
     (let n = of_char c :: nat in
      if 48 \<le> n \<and> n \<le> 57 then Some (n - 48)
      else if 97 \<le> n \<and> n \<le> 102 then Some (n - 87)
      else if 65 \<le> n \<and> n \<le> 70 then Some (n - 55)
      else None)"

definition hex_num :: "string \<Rightarrow> nat" where
  "hex_num s = foldl (\<lambda>acc c. 16 * acc + (case hex_val c of Some d \<Rightarrow> d | None \<Rightarrow> 0)) 0 s"

text \<open>
  The group loop of \<^verbatim>\<open>parseIPv6\<close>, at most eight turns: what is left of the text, the
  bytes so far and the position of the ellipsis; \<open>None\<close> is an error.
\<close>

fun v6_loop :: "nat \<Rightarrow> string \<Rightarrow> bytes \<Rightarrow> nat option \<Rightarrow> (string \<times> bytes \<times> nat option) option" where
  "v6_loop 0 s b ell = Some (s, b, ell)"
| "v6_loop (Suc k) s b ell =
     (let h = takeWhile (\<lambda>c. hex_val c \<noteq> None) s; s' = drop (length h) s in
      if h = [] \<or> 4 < length h then None
      else if s' \<noteq> [] \<and> hd s' = CHR ''.'' then
        (if (ell = None \<and> length b \<noteq> 12) \<or> 16 < length b + 4 then None
         else map_option (\<lambda>f. ([], b @ f, ell)) (parse_v4 s))
      else
        let n = hex_num h; b' = b @ [word_of_nat (n div 256), word_of_nat n] in
        if s' = [] then Some ([], b', ell)
        else if hd s' \<noteq> CHR '':'' \<or> length s' = 1 then None
        else
          let s'' = tl s' in
          if hd s'' = CHR '':'' then
            (if ell \<noteq> None then None
             else if tl s'' = [] then Some ([], b', Some (length b'))
             else v6_loop k (tl s'') b' (Some (length b')))
          else v6_loop k s'' b' ell)"

definition parse_v6 :: "string \<Rightarrow> bytes option" where
  "parse_v6 s =
     (let lead = has_prefix s ''::''; s' = (if lead then drop 2 s else s) in
      if lead \<and> s' = [] then Some (replicate 16 0)
      else case v6_loop 8 s' [] (if lead then Some 0 else None) of
             None \<Rightarrow> None
           | Some (rest, b, ell) \<Rightarrow>
               if rest \<noteq> [] then None
               else if length b < 16 then
                 (case ell of
                    None \<Rightarrow> None
                  | Some e \<Rightarrow> Some (take e b @ replicate (16 - length b) 0 @ drop e b))
               else if ell \<noteq> None then None
               else Some b)"

text \<open>
  \<^verbatim>\<open>netip.ParseAddr\<close>, addresses with a zone left out (both callers reject them): the
  first of the characters dot, colon and percent sign decides the family.
\<close>

definition ParseAddr :: "string \<Rightarrow> bytes option" where
  "ParseAddr s =
     (case filter (\<lambda>c. c \<in> {CHR ''.'', CHR '':'', CHR ''%''}) s of
        [] \<Rightarrow> None
      | c # _ \<Rightarrow>
          if c = CHR ''.'' then parse_v4 s
          else if c = CHR '':'' then (if CHR ''%'' \<in> set s then None else parse_v6 s)
          else None)"

definition as16 :: "bytes \<Rightarrow> ip" where
  "as16 b = (if length b = 4 then replicate 10 0 @ [255, 255] @ b else b)"

text \<open>\<^verbatim>\<open>ParseIP\<close>: sixteen bytes, or nil.\<close>

definition ParseIP :: "string \<Rightarrow> ip" where
  "ParseIP s = (case ParseAddr s of None \<Rightarrow> [] | Some b \<Rightarrow> as16 b)"

section \<open>Networks\<close>

definition ones_byte :: "nat \<Rightarrow> byte" where
  "ones_byte k = word_of_nat (256 - 2 ^ (8 - k))"

definition CIDRMask :: "nat \<Rightarrow> nat \<Rightarrow> bytes" where
  "CIDRMask n bits = map (\<lambda>i. ones_byte (min 8 (n - 8 * i))) [0 ..< bits div 8]"

text \<open>\<^verbatim>\<open>IPMask.Size\<close>'s first result.\<close>

definition mask_ones :: "bytes \<Rightarrow> nat" where
  "mask_ones m = (case mask_length m of None \<Rightarrow> 0 | Some n \<Rightarrow> n)"

definition and_bytes :: "bytes \<Rightarrow> bytes \<Rightarrow> bytes" where
  "and_bytes a m = map2 (\<lambda>x y. x AND y) a m"

definition ip_mask :: "ip \<Rightarrow> bytes \<Rightarrow> ip" where
  "ip_mask a m =
     (let m = (if length m = 16 \<and> length a = 4 \<and> take 12 m = replicate 12 255 then drop 12 m else m);
          a = (if length m = 4 \<and> v4_in_v6 a then drop 12 a else a) in
      if length a = length m then and_bytes a m else [])"

text \<open>
  \<^verbatim>\<open>ParseCIDR\<close>'s second result.  The length of the prefix is a run of digits
  (\<^verbatim>\<open>dtoi\<close>) up to the end of the text.
\<close>

definition ParseCIDR :: "string \<Rightarrow> ipnet option" where
  "ParseCIDR s =
     (case split_n2 CHR ''/'' s of
        [host, plen] \<Rightarrow>
          (case ParseAddr host of
             None \<Rightarrow> None
           | Some b \<Rightarrow>
               (case parse_digits 0 plen of
                  None \<Rightarrow> None
                | Some n \<Rightarrow>
                    if plen = [] \<or> 8 * length b < n then None
                    else
                      let m = CIDRMask n (8 * length b) in
                      Some \<lparr>net_ip = ip_mask (as16 b) m, net_mask = m\<rparr>))
      | _ \<Rightarrow> None)"

text \<open>\<^verbatim>\<open>networkNumberAndMask\<close> and \<^verbatim>\<open>IPNet.Contains\<close>.\<close>

definition net_number :: "ipnet \<Rightarrow> bytes \<times> bytes" where
  "net_number n =
     (let a = (if to4 (net_ip n) \<noteq> [] then to4 (net_ip n)
               else if length (net_ip n) = 16 then net_ip n else []);
          m = net_mask n in
      if a = [] then ([], [])
      else if length m = 4 then (if length a \<noteq> 4 then ([], []) else (a, m))
      else if length m = 16 then (a, if length a = 4 then drop 12 m else m)
      else ([], []))"

definition Contains :: "ipnet \<Rightarrow> ip \<Rightarrow> bool" where
  "Contains n a =
     (let (nn, m) = net_number n; a = (if to4 a \<noteq> [] then to4 a else a) in
      length a = length nn \<and> and_bytes nn m = and_bytes a m)"

section \<open>Reading back what the ingesters print\<close>

lemma dec_head: "hd (dec n) = CHR ''0'' \<longleftrightarrow> n = 0"
proof (induction n rule: dec.induct)
  case (1 n)
  show ?case
  proof (cases "n < 10")
    case True
    then have "n \<in> {0, 1, 2, 3, 4, 5, 6, 7, 8, 9}" by auto
    then show ?thesis by (elim insertE) (simp_all add: dec.simps digit_def)
  next
    case False
    with 1 show ?thesis by (simp add: dec.simps [of n])
  qed
qed

lemma dec_0: "dec 0 = ''0''"
  by (simp add: dec.simps digit_def)

lemma v4_field_udec: "v4_field (udec (b :: byte)) = Some b"
proof -
  have "unat b < 2 ^ LENGTH(8)" by (rule unsigned_less)
  then have "unat b \<le> 255" by simp
  moreover have "\<not> (hd (dec (unat b)) = CHR ''0'' \<and> length (dec (unat b)) \<noteq> 1)"
    by (cases "unat b = 0") (auto simp: dec_head dec_0)
  ultimately show ?thesis by (simp add: v4_field_def udec_def parse_digits_dec)
qed

lemma all_some_map: "\<forall>x \<in> set xs. f x = Some (g x) \<Longrightarrow> all_some (map f xs) = Some (map g xs)"
  by (induction xs) auto

lemma split_dotted: "b \<noteq> [] \<Longrightarrow> split_on CHR ''.'' (dotted b) = map udec b"
  unfolding dotted_def using dot_not_digit by (intro split_join) (auto simp: udec_def)

lemma parse_v4_dotted: "length b = 4 \<Longrightarrow> parse_v4 (dotted b) = Some b"
proof -
  assume b: "length b = 4"
  then have "split_on CHR ''.'' (dotted b) = map udec b" by (intro split_dotted) auto
  moreover have "all_some (map v4_field (map udec b)) = Some b"
    using all_some_map [of b "v4_field \<circ> udec" id] by (simp add: v4_field_udec)
  ultimately show ?thesis using b by (simp add: parse_v4_def)
qed

lemma dotted_chars:
  assumes "length b = 4"
  shows "filter (\<lambda>c. c \<in> {CHR ''.'', CHR '':'', CHR ''%''}) (dotted b) = ''...''"
proof -
  obtain w x y z where b: "b = [w, x, y, z]" using assms by (auto simp: length_Suc_conv numeral_eq_Suc)
  have "filter (\<lambda>c. c \<in> {CHR ''.'', CHR '':'', CHR ''%''}) (udec v) = []" for v :: byte
    using dec_digits [of "unat v"] by (auto simp: filter_empty_conv udec_def is_digit_def)
  then show ?thesis by (simp add: b dotted_def)
qed

lemma ParseAddr_dotted: "length b = 4 \<Longrightarrow> ParseAddr (dotted b) = Some b"
  unfolding ParseAddr_def by (simp only: dotted_chars parse_v4_dotted) simp

lemma ParseIP_dotted: "length b = 4 \<Longrightarrow> ParseIP (ip_string b) = as16 b"
  by (simp add: ParseIP_def ip_string_v4 ParseAddr_dotted)

lemma to4_as16 [simp]: "length b = 4 \<Longrightarrow> to4 (as16 b) = b" "to4 (to4 b) = to4 b"
  by (auto simp: to4_def as16_def v4_in_v6_def numeral_eq_Suc)

text \<open>An address as its bits, the most significant first.\<close>

definition addr_bits :: "bytes \<Rightarrow> bool list" where
  "addr_bits b = concat (map bits_of b)"

lemma bits_of_length [simp]: "length (bits_of b) = 8"
  by (simp add: bits_of_def)

lemma addr_bits_simps [simp]:
  "addr_bits [] = []" "addr_bits (x # b) = bits_of x @ addr_bits b"
  by (simp_all add: addr_bits_def)

lemma addr_bits_length [simp]: "length (addr_bits b) = 8 * length b"
  by (induction b) simp_all

lemma bits_of_inject [simp]: "bits_of a = bits_of b \<longleftrightarrow> a = b"
proof
  assume "bits_of a = bits_of b"
  then have "bit a i = bit b i" if "i < 8" for i
    using that by (auto simp: bits_of_def)
  then show "a = b" by (intro bit_word_eqI) simp
qed simp

lemma addr_bits_inject: "length a = length b \<Longrightarrow> addr_bits a = addr_bits b \<longleftrightarrow> a = b"
  by (induction a b rule: list_induct2) auto

lemma bits_of_and: "bits_of (a AND b) = map2 (\<and>) (bits_of a) (bits_of b)"
  by (simp add: bits_of_def bit_and_iff list_eq_iff_nth_eq)

lemma addr_bits_and:
  "length a = length m \<Longrightarrow> addr_bits (and_bytes a m) = map2 (\<and>) (addr_bits a) (addr_bits m)"
  by (induction a m rule: list_induct2) (simp_all add: and_bytes_def bits_of_and)

lemma and_bytes_length [simp]: "length (and_bytes a m) = min (length a) (length m)"
  by (simp add: and_bytes_def)

lemma CIDRMask_length [simp]: "length (CIDRMask n b) = b div 8"
  by (simp add: CIDRMask_def)

lemma CIDRMask_bits: "n \<le> 32 \<Longrightarrow> addr_bits (CIDRMask n 32) = replicate n True @ replicate (32 - n) False"
proof -
  assume "n \<le> 32"
  then have "n \<in> set [0 ..< 33]" by simp
  moreover have "\<forall>n \<in> set [0 ..< 33]. addr_bits (CIDRMask n 32) = replicate n True @ replicate (32 - n) False"
    by code_simp
  ultimately show ?thesis by blast
qed

lemma mask_length_bits:
  "addr_bits m = replicate n True @ replicate k False \<Longrightarrow> mask_length m = Some n"
  by (simp add: mask_length_def Let_def flip: addr_bits_def) (simp add: takeWhile_append)

lemma map2_and_mask:
  "length xs = n + k \<Longrightarrow> map2 (\<and>) xs (replicate n True @ replicate k False) = take n xs @ replicate k False"
proof (induction n arbitrary: xs)
  case 0
  then show ?case by (induction k arbitrary: xs) (auto simp: length_Suc_conv)
next
  case (Suc n)
  then show ?case by (cases xs) auto
qed

lemma masked_eq:
  assumes "length a = 4" and "length b = 4" and "n \<le> 32"
  shows "and_bytes a (CIDRMask n 32) = and_bytes b (CIDRMask n 32) \<longleftrightarrow>
    take n (addr_bits a) = take n (addr_bits b)"
proof -
  have "addr_bits (and_bytes x (CIDRMask n 32)) = take n (addr_bits x) @ replicate (32 - n) False"
    if "length x = 4" for x
    using that assms(3) by (simp add: addr_bits_and CIDRMask_bits map2_and_mask)
  then show ?thesis using assms by (simp flip: addr_bits_inject)
qed

lemma and_bytes_idem: "and_bytes (and_bytes a m) m = and_bytes a m"
  by (simp add: and_bytes_def list_eq_iff_nth_eq)

text \<open>The prefix of a route, printed and parsed, and what it contains.\<close>

lemma cidr_split: "length a = 4 \<Longrightarrow> split_n2 CHR ''/'' (cidr a n) = [ip_string a, dec n]"
  by (simp add: split_n2_def cidr_def ip_string_v4 index_byte_append slash_not_dotted)

lemma ParseCIDR_cidr:
  assumes "length a = 4" and "n \<le> 32"
  shows "ParseCIDR (cidr a n) =
    Some \<lparr>net_ip = and_bytes a (CIDRMask n 32), net_mask = CIDRMask n 32\<rparr>"
proof -
  have "ip_mask (as16 a) (CIDRMask n 32) = and_bytes a (CIDRMask n 32)"
    using assms(1) by (simp add: ip_mask_def as16_def v4_in_v6_def)
  then show ?thesis
    using assms by (simp add: ParseCIDR_def cidr_split ip_string_v4 ParseAddr_dotted parse_digits_dec Let_def)
qed

lemma Contains_cidr:
  assumes "length a = 4" and "n \<le> 32" and "length d = 4" and "ParseCIDR (cidr a n) = Some net"
  shows "Contains net d \<longleftrightarrow> take n (addr_bits a) = take n (addr_bits d)"
    and "mask_ones (net_mask net) = n"
proof -
  have net: "net = \<lparr>net_ip = and_bytes a (CIDRMask n 32), net_mask = CIDRMask n 32\<rparr>"
    using assms ParseCIDR_cidr by simp
  have "to4 (and_bytes a (CIDRMask n 32)) = and_bytes a (CIDRMask n 32)" "and_bytes a (CIDRMask n 32) \<noteq> []"
    "to4 d = d" "d \<noteq> []"
    using assms by (auto simp: to4_def and_bytes_def CIDRMask_def)
  then show "Contains net d \<longleftrightarrow> take n (addr_bits a) = take n (addr_bits d)"
    using assms by (simp add: net Contains_def net_number_def and_bytes_idem masked_eq Let_def)
  show "mask_ones (net_mask net) = n"
    using CIDRMask_bits [OF assms(2)] by (simp add: net mask_ones_def mask_length_bits)
qed

end
