(* ===== verification/NetlinkIngest.thy ===== *)
theory NetlinkIngest
  imports NetParse Effects Simulation
begin

text \<open>
  \<^verbatim>\<open>internal/ingest/netlink.go\<close>: the kernel's own testimony, from the messages and
  dumps of the netlink library, whose decoded structures are the inputs: routes, links, bridge
  FDB entries, the MPLS table, addresses and counters.
\<close>

section \<open>Paths\<close>

definition ifaceElems :: "string \<Rightarrow> string \<Rightarrow> path_elem list" where
  "ifaceElems name leaf = with_leaf [el ''interfaces'', elk ''interface'' [(''name'', name)]] leaf"

definition counterUpdate :: "string \<Rightarrow> string \<Rightarrow> 64 word \<Rightarrow> update" where
  "counterUpdate name leaf v =
     \<lparr>u_path = path_of [el ''interfaces'', elk ''interface'' [(''name'', name)], el ''state'',
        el ''counters'', el leaf],
      u_val = uintVal v\<rparr>"

definition fdbElems :: "string \<Rightarrow> string \<Rightarrow> string \<Rightarrow> path_elem list" where
  "fdbElems mac vlan leaf =
     with_leaf
       [el ''network-instances'', elk ''network-instance'' [(''name'', ''default'')], el ''fdb'',
        el ''mac-table'', el ''entries'', elk ''entry'' [(''mac-address'', mac), (''vlan'', vlan)]]
       leaf"

definition mplsElems :: "32 word \<Rightarrow> string \<Rightarrow> path_elem list" where
  "mplsElems label leaf =
     with_leaf [el ''mpls'', el ''lfib'', elk ''entry'' [(''label'', udec label)]] leaf"

definition addrElems :: "string \<Rightarrow> string \<Rightarrow> string \<Rightarrow> path_elem list" where
  "addrElems ifname ip leaf =
     with_leaf
       [el ''interfaces'', elk ''interface'' [(''name'', ifname)], el ''subinterfaces'',
        elk ''subinterface'' [(''index'', ''0'')], el ''ipv4'', el ''addresses'',
        elk ''address'' [(''ip'', ip)]]
       leaf"

definition routeElems :: "string \<Rightarrow> string \<Rightarrow> string \<Rightarrow> path_elem list" where
  "routeElems pfx table leaf =
     with_leaf
       [el ''kernel-fib'', el ''routes'', elk ''route'' [(''prefix'', pfx), (''table'', table)]] leaf"

text \<open>\<^verbatim>\<open>intsCSV\<close>: the loop with its index.\<close>

definition intsCSV :: "int list \<Rightarrow> string" where
  "intsCSV v =
     foldl (\<lambda>s (i, x). (if 0 < i then s @ '','' else s) @ sdec x) [] (zip [0 ..< length v] v)"

section \<open>Kernel routes\<close>

record nl_route =
  kr_family :: int
  kr_dst :: "ipnet option"
  kr_gw :: ip
  kr_table :: int
  kr_proto :: int

record route_update =
  ru_type :: nat
  ru_route :: nl_route

definition routePrefix :: "nl_route \<Rightarrow> string" where
  "routePrefix r =
     (case kr_dst r of
        None \<Rightarrow> if kr_family r = 10 then ''::/0'' else ''0.0.0.0/0''
      | Some d \<Rightarrow> ipnet_string d)"

definition routeProto :: "int \<Rightarrow> string" where
  "routeProto p =
     (if p = 2 then ''kernel''
      else if p = 3 then ''boot''
      else if p = 4 then ''static''
      else if p = 11 then ''zebra''
      else if p = 186 then ''bgp''
      else if p = 188 then ''ospf''
      else sdec p)"

text \<open>The body of \<^verbatim>\<open>routeLoop\<close>.\<close>

definition route_event :: "wiring \<Rightarrow> route_update \<Rightarrow> effect list" where
  "route_event w u =
     (let r = ru_route u in
      if kr_family r \<noteq> 2 \<and> kr_family r \<noteq> 10 then []
      else
        let pfx = routePrefix r in
        if pfx = [] then []
        else
          let table = sdec (kr_table r) in
          if ru_type u = 25 then
            [CacheUpdate ''frr'' [] [path_of (routeElems pfx table [])]] @
            emit_if w ''netlink'' ''kernel-route-del'' pfx (''table='' @ table) False @
            observe_if w pfx Kernel False (''table='' @ table)
          else
            let proto = routeProto (kr_proto r);
                gw = (if kr_gw r \<noteq> [] then ip_string (kr_gw r) else ''-'');
                detail = ''proto='' @ proto @ '' nh='' @ gw @ '' table='' @ table in
            [CacheUpdate ''frr''
               [leafUpdate (routeElems pfx table ''next-hop'') gw,
                leafUpdate (routeElems pfx table ''protocol'') proto] []] @
            emit_if w ''netlink'' ''kernel-route-add'' pfx detail False @
            observe_if w pfx Kernel True detail)"

definition routeLoop :: "wiring \<Rightarrow> route_update list \<Rightarrow> effect list" where
  "routeLoop w us = concat (map (route_event w) us)"

section \<open>Links\<close>

datatype oper_state =
    OperUnknown | OperNotPresent | OperDown | OperLowerLayerDown | OperTesting | OperDormant | OperUp
  | OperOther nat

definition operStatus :: "oper_state \<Rightarrow> string" where
  "operStatus s =
     (case s of
        OperUp \<Rightarrow> ''UP''
      | OperDown \<Rightarrow> ''DOWN''
      | OperLowerLayerDown \<Rightarrow> ''LOWER_LAYER_DOWN''
      | OperDormant \<Rightarrow> ''DORMANT''
      | OperTesting \<Rightarrow> ''TESTING''
      | OperNotPresent \<Rightarrow> ''NOT_PRESENT''
      | _ \<Rightarrow> ''UNKNOWN'')"

record link_stats =
  ls_rxBytes :: "64 word"
  ls_txBytes :: "64 word"
  ls_rxPackets :: "64 word"
  ls_txPackets :: "64 word"
  ls_rxErrors :: "64 word"
  ls_txErrors :: "64 word"
  ls_rxDropped :: "64 word"
  ls_txDropped :: "64 word"

record link =
  lk_name :: string
  lk_flags :: "32 word"
  lk_oper :: oper_state
  lk_type :: string
  lk_index :: int
  lk_mtu :: int
  lk_stats :: "link_stats option"

definition writeLinkState :: "link \<Rightarrow> effect list" where
  "writeLinkState l =
     (let n = lk_name l; admin = (if lk_flags l AND 1 \<noteq> 0 then ''UP'' else ''DOWN'') in
      [CacheUpdate ''openconfig''
         [leafUpdate (ifaceElems n ''name'') n,
          leafUpdate (ifaceElems n ''admin-status'') admin,
          leafUpdate (ifaceElems n ''oper-status'') (operStatus (lk_oper l)),
          leafUpdate (ifaceElems n ''type'') (lk_type l),
          \<lparr>u_path = path_of (ifaceElems n ''ifindex''), u_val = uintVal (word_of_int (lk_index l))\<rparr>,
          \<lparr>u_path = path_of (ifaceElems n ''mtu''), u_val = uintVal (word_of_int (lk_mtu l))\<rparr>] []])"

text \<open>The body of \<^verbatim>\<open>linkLoop\<close>: message type and link.\<close>

definition link_event :: "wiring \<Rightarrow> nat \<times> link \<Rightarrow> effect list" where
  "link_event w u =
     (let (ty, l) = u; n = lk_name l in
      if ty = 17 then
        CacheUpdate ''openconfig'' [] [path_of (ifaceElems n [])] #
        emit_if w ''netlink'' ''link-down'' n ''link removed'' True
      else
        let oper = operStatus (lk_oper l) in
        writeLinkState l @
        emit_if w ''netlink'' (if oper = ''UP'' then ''link-up'' else ''link-down'') n (''oper='' @ oper) True)"

definition linkLoop :: "wiring \<Rightarrow> (nat \<times> link) list \<Rightarrow> effect list" where
  "linkLoop w us = concat (map (link_event w) us)"

section \<open>Bridge FDB\<close>

record neigh =
  ne_family :: int
  ne_mac :: bytes
  ne_vlan :: int
  ne_link :: int

definition isUnicastMAC :: "bytes \<Rightarrow> bool" where
  "isUnicastMAC addr \<longleftrightarrow> length addr = 6 \<and> addr ! 0 AND 1 = 0"

text \<open>\<open>by_index\<close> is \<^verbatim>\<open>netlink.LinkByIndex\<close>: the name of an interface, \<open>None\<close> on error.\<close>

type_synonym by_index = "int \<Rightarrow> string option"

definition fdb_write :: "by_index \<Rightarrow> neigh \<Rightarrow> effect list" where
  "fdb_write by_index ne =
     (let mac = mac_string (ne_mac ne); vlan = sdec (ne_vlan ne);
          ifName = (case by_index (ne_link ne) of Some n \<Rightarrow> n | None \<Rightarrow> []) in
      [CacheUpdate ''openconfig''
         [leafUpdate (fdbElems mac vlan ''mac-address'') mac,
          leafUpdate (fdbElems mac vlan ''interface'') ifName] []])"

definition neigh_event :: "by_index \<Rightarrow> nat \<times> neigh \<Rightarrow> effect list" where
  "neigh_event by_index u =
     (let (ty, ne) = u in
      if ne_family ne \<noteq> 7 \<or> \<not> isUnicastMAC (ne_mac ne) then []
      else if ty = 29 then
        [CacheUpdate ''openconfig'' []
           [path_of (fdbElems (mac_string (ne_mac ne)) (sdec (ne_vlan ne)) [])]]
      else fdb_write by_index ne)"

definition snapshotFDB :: "by_index \<Rightarrow> neigh list option \<Rightarrow> effect list" where
  "snapshotFDB by_index neighs =
     (case neighs of
        None \<Rightarrow> []
      | Some ns \<Rightarrow>
          concat (map (\<lambda>ne. if isUnicastMAC (ne_mac ne) then fdb_write by_index ne else []) ns))"

section \<open>Snapshots\<close>

record mpls_route =
  mr_dst :: "int option"
  mr_newdst :: "int list option"
  mr_via :: "bytes option"
  mr_gw :: ip
  mr_link :: int

definition mpls_write :: "by_index \<Rightarrow> mpls_route \<Rightarrow> effect list" where
  "mpls_write by_index r =
     (case mr_dst r of
        None \<Rightarrow> []
      | Some d \<Rightarrow>
          let label = word_of_int d;
              out = (case mr_newdst r of Some ls \<Rightarrow> intsCSV ls | None \<Rightarrow> []);
              nh = (case mr_via r of
                      Some (b # bs) \<Rightarrow> ip_string (b # bs)
                    | _ \<Rightarrow> if mr_gw r \<noteq> [] then ip_string (mr_gw r) else []);
              iface = (if 0 < mr_link r then (case by_index (mr_link r) of Some n \<Rightarrow> n | None \<Rightarrow> [])
                       else []) in
          [CacheUpdate ''frr''
             [leafUpdate (mplsElems label ''in-label'') (udec label),
              leafUpdate (mplsElems label ''out-label'') out,
              leafUpdate (mplsElems label ''next-hop'') nh,
              leafUpdate (mplsElems label ''interface'') iface] []])"

definition snapshotMPLS :: "by_index \<Rightarrow> mpls_route list option \<Rightarrow> effect list" where
  "snapshotMPLS by_index routes =
     (case routes of None \<Rightarrow> [] | Some rs \<Rightarrow> concat (map (mpls_write by_index) rs))"

definition addr_write :: "string \<Rightarrow> ipnet option \<Rightarrow> effect list" where
  "addr_write name a =
     (case a of
        None \<Rightarrow> []
      | Some n \<Rightarrow>
          let ip = ip_string (net_ip n) in
          [CacheUpdate ''openconfig''
             [leafUpdate (addrElems name ip ''ip'') ip,
              leafUpdate (addrElems name ip ''prefix-length'') (dec (mask_ones (net_mask n)))] []])"

text \<open>\<open>addrs\<close> is \<^verbatim>\<open>netlink.AddrList\<close>: the IPv4 addresses of a link, \<open>None\<close> on error.\<close>

definition snapshotAddrs :: "(link \<Rightarrow> ipnet option list option) \<Rightarrow> link list option \<Rightarrow> effect list" where
  "snapshotAddrs addrs links =
     (case links of
        None \<Rightarrow> []
      | Some ls \<Rightarrow>
          concat (map (\<lambda>l. case addrs l of
              None \<Rightarrow> [] | Some as \<Rightarrow> concat (map (addr_write (lk_name l)) as)) ls))"

definition sampleCounters :: "link list option \<Rightarrow> effect list" where
  "sampleCounters links =
     (case links of
        None \<Rightarrow> []
      | Some ls \<Rightarrow>
          concat (map (\<lambda>l. case lk_stats l of
              None \<Rightarrow> []
            | Some s \<Rightarrow>
                let n = lk_name l in
                [CacheUpdate ''openconfig''
                   [counterUpdate n ''in-octets'' (ls_rxBytes s),
                    counterUpdate n ''out-octets'' (ls_txBytes s),
                    counterUpdate n ''in-pkts'' (ls_rxPackets s),
                    counterUpdate n ''out-pkts'' (ls_txPackets s),
                    counterUpdate n ''in-errors'' (ls_rxErrors s),
                    counterUpdate n ''out-errors'' (ls_txErrors s),
                    counterUpdate n ''in-discards'' (ls_rxDropped s),
                    counterUpdate n ''out-discards'' (ls_txDropped s)] []]) ls))"

text \<open>What the netlink library answers at one moment.\<close>

record dumps =
  d_links :: "link list option"
  d_neighs :: "neigh list option"
  d_mpls :: "mpls_route list option"
  d_addrs :: "link \<Rightarrow> ipnet option list option"
  d_by_index :: by_index

definition snapshot :: "dumps \<Rightarrow> effect list" where
  "snapshot d =
     (case d_links d of
        None \<Rightarrow> []
      | Some ls \<Rightarrow>
          concat (map writeLinkState ls) @ sampleCounters (d_links d) @
          snapshotFDB (d_by_index d) (d_neighs d) @ snapshotMPLS (d_by_index d) (d_mpls d) @
          snapshotAddrs (d_addrs d) (d_links d))"

text \<open>One tick of \<^verbatim>\<open>counterLoop\<close>.\<close>

definition counter_tick :: "dumps \<Rightarrow> effect list" where
  "counter_tick d =
     sampleCounters (d_links d) @ snapshotMPLS (d_by_index d) (d_mpls d) @
     snapshotAddrs (d_addrs d) (d_links d)"

section \<open>The kernel's routes in the tree\<close>

lemma routeElems_eq [simp]:
  "routeElems p tb l = routeElems p' tb' l' \<longleftrightarrow> p = p' \<and> tb = tb' \<and> l = l'"
  by (auto simp: routeElems_def)

lemma routeElems_below [simp]:
  "below (routeElems p tb []) (routeElems p' tb' l) \<longleftrightarrow> p = p' \<and> tb = tb'"
  by (auto simp: routeElems_def below_def with_leaf_def)

text \<open>The update is about a route of this prefix and table.\<close>

definition about_route :: "string \<Rightarrow> string \<Rightarrow> route_update \<Rightarrow> bool" where
  "about_route p tb u \<longleftrightarrow>
     kr_family (ru_route u) \<in> {2, 10} \<and> routePrefix (ru_route u) = p \<and> p \<noteq> [] \<and>
     sdec (kr_table (ru_route u)) = tb"

text \<open>What an update leaves of the two leaves of its route.\<close>

definition route_leaf :: "route_update \<Rightarrow> string \<Rightarrow> typed_value option" where
  "route_leaf u l =
     (if ru_type u = 25 then None
      else if l = ''next-hop''
        then Some (StringVal (if kr_gw (ru_route u) \<noteq> [] then ip_string (kr_gw (ru_route u)) else ''-''))
      else Some (StringVal (routeProto (kr_proto (ru_route u)))))"

lemma route_event_tree:
  assumes "l \<in> {''next-hop'', ''protocol''}"
  shows "tree_effects t (route_event w u) (''frr'', routeElems p tb l) =
    (if about_route p tb u then route_leaf u l else t (''frr'', routeElems p tb l))"
  using assms
  by (auto simp: route_event_def about_route_def route_leaf_def Let_def put_tree_ups put_tree_dels
      del_paths_lookup)

text \<open>
  The kernel-FIB subtree shows, for every prefix and table, what the last message about
  that route said: its gateway and protocol, or nothing once it is deleted; routes of the same
  prefix in other tables, other prefixes and other address families do not interfere.
\<close>

theorem kernel_fib_is_last_update:
  assumes "l \<in> {''next-hop'', ''protocol''}"
  shows "tree_effects t (routeLoop w us) (''frr'', routeElems p tb l) =
    (case find (about_route p tb) (rev us) of
       None \<Rightarrow> t (''frr'', routeElems p tb l) | Some u \<Rightarrow> route_leaf u l)"
proof (induction us rule: rev_induct)
  case Nil
  show ?case by (simp add: routeLoop_def)
next
  case (snoc u us)
  then show ?case using route_event_tree [OF assms] by (simp add: routeLoop_def)
qed

definition demo_kroute :: "nat \<Rightarrow> int \<Rightarrow> route_update" where
  "demo_kroute ty table =
     \<lparr>ru_type = ty, ru_route = \<lparr>kr_family = 2, kr_dst = None, kr_gw = [10, 0, 0, 1], kr_table = table,
        kr_proto = 11\<rparr>\<rparr>"

theorem kernel_fib_is_last_update_witness:
  "tree_effects Map.empty (routeLoop all_wired [demo_kroute 24 254, demo_kroute 24 10, demo_kroute 25 10])
     (''frr'', routeElems ''0.0.0.0/0'' ''254'' ''protocol'') = Some (StringVal ''zebra'')"
  using kernel_fib_is_last_update [of "''protocol''" Map.empty all_wired
      "[demo_kroute 24 254, demo_kroute 24 10, demo_kroute 25 10]" "''0.0.0.0/0''" "''254''"]
  by (simp add: demo_kroute_def about_route_def routePrefix_def route_leaf_def routeProto_def sdec_def
      dec.simps digit_def)

lemma routeProto_no_space: "CHR 0x20 \<notin> set (routeProto p)"
proof -
  have "CHR 0x20 \<notin> set (dec n)" for n by (rule not_digit_in_dec) (simp add: is_digit_def)
  then show ?thesis by (auto simp: routeProto_def sdec_def)
qed

lemma protoOf_detail: "CHR 0x20 \<notin> set p \<Longrightarrow> protoOf (''proto='' @ p @ CHR 0x20 # r) = p"
  using index_str_prefix [of "''proto=''" "p @ CHR 0x20 # r"] index_byte_append [of "CHR 0x20" p r]
  by (simp add: protoOf_def)

text \<open>
  What the lineage tracker reads back of a kernel route's detail text is exactly the
  protocol the netlink ingester wrote into it, for every protocol number, next hop and table.
\<close>

theorem kernel_detail_names_protocol:
  assumes "(p, s, True, d) \<in> set (observations (route_event w u))"
  shows "s = Kernel \<and> protoOf d = routeProto (kr_proto (ru_route u))"
  using assms routeProto_no_space [of "kr_proto (ru_route u)"]
  by (auto simp: route_event_def Let_def observe_if_def emit_if_def protoOf_detail [simplified] split: if_splits)

theorem kernel_detail_names_protocol_witness:
  "Kernel = Kernel \<and> protoOf ''proto=zebra nh=10.0.0.1 table=254'' = ''zebra''"
  using kernel_detail_names_protocol [of "''0.0.0.0/0''" Kernel "''proto=zebra nh=10.0.0.1 table=254''"
      all_wired "demo_kroute 24 254"]
  by (simp add: demo_kroute_def route_event_def routePrefix_def routeProto_def observe_if_def emit_if_def Let_def
      all_wired_def ip_string_v4 dotted_def udec_def sdec_def dec.simps digit_def)

section \<open>Links\<close>

text \<open>
  When a link is removed nothing of it is left in the tree: its state, its counters, its
  addresses, everything below its interface element.
\<close>

theorem link_removal_clears:
  "tree_effects t (link_event w (17, l))
     (''openconfig'', el ''interfaces'' # elk ''interface'' [(''name'', lk_name l)] # rest) = None"
  by (simp add: link_event_def put_tree_dels del_paths_lookup ifaceElems_def with_leaf_def below_def Let_def)

section \<open>What snapshots do not delete\<close>

lemma tree_effects_keep:
  "(\<And>e t. e \<in> set es \<Longrightarrow> tree_effect t e k = t k) \<Longrightarrow> tree_effects t es k = t k"
  by (induction es arbitrary: t) auto

lemma mplsElems_eq [simp]: "mplsElems a l = mplsElems b l' \<longleftrightarrow> a = b \<and> l = l'"
  by (auto simp: mplsElems_def)

definition mpls_label :: "mpls_route \<Rightarrow> 32 word option" where
  "mpls_label r = map_option word_of_int (mr_dst r)"

lemma mpls_write_shape:
  "mr_dst r = Some d \<Longrightarrow>
   \<exists>x out nh iface. mpls_write by_index r = [CacheUpdate ''frr''
     [leafUpdate (mplsElems (word_of_int d) ''in-label'') x,
      leafUpdate (mplsElems (word_of_int d) ''out-label'') out,
      leafUpdate (mplsElems (word_of_int d) ''next-hop'') nh,
      leafUpdate (mplsElems (word_of_int d) ''interface'') iface] []]"
  by (simp only: mpls_write_def Let_def option.case) blast

lemma mpls_write_keep:
  assumes "mpls_label r \<noteq> Some lb" and "e \<in> set (mpls_write by_index r)"
  shows "tree_effect t e (''frr'', mplsElems lb l) = t (''frr'', mplsElems lb l)"
proof (cases "mr_dst r")
  case None
  with assms(2) show ?thesis by (simp add: mpls_write_def)
next
  case (Some d)
  then have "word_of_int d \<noteq> lb" using assms(1) by (simp add: mpls_label_def)
  with mpls_write_shape [OF Some, of by_index] assms(2) show ?thesis by (auto simp: put_tree_ups)
qed

text \<open>
  An entry of the kernel's MPLS table that is gone stays in the tree: the periodic dump
  only writes the labels it sees, so after any number of dumps without a label its leaves are
  what they were.
\<close>

theorem mpls_entry_never_removed:
  assumes "\<forall>rs \<in> set dumps. \<forall>r \<in> set rs. mpls_label r \<noteq> Some lb"
  shows "tree_effects t (concat (map (\<lambda>rs. snapshotMPLS by_index (Some rs)) dumps)) (''frr'', mplsElems lb l) =
    t (''frr'', mplsElems lb l)"
proof (rule tree_effects_keep)
  fix e t' assume "e \<in> set (concat (map (\<lambda>rs. snapshotMPLS by_index (Some rs)) dumps))"
  then obtain rs r where "rs \<in> set dumps" "r \<in> set rs" "e \<in> set (mpls_write by_index r)"
    by (auto simp: snapshotMPLS_def)
  with assms show "tree_effect t' e (''frr'', mplsElems lb l) = t' (''frr'', mplsElems lb l)"
    by (blast intro: mpls_write_keep)
qed

definition demo_lfib :: mpls_route where
  "demo_lfib = \<lparr>mr_dst = Some 18, mr_newdst = Some [16], mr_via = Some [10, 0, 0, 1], mr_gw = [], mr_link = 2\<rparr>"

theorem mpls_entry_never_removed_witness:
  "tree_effects [(''frr'', mplsElems 80 ''interface'') \<mapsto> StringVal ''cust'']
     (concat (map (\<lambda>rs. snapshotMPLS (\<lambda>_. None) (Some rs)) [[demo_lfib], []]))
     (''frr'', mplsElems 80 ''interface'') = Some (StringVal ''cust'')"
  using mpls_entry_never_removed [of "[[demo_lfib], []]" 80] by (simp add: demo_lfib_def mpls_label_def)

section \<open>Bridge FDB\<close>

lemma fdbElems_eq [simp]: "fdbElems m v l = fdbElems m' v' l' \<longleftrightarrow> m = m' \<and> v = v' \<and> l = l'"
  by (auto simp: fdbElems_def)

lemma fdbElems_below [simp]: "below (fdbElems m v []) (fdbElems m' v' l) \<longleftrightarrow> m = m' \<and> v = v'"
  by (auto simp: fdbElems_def below_def with_leaf_def)

definition about_mac :: "string \<Rightarrow> string \<Rightarrow> nat \<times> neigh \<Rightarrow> bool" where
  "about_mac mac vlan u \<longleftrightarrow>
     ne_family (snd u) = 7 \<and> isUnicastMAC (ne_mac (snd u)) \<and> mac_string (ne_mac (snd u)) = mac \<and>
     sdec (ne_vlan (snd u)) = vlan"

lemma neigh_event_tree:
  "tree_effects t (neigh_event by_index u) (''openconfig'', fdbElems mac vlan ''interface'') =
     (if about_mac mac vlan u
      then if fst u = 29 then None
           else Some (StringVal (case by_index (ne_link (snd u)) of Some n \<Rightarrow> n | None \<Rightarrow> []))
      else t (''openconfig'', fdbElems mac vlan ''interface''))"
  by (cases u) (auto simp: neigh_event_def fdb_write_def about_mac_def Let_def put_tree_ups put_tree_dels
      del_paths_lookup split: option.splits)

text \<open>
  The MAC table shows, for every unicast MAC and VLAN, the interface of the last message
  about that entry, or nothing once it is deleted; multicast entries and other address
  families never enter it.
\<close>

theorem fdb_is_last_message:
  "tree_effects t (concat (map (neigh_event by_index) us)) (''openconfig'', fdbElems mac vlan ''interface'') =
    (case find (about_mac mac vlan) (rev us) of
       None \<Rightarrow> t (''openconfig'', fdbElems mac vlan ''interface'')
     | Some u \<Rightarrow>
         if fst u = 29 then None
         else Some (StringVal (case by_index (ne_link (snd u)) of Some n \<Rightarrow> n | None \<Rightarrow> [])))"
  by (induction us rule: rev_induct) (simp_all add: neigh_event_tree)

end
