(* ===== verification/CgroupIngest.thy ===== *)
theory CgroupIngest
  imports Effects
begin

text \<open>
  \<^verbatim>\<open>internal/ingest/cgroup.go\<close>: a sample of the container's cgroup from the texts of
  its files.  \<open>files\<close> is the file system under the cgroup root: the text of a file, or
  \<open>None\<close> when it cannot be read.
\<close>

type_synonym files = "string \<Rightarrow> string option"

definition newline :: char where
  "newline = CHR 0x0A"

text \<open>
  The lines \<^verbatim>\<open>bufio.Scanner\<close> delivers: without their terminators, the last one only if it
  is not empty, none from a line of 64 KiB on.
\<close>

definition drop_cr :: "string \<Rightarrow> string" where
  "drop_cr s = (if s \<noteq> [] \<and> last s = CHR 0x0D then butlast s else s)"

definition scan_lines :: "string \<Rightarrow> string list" where
  "scan_lines s =
     (let ls = split_on newline s; ls = (if last ls = [] then butlast ls else ls) in
      map drop_cr (takeWhile (\<lambda>l. length l < 65536) ls))"

definition add_kv :: "(string \<Rightarrow> 64 word option) \<Rightarrow> string \<Rightarrow> (string \<Rightarrow> 64 word option)" where
  "add_kv m line =
     (case str_fields line of
        [k, v] \<Rightarrow> (case parse_uint64 v of Some n \<Rightarrow> m(k \<mapsto> n) | None \<Rightarrow> m)
      | _ \<Rightarrow> m)"

definition readKV :: "files \<Rightarrow> string \<Rightarrow> (string \<Rightarrow> 64 word option)" where
  "readKV files path =
     (case files path of None \<Rightarrow> Map.empty | Some s \<Rightarrow> foldl add_kv Map.empty (scan_lines s))"

definition readUint :: "files \<Rightarrow> string \<Rightarrow> 64 word option" where
  "readUint files path =
     (case files path of None \<Rightarrow> None | Some b \<Rightarrow> parse_uint64 (trim_space b))"

definition readLimit :: "files \<Rightarrow> string \<Rightarrow> 64 word option" where
  "readLimit files path =
     (case files path of
        None \<Rightarrow> None
      | Some b \<Rightarrow> let s = trim_space b in if s = ''max'' then None else parse_uint64 s)"

definition hostUpdate :: "string \<Rightarrow> string \<Rightarrow> 64 word \<Rightarrow> update" where
  "hostUpdate grp leaf v =
     \<lparr>u_path = path_of [el ''container'', el grp, el ''state'', el leaf], u_val = uintVal v\<rparr>"

definition cpu_fields :: "(string \<times> string) list" where
  "cpu_fields =
     [(''usage_usec'', ''usage-usec''), (''user_usec'', ''user-usec''), (''system_usec'', ''system-usec''),
      (''nr_periods'', ''nr-periods''), (''nr_throttled'', ''nr-throttled''),
      (''throttled_usec'', ''throttled-usec'')]"

definition opt_update :: "string \<Rightarrow> string \<Rightarrow> 64 word option \<Rightarrow> update list" where
  "opt_update grp leaf v = (case v of None \<Rightarrow> [] | Some n \<Rightarrow> [hostUpdate grp leaf n])"

definition sample :: "files \<Rightarrow> effect list" where
  "sample files =
     (let cpu = readKV files ''/cpu.stat'';
          ups = concat (map (\<lambda>(key, leaf). opt_update ''cpu'' leaf (cpu key)) cpu_fields) @
                opt_update ''memory'' ''current'' (readUint files ''/memory.current'') @
                opt_update ''memory'' ''swap-current'' (readUint files ''/memory.swap.current'') @
                opt_update ''memory'' ''max'' (readLimit files ''/memory.max'') in
      if ups \<noteq> [] then [CacheUpdate ''host'' ups []] else [])"

section \<open>Reading back the kernel's format\<close>

definition kv_line :: "string \<times> 64 word \<Rightarrow> string" where
  "kv_line kv = fst kv @ CHR 0x20 # udec (snd kv)"

definition kv_text :: "(string \<times> 64 word) list \<Rightarrow> string" where
  "kv_text kvs = concat (map (\<lambda>kv. kv_line kv @ [newline]) kvs)"

definition ok_key :: "string \<Rightarrow> bool" where
  "ok_key k \<longleftrightarrow> k \<noteq> [] \<and> length k < 1000 \<and> (\<forall>c \<in> set k. \<not> is_space c)"

lemma digit_not_space: "is_digit c \<Longrightarrow> \<not> is_space c"
  by (auto simp: is_digit_def is_space_def)

lemma udec_not_space: "\<forall>c \<in> set (udec w). \<not> is_space c"
  using dec_digits digit_not_space by (auto simp: udec_def)

lemma fields_kv: "ok_key k \<Longrightarrow> str_fields (kv_line (k, v)) = [k, udec v]"
  using fields_acc_word [of k "[]" "CHR 0x20 # udec v"] udec_not_space [of v]
  by (simp add: str_fields_def kv_line_def ok_key_def is_space_def fields_word_end)

lemma udec_length64: "length (udec (w :: 64 word)) \<le> 20"
proof -
  have dec: "length (dec n) \<le> k" if "n < 10 ^ k" "0 < k" for n k
    using that
  proof (induction k arbitrary: n)
    case (Suc k)
    show ?case
    proof (cases "n < 10")
      case True
      then show ?thesis by (simp add: dec.simps [of n])
    next
      case False
      with Suc.prems have "0 < k" "n div 10 < 10 ^ k" by (cases k; auto simp: less_mult_imp_div_less)+
      with Suc.IH have "length (dec (n div 10)) \<le> k" by simp
      with False show ?thesis by (simp add: dec.simps [of n])
    qed
  qed simp
  have "unat w < 2 ^ LENGTH(64)" by (rule unsigned_less)
  then have "unat w < 10 ^ 20" by simp
  then show ?thesis unfolding udec_def by (rule dec) simp
qed

lemma newline_not_in_line: "ok_key (fst kv) \<Longrightarrow> newline \<notin> set (kv_line kv)"
  using udec_not_space [of "snd kv"]
  by (auto simp: kv_line_def ok_key_def newline_def is_space_def)

lemma kv_line_end: "last (kv_line kv) \<noteq> CHR 0x0D" "kv_line kv \<noteq> []"
proof -
  have "last (udec (snd kv)) \<in> set (udec (snd kv))" by simp
  with udec_not_space [of "snd kv"] have "\<not> is_space (last (udec (snd kv)))" by blast
  then show "last (kv_line kv) \<noteq> CHR 0x0D" by (auto simp: kv_line_def is_space_def)
qed (simp add: kv_line_def)

lemma split_kv_text:
  "\<forall>kv \<in> set kvs. ok_key (fst kv) \<Longrightarrow> split_on newline (kv_text kvs) = map kv_line kvs @ [[]]"
  by (induction kvs) (simp_all add: kv_text_def split_on_sep newline_not_in_line)

lemma scan_kv_text:
  assumes "\<forall>kv \<in> set kvs. ok_key (fst kv)"
  shows "scan_lines (kv_text kvs) = map kv_line kvs"
proof -
  have "length (kv_line kv) < 65536" if "kv \<in> set kvs" for kv
    using assms that udec_length64 [of "snd kv"] by (auto simp: kv_line_def ok_key_def)
  then have tw: "takeWhile (\<lambda>l. length l < 65536) (map kv_line kvs) = map kv_line kvs" by simp
  have cr: "drop_cr (kv_line kv) = kv_line kv" for kv by (simp add: drop_cr_def kv_line_end)
  show ?thesis by (simp add: scan_lines_def split_kv_text [OF assms] Let_def tw cr)
qed

lemma readKV_text:
  assumes "files path = Some (kv_text kvs)" and "\<forall>kv \<in> set kvs. ok_key (fst kv)"
  shows "readKV files path = map_of (rev kvs)"
proof -
  have "foldl add_kv m (map kv_line kvs) = m ++ map_of (rev kvs)" for m
    using assms(2)
  proof (induction kvs arbitrary: m)
    case (Cons kv kvs)
    have "add_kv m (kv_line kv) = m(fst kv \<mapsto> snd kv)"
      using Cons.prems fields_kv [of "fst kv" "snd kv"] by (simp add: add_kv_def parse_uint64_udec)
    with Cons show ?case by simp
  qed simp
  with assms show ?thesis by (simp add: readKV_def scan_kv_text)
qed

section \<open>Properties\<close>

text \<open>The files of a cgroup as the kernel writes them.\<close>

record cgroup =
  cg_cpu :: "(string \<times> 64 word) list"
  cg_current :: "64 word"
  cg_swap :: "64 word option"
  cg_max :: "64 word option"

definition cgroup_files :: "cgroup \<Rightarrow> files" where
  "cgroup_files g =
     [''/cpu.stat'' \<mapsto> kv_text (cg_cpu g), ''/memory.current'' \<mapsto> udec (cg_current g) @ [newline],
      ''/memory.max'' \<mapsto> (case cg_max g of None \<Rightarrow> ''max'' | Some n \<Rightarrow> udec n) @ [newline]]
     (''/memory.swap.current'' := map_option (\<lambda>n. udec n @ [newline]) (cg_swap g))"

lemma trim_line:
  assumes "\<forall>c \<in> set s. \<not> is_space c" and "s \<noteq> []"
  shows "trim_space (s @ [newline]) = s"
proof -
  have "dropWhile is_space (s @ [newline]) = s @ [newline]"
    using assms by (cases s) auto
  moreover have "dropWhile is_space (rev s) = rev s"
    using assms by (cases "rev s") (auto simp: dropWhile_eq_self_iff)
  ultimately show ?thesis
    by (simp add: trim_space_def trim_left_def trim_right_def newline_def is_space_def)
qed

lemma readUint_line:
  "files path = Some (udec n @ [newline]) \<Longrightarrow> readUint files path = Some n"
  by (simp add: readUint_def trim_line udec_not_space parse_uint64_udec)

lemma max_not_number: "udec (n :: 'a::len word) \<noteq> ''max''"
proof
  assume "udec n = ''max''"
  then have "CHR ''m'' \<in> set (dec (unat n))" by (simp add: udec_def)
  then show False using not_digit_in_dec [of "CHR ''m''"] by (simp add: is_digit_def)
qed

lemma trim_max: "trim_space (''max'' @ [newline]) = ''max''"
  by (rule trim_line) (simp_all add: is_space_def)

lemma readLimit_line:
  "files path = Some ((case m of None \<Rightarrow> ''max'' | Some n \<Rightarrow> udec n) @ [newline]) \<Longrightarrow>
   readLimit files path = m"
  using trim_max
  by (auto simp: readLimit_def trim_line udec_not_space parse_uint64_udec max_not_number Let_def
      split: option.splits)

definition host_path :: "string \<Rightarrow> string \<Rightarrow> path_elem list" where
  "host_path grp leaf = [el ''container'', el grp, el ''state'', el leaf]"

text \<open>The leaves a sample of this cgroup should give: counters that are there, current usage, limit.\<close>

definition cgroup_leaves :: "cgroup \<Rightarrow> (path_elem list \<times> typed_value) list" where
  "cgroup_leaves g =
     concat (map (\<lambda>(key, leaf). case map_of (rev (cg_cpu g)) key of
        None \<Rightarrow> [] | Some n \<Rightarrow> [(host_path ''cpu'' leaf, UintVal n)]) cpu_fields) @
     [(host_path ''memory'' ''current'', UintVal (cg_current g))] @
     (case cg_swap g of None \<Rightarrow> [] | Some n \<Rightarrow> [(host_path ''memory'' ''swap-current'', UintVal n)]) @
     (case cg_max g of None \<Rightarrow> [] | Some n \<Rightarrow> [(host_path ''memory'' ''max'', UintVal n)])"

lemma opt_update_leaves:
  "map (\<lambda>u. (gp_elem (u_path u), u_val u)) (opt_update grp leaf v) =
     (case v of None \<Rightarrow> [] | Some n \<Rightarrow> [(host_path grp leaf, UintVal n)])"
  by (simp add: opt_update_def hostUpdate_def host_path_def uintVal_def split: option.split)

lemma sample_cgroup:
  assumes "\<forall>kv \<in> set (cg_cpu g). ok_key (fst kv)"
  shows "tree_effects t (sample (cgroup_files g)) = set_leaves ''host'' (cgroup_leaves g) t"
proof -
  let ?f = "cgroup_files g"
  have cpu: "readKV ?f ''/cpu.stat'' = map_of (rev (cg_cpu g))"
    using assms by (intro readKV_text) (simp_all add: cgroup_files_def)
  have cur: "readUint ?f ''/memory.current'' = Some (cg_current g)"
    by (rule readUint_line) (simp add: cgroup_files_def)
  have swap: "readUint ?f ''/memory.swap.current'' = cg_swap g"
  proof (cases "cg_swap g")
    case None
    then show ?thesis by (simp add: readUint_def cgroup_files_def)
  next
    case (Some n)
    then show ?thesis by (subst readUint_line [of _ _ n]) (simp_all add: cgroup_files_def)
  qed
  have max: "readLimit ?f ''/memory.max'' = cg_max g"
    by (rule readLimit_line) (simp add: cgroup_files_def)
  let ?ups = "concat (map (\<lambda>(key, leaf). opt_update ''cpu'' leaf (map_of (rev (cg_cpu g)) key)) cpu_fields) @
      opt_update ''memory'' ''current'' (Some (cg_current g)) @ opt_update ''memory'' ''swap-current'' (cg_swap g) @
      opt_update ''memory'' ''max'' (cg_max g)"
  have s: "sample ?f = [CacheUpdate ''host'' ?ups []]"
    by (simp add: sample_def cpu cur swap max Let_def opt_update_def)
  have "map (\<lambda>u. (gp_elem (u_path u), u_val u)) ?ups = cgroup_leaves g"
    by (simp add: cgroup_leaves_def opt_update_leaves cpu_fields_def del: map_of_eq_Some_iff)
  then show ?thesis by (simp add: s put_tree_ups)
qed

text \<open>
  C35. A sample of a cgroup in the kernel's format writes exactly its values, as unsigned
  integers and exactly: the six CPU counters that are there, current memory and swap, and the
  memory limit unless it is \<^verbatim>\<open>max\<close>; other lines of \<^verbatim>\<open>cpu.stat\<close> are ignored.
\<close>

theorem cgroup_sample_exact:
  assumes "\<forall>kv \<in> set (cg_cpu g). ok_key (fst kv)"
  shows "tree_effects t (sample (cgroup_files g)) = set_leaves ''host'' (cgroup_leaves g) t"
  using assms by (rule sample_cgroup)

definition demo_cgroup :: cgroup where
  "demo_cgroup = \<lparr>cg_cpu = [(''usage_usec'', 42), (''core_sched'', 1)], cg_current = 1048576, cg_swap = None,
     cg_max = None\<rparr>"

theorem cgroup_sample_exact_witness:
  "tree_effects Map.empty (sample (cgroup_files demo_cgroup)) =
     set_leaves ''host'' [(host_path ''cpu'' ''usage-usec'', UintVal 42),
       (host_path ''memory'' ''current'', UintVal 1048576)] Map.empty"
  using cgroup_sample_exact [of demo_cgroup Map.empty]
  by (simp add: demo_cgroup_def ok_key_def is_space_def cgroup_leaves_def cpu_fields_def)

text \<open>
  A memory limit that is lifted stays in the tree: once \<^verbatim>\<open>memory.max\<close> reads
  \<^verbatim>\<open>max\<close> the sample writes no limit and deletes none, so the last limit is shown for good.
\<close>

theorem lifted_limit_stays:
  assumes "\<forall>g \<in> set gs. cg_max g = None \<and> (\<forall>kv \<in> set (cg_cpu g). ok_key (fst kv))"
  shows "foldl (\<lambda>t g. tree_effects t (sample (cgroup_files g))) t gs (''host'', host_path ''memory'' ''max'') =
    t (''host'', host_path ''memory'' ''max'')"
  using assms
proof (induction gs arbitrary: t)
  case (Cons g gs)
  have "host_path ''memory'' ''max'' \<notin> fst ` set (cgroup_leaves g)"
    using Cons.prems by (auto simp: cgroup_leaves_def cpu_fields_def host_path_def split: option.splits)
  moreover have "tree_effects t (sample (cgroup_files g)) = set_leaves ''host'' (cgroup_leaves g) t"
    using Cons.prems by (intro sample_cgroup) simp
  ultimately show ?case using Cons by (simp add: set_leaves_other)
qed simp


theorem lifted_limit_stays_witness:
  "foldl (\<lambda>t g. tree_effects t (sample (cgroup_files g)))
     [(''host'', host_path ''memory'' ''max'') \<mapsto> UintVal 4096] [demo_cgroup, demo_cgroup]
     (''host'', host_path ''memory'' ''max'') = Some (UintVal 4096)"
  using lifted_limit_stays [of "[demo_cgroup, demo_cgroup]"]
  by (simp add: demo_cgroup_def ok_key_def is_space_def)

end
