(* ===== verification/Planes.thy ===== *)
theory Planes
  imports FpmSpec BmpIngest LldpIngest OspfIngest NetlinkIngest CgroupIngest
begin

text \<open>
  What the planes of the shim may write.  Every ingester has a region of the gNMI tree of its
  own, a schema for the leaves in it, a bus of the correlator and a stage of the lineage.  The
  lemmas show of every handler that its effects keep to that; what it means for the tree is
  proved once, for any effects that do.
\<close>

section \<open>Regions\<close>

datatype plane = PFpm | PBmp | PNetlink | POspf | PLldp | PCgroup | PLineage

text \<open>The plane a path belongs to, read off the names of its first elements.\<close>

definition protocol_owner :: "string list \<Rightarrow> plane option" where
  "protocol_owner ns =
     (case ns of
        [] \<Rightarrow> None
      | n # _ \<Rightarrow> if n = ''bgp'' then Some PBmp else if n = ''ospfv2'' then Some POspf else None)"

definition instance_owner :: "string list \<Rightarrow> plane option" where
  "instance_owner ns =
     (case ns of
        [] \<Rightarrow> None
      | n # ms \<Rightarrow>
          if n = ''afts'' then Some PFpm
          else if n = ''fdb'' then Some PNetlink
          else if n = ''protocols'' then protocol_owner (drop 1 ms)
          else None)"

definition openconfig_owner :: "string list \<Rightarrow> plane option" where
  "openconfig_owner ns =
     (case ns of
        [] \<Rightarrow> None
      | n # ms \<Rightarrow>
          if n = ''interfaces'' then Some PNetlink
          else if n = ''lldp'' then Some PLldp
          else if n = ''network-instances'' then instance_owner (drop 1 ms)
          else None)"

definition frr_owner :: "string list \<Rightarrow> plane option" where
  "frr_owner ns =
     (case ns of
        [] \<Rightarrow> None
      | n # _ \<Rightarrow>
          if n = ''bgp-rib'' then Some PBmp
          else if n = ''mpls'' \<or> n = ''kernel-fib'' then Some PNetlink
          else None)"

definition owner :: "string \<Rightarrow> path_elem list \<Rightarrow> plane option" where
  "owner org p =
     (if org = ''host'' then Some PCgroup
      else if org = ''frr'' then frr_owner (map pe_name p)
      else if org = ''openconfig'' then openconfig_owner (map pe_name p)
      else None)"

lemma case_nonempty: "(case ns of [] \<Rightarrow> None | n # ms \<Rightarrow> f n ms) = Some c \<Longrightarrow> \<exists>n ms. ns = n # ms \<and> f n ms = Some c"
  by (cases ns) auto

lemma protocol_owner_append: "protocol_owner ns = Some c \<Longrightarrow> protocol_owner (ns @ r) = Some c"
  unfolding protocol_owner_def by (drule case_nonempty) auto

lemma instance_owner_append:
  assumes "instance_owner ns = Some c"
  shows "instance_owner (ns @ r) = Some c"
proof -
  from assms obtain n ms where ns: "ns = n # ms" by (cases ns) (auto simp: instance_owner_def)
  show ?thesis
  proof (cases "n = ''protocols''")
    case True
    with assms ns have p: "protocol_owner (drop 1 ms) = Some c" by (simp add: instance_owner_def)
    then have "ms \<noteq> []" by (auto simp: protocol_owner_def)
    then have "drop 1 (ms @ r) = drop 1 ms @ r" by (cases ms) simp_all
    with True ns protocol_owner_append [OF p] show ?thesis by (simp add: instance_owner_def)
  next
    case False
    with assms ns show ?thesis by (simp add: instance_owner_def split: if_splits)
  qed
qed

lemma openconfig_owner_append:
  assumes "openconfig_owner ns = Some c"
  shows "openconfig_owner (ns @ r) = Some c"
proof -
  from assms obtain n ms where ns: "ns = n # ms" by (cases ns) (auto simp: openconfig_owner_def)
  show ?thesis
  proof (cases "n = ''network-instances''")
    case True
    with assms ns have p: "instance_owner (drop 1 ms) = Some c" by (simp add: openconfig_owner_def)
    then have "ms \<noteq> []" by (auto simp: instance_owner_def)
    then have "drop 1 (ms @ r) = drop 1 ms @ r" by (cases ms) simp_all
    with True ns instance_owner_append [OF p] show ?thesis by (simp add: openconfig_owner_def)
  next
    case False
    with assms ns show ?thesis by (simp add: openconfig_owner_def split: if_splits)
  qed
qed

lemma owner_append:
  assumes "owner org d = Some c"
  shows "owner org (d @ r) = Some c"
proof (cases "org = ''frr''")
  case True
  with assms show ?thesis by (cases d) (simp_all add: owner_def frr_owner_def)
next
  case False
  with assms openconfig_owner_append [of "map pe_name d" c "map pe_name r"] show ?thesis
    by (simp add: owner_def split: if_splits)
qed

lemma owner_below: "owner org d = Some c \<Longrightarrow> below d p \<Longrightarrow> owner org p = Some c"
  unfolding below_def using owner_append [of org d c "drop (length d) p"] append_take_drop_id [of "length d" p]
  by simp

lemma owner_paths [simp]:
  "owner ''openconfig'' (gp_elem (aftPath vrf af pfx leaf)) = Some PFpm"
  "owner ''openconfig'' (neighborElems vrf peer leaf) = Some PBmp"
  "owner ''frr'' (vpnRouteElems rd pfx leaf) = Some PBmp"
  "owner ''frr'' (evpnRouteElems rd rt key leaf) = Some PBmp"
  "owner ''openconfig'' (ospfNbrElems iface rid leaf) = Some POspf"
  "owner ''openconfig'' (lldpElems ifn i leaf) = Some PLldp"
  "owner ''openconfig'' (ifaceElems n leaf) = Some PNetlink"
  "owner ''openconfig'' (gp_elem (u_path (counterUpdate n leaf v))) = Some PNetlink"
  "owner ''openconfig'' (fdbElems mac vlan leaf) = Some PNetlink"
  "owner ''openconfig'' (addrElems n ip leaf) = Some PNetlink"
  "owner ''frr'' (mplsElems l leaf) = Some PNetlink"
  "owner ''frr'' (routeElems pfx tb leaf) = Some PNetlink"
  "owner ''host'' (gp_elem (u_path (hostUpdate grp leaf v))) = Some PCgroup"
  by (simp_all add: owner_def openconfig_owner_def frr_owner_def instance_owner_def protocol_owner_def aftPath_def neighborElems_def vpnRouteElems_def evpnRouteElems_def ospfNbrElems_def
      lldpElems_def ifaceElems_def counterUpdate_def fdbElems_def addrElems_def mplsElems_def routeElems_def
      hostUpdate_def with_leaf_def)

section \<open>Schema\<close>

text \<open>The enumerations of the leaves that have one.\<close>

definition adj_enum :: "string set" where
  "adj_enum = {''FULL'', ''TWO_WAY'', ''INIT'', ''DOWN'', ''EXCHANGE_START'', ''EXCHANGE'', ''LOADING'',
     ''ATTEMPT'', ''UNKNOWN''}"

definition oper_enum :: "string set" where
  "oper_enum = {''UP'', ''DOWN'', ''LOWER_LAYER_DOWN'', ''DORMANT'', ''TESTING'', ''NOT_PRESENT'', ''UNKNOWN''}"

definition counter_names :: "string set" where
  "counter_names = {''in-octets'', ''out-octets'', ''in-pkts'', ''out-pkts'', ''in-errors'', ''out-errors'',
     ''in-discards'', ''out-discards''}"

text \<open>
  The typing of leaves: plane, origin, path and value.  A leaf that repeats a key of its list
  has the key's value, a leaf of an enumeration one of its members, and a counter an unsigned
  number.
\<close>

inductive schema :: "plane \<Rightarrow> string \<Rightarrow> path_elem list \<Rightarrow> typed_value \<Rightarrow> bool" where
  sc_aft: "af \<in> {''ipv4-unicast'', ''ipv6-unicast''} \<Longrightarrow> pfx \<noteq> [] \<Longrightarrow>
    schema PFpm ''openconfig'' (gp_elem (aftPath vrf af pfx ''next-hop'')) (StringVal s)"
| sc_labels: "af \<in> {''ipv4-unicast'', ''ipv6-unicast''} \<Longrightarrow> pfx \<noteq> [] \<Longrightarrow> push \<noteq> [] \<Longrightarrow>
    schema PFpm ''openconfig'' (gp_elem (aftPath vrf af pfx ''pushed-mpls-label-stack'')) (StringVal (labelsCSV push))"
| sc_session: "st \<in> {''ESTABLISHED'', ''IDLE''} \<Longrightarrow>
    schema PBmp ''openconfig'' (neighborElems vrf peer ''session-state'') (StringVal st)"
| sc_peer_as: "schema PBmp ''openconfig'' (neighborElems vrf peer ''peer-as'') (StringVal (udec (a :: 32 word)))"
| sc_vpn_label: "schema PBmp ''frr'' (vpnRouteElems rd pfx ''label'') (StringVal (udec (l :: 32 word)))"
| sc_vpn: "leaf \<in> {''next-hop'', ''route-target'', ''peer''} \<Longrightarrow>
    schema PBmp ''frr'' (vpnRouteElems rd pfx leaf) (StringVal s)"
| sc_evpn: "leaf \<in> {''next-hop'', ''route-target'', ''peer''} \<Longrightarrow> kind \<in> {''mac'', ''imet'', ''prefix''} \<Longrightarrow>
    schema PBmp ''frr'' (evpnRouteElems rd kind key leaf) (StringVal s)"
| sc_adj: "st \<in> adj_enum \<Longrightarrow>
    schema POspf ''openconfig'' (ospfNbrElems iface rid ''adjacency-state'') (StringVal st)"
| sc_adj_addr: "schema POspf ''openconfig'' (ospfNbrElems iface rid ''neighbor-address'') (StringVal s)"
| sc_chassis: "i \<noteq> [] \<Longrightarrow> schema PLldp ''openconfig'' (lldpElems ifn i ''chassis-id'') (StringVal i)"
| sc_lldp: "leaf \<in> lldp_names - {''chassis-id''} \<Longrightarrow> i \<noteq> [] \<Longrightarrow>
    schema PLldp ''openconfig'' (lldpElems ifn i leaf) (StringVal s)"
| sc_iface: "schema PNetlink ''openconfig'' (ifaceElems n ''name'') (StringVal n)"
| sc_admin: "st \<in> {''UP'', ''DOWN''} \<Longrightarrow>
    schema PNetlink ''openconfig'' (ifaceElems n ''admin-status'') (StringVal st)"
| sc_oper: "st \<in> oper_enum \<Longrightarrow>
    schema PNetlink ''openconfig'' (ifaceElems n ''oper-status'') (StringVal st)"
| sc_type: "schema PNetlink ''openconfig'' (ifaceElems n ''type'') (StringVal s)"
| sc_number: "leaf \<in> {''ifindex'', ''mtu''} \<Longrightarrow>
    schema PNetlink ''openconfig'' (ifaceElems n leaf) (UintVal u)"
| sc_counter: "leaf \<in> counter_names \<Longrightarrow>
    schema PNetlink ''openconfig'' (gp_elem (u_path (counterUpdate n leaf u))) (UintVal u)"
| sc_mac: "schema PNetlink ''openconfig'' (fdbElems mac vlan ''mac-address'') (StringVal mac)"
| sc_mac_if: "schema PNetlink ''openconfig'' (fdbElems mac vlan ''interface'') (StringVal s)"
| sc_addr: "schema PNetlink ''openconfig'' (addrElems n ip ''ip'') (StringVal ip)"
| sc_plen: "schema PNetlink ''openconfig'' (addrElems n ip ''prefix-length'') (StringVal (dec k))"
| sc_in_label: "schema PNetlink ''frr'' (mplsElems l ''in-label'') (StringVal (udec l))"
| sc_out_label: "schema PNetlink ''frr'' (mplsElems l ''out-label'') (StringVal (intsCSV ls))"
| sc_mpls: "leaf \<in> {''next-hop'', ''interface''} \<Longrightarrow>
    schema PNetlink ''frr'' (mplsElems l leaf) (StringVal s)"
| sc_kroute: "leaf \<in> {''next-hop'', ''protocol''} \<Longrightarrow> pfx \<noteq> [] \<Longrightarrow>
    schema PNetlink ''frr'' (routeElems pfx tb leaf) (StringVal s)"
| sc_host: "grp \<in> {''cpu'', ''memory''} \<Longrightarrow>
    schema PCgroup ''host'' (gp_elem (u_path (hostUpdate grp leaf u))) (UintVal u)"

lemma schema_owner: "schema c org p v \<Longrightarrow> owner org p = Some c"
  by (induction rule: schema.induct) simp_all

section \<open>Effects\<close>

text \<open>The bus a plane speaks on, with the kinds of its root events, and its stage.\<close>

definition speaks :: "plane \<Rightarrow> string \<Rightarrow> string \<Rightarrow> bool \<Rightarrow> bool" where
  "speaks c bus kind root \<longleftrightarrow>
     (case c of
        PFpm \<Rightarrow> bus = ''fpm'' \<and> kind \<in> {''route-add'', ''route-del''} \<and> \<not> root
      | PBmp \<Rightarrow> bus = ''bmp'' \<and> \<not> root
      | PNetlink \<Rightarrow> bus = ''netlink'' \<and>
          (if root then kind \<in> {''link-up'', ''link-down''} else kind \<in> {''kernel-route-add'', ''kernel-route-del''})
      | POspf \<Rightarrow> bus = ''ospf'' \<and> root
      | PLineage \<Rightarrow> bus = ''lineage'' \<and> kind = ''install-gap'' \<and> root
      | _ \<Rightarrow> False)"

definition stage_of :: "plane \<Rightarrow> stage option" where
  "stage_of c = (case c of PFpm \<Rightarrow> Some Fpm | PBmp \<Rightarrow> Some RibIn | PNetlink \<Rightarrow> Some Kernel | _ \<Rightarrow> None)"

fun typed_effect :: "plane \<Rightarrow> effect \<Rightarrow> bool" where
  "typed_effect c (CacheUpdate org ups dels) =
     ((\<forall>u \<in> set ups. schema c org (gp_elem (u_path u)) (u_val u)) \<and>
      (\<forall>d \<in> set dels. owner org (gp_elem d) = Some c))"
| "typed_effect c (EmitEvent bus kind key detail root) = speaks c bus kind root"
| "typed_effect c (ObserveRoute p s b d) = (stage_of c = Some s)"
| "typed_effect c (KickOSPF reason) = (c = PFpm \<or> c = PBmp)"

definition typed :: "plane \<Rightarrow> effect list \<Rightarrow> bool" where
  "typed c es = list_all (typed_effect c) es"

lemma typed_simps [simp]:
  "typed c []" "typed c (e # es) \<longleftrightarrow> typed_effect c e \<and> typed c es"
  "typed c (xs @ ys) \<longleftrightarrow> typed c xs \<and> typed c ys"
  by (simp_all add: typed_def)

lemma typed_concat [simp]: "typed c (concat ess) \<longleftrightarrow> (\<forall>es \<in> set ess. typed c es)"
  by (induction ess) auto

lemma typed_emit_if [simp]: "typed c (emit_if w b' k y d r) \<longleftrightarrow> (w_cor w \<longrightarrow> speaks c b' k r)"
  by (simp add: emit_if_def)

lemma typed_observe_if [simp]: "typed c (observe_if w p s b d) \<longleftrightarrow> (w_lin w \<longrightarrow> stage_of c = Some s)"
  by (simp add: observe_if_def)

section \<open>The handlers\<close>

lemma typed_route_effects:
  assumes "pfx \<noteq> []" and "af = ''ipv4-unicast'' \<or> af = ''ipv6-unicast''"
  shows "typed PFpm (route_effects w vrf af pfx nh push del)"
proof -
  have "schema PFpm ''openconfig'' (gp_elem (aftPath vrf af pfx ''next-hop'')) (StringVal s)" for s
    using assms by (intro sc_aft) simp_all
  moreover have "schema PFpm ''openconfig'' (gp_elem (aftPath vrf af pfx ''pushed-mpls-label-stack'')) (StringVal (labelsCSV push))"
    if "push \<noteq> []" using assms that by (intro sc_labels) simp_all
  ultimately show ?thesis
    by (simp add: route_effects_def Let_def strVal_def speaks_def stage_of_def)
qed

lemma formatPrefix_af:
  "formatPrefix family dst l = (pfx, af) \<Longrightarrow> pfx \<noteq> [] \<Longrightarrow> af = ''ipv4-unicast'' \<or> af = ''ipv6-unicast''"
  by (auto simp: formatPrefix_def split: if_splits)

lemma handleRoute_typed: "handleRoute f links b del = Some (f', es) \<Longrightarrow> typed PFpm es"
  by (auto simp: handleRoute_def bind_eq_Some_conv Let_def typed_route_effects split: if_splits prod.splits
      dest: formatPrefix_af)

lemma handleNetlink_typed: "handleNetlink f links b = Some (f', es) \<Longrightarrow> typed PFpm es"
  by (auto simp: handleNetlink_def bind_eq_Some_conv split: if_splits dest: handleRoute_typed)

lemma typed_writeEVPN:
  assumes "kind \<in> {''mac'', ''imet'', ''prefix''}"
  shows "typed PBmp (writeEVPN w peer kind rd key nh rts withdraw)"
proof -
  have "schema PBmp ''frr'' (evpnRouteElems rd kind key leaf) (StringVal s)"
    if "leaf \<in> {''next-hop'', ''route-target'', ''peer''}" for leaf s
    using that assms by (rule sc_evpn)
  then show ?thesis by (simp add: writeEVPN_def speaks_def stage_of_def)
qed

lemma typed_writeVPNRoute [simp]: "typed PBmp (writeVPNRoute w peer rd pfx label nh rts withdraw)"
proof -
  have "schema PBmp ''frr'' (vpnRouteElems rd pfx leaf) (StringVal s)"
    if "leaf \<in> {''next-hop'', ''route-target'', ''peer''}" for leaf s
    using that by (rule sc_vpn)
  then show ?thesis by (simp add: writeVPNRoute_def Let_def speaks_def stage_of_def sc_vpn_label)
qed

lemma handleEVPN_typed: "handleEVPN w peer rtype v nh rts withdraw = Some es \<Longrightarrow> typed PBmp es"
  by (auto simp: handleEVPN_def bind_eq_Some_conv Let_def split: if_splits intro: typed_writeEVPN)

lemma evpn_fold_typed:
  "foldM (\<lambda>es (rtype, x). map_option (\<lambda>es'. es @ es') (handleEVPN w peer rtype x nh rts withdraw)) es0 rs = Some es \<Longrightarrow>
   typed PBmp es0 \<Longrightarrow> typed PBmp es"
proof (induction rs arbitrary: es0)
  case (Cons r rs)
  obtain rtype x where r: "r = (rtype, x)" by (rule prod.exhaust)
  from Cons.prems obtain es' where es': "handleEVPN w peer rtype x nh rts withdraw = Some es'"
    and rest: "foldM (\<lambda>es (rtype, x). map_option (\<lambda>es'. es @ es') (handleEVPN w peer rtype x nh rts withdraw)) (es0 @ es') rs = Some es"
    by (auto simp: r bind_eq_Some_conv)
  show ?case using Cons.IH [OF rest] Cons.prems(2) handleEVPN_typed [OF es'] by simp
qed simp

lemma evpn_all_typed:
  "foldM (\<lambda>es (rtype, x). map_option (\<lambda>es'. es @ es') (handleEVPN w peer rtype x nh rts withdraw)) [] rs = Some es \<Longrightarrow>
   typed PBmp es"
  by (erule evpn_fold_typed) simp

text \<open>The ways through a handler that can panic.\<close>

lemma bind_SomeE: "Option.bind x f = Some r \<Longrightarrow> (\<And>a. x = Some a \<Longrightarrow> f a = Some r \<Longrightarrow> P) \<Longrightarrow> P"
  by (auto simp: bind_eq_Some_conv)

lemma if_SomeE: "(if b then x else y) = Some r \<Longrightarrow> (b \<Longrightarrow> x = Some r \<Longrightarrow> P) \<Longrightarrow> (\<not> b \<Longrightarrow> y = Some r \<Longrightarrow> P) \<Longrightarrow> P"
  by (simp split: if_splits)

lemma case_SomeE:
  "(case x of None \<Rightarrow> y | Some a \<Rightarrow> f a) = Some r \<Longrightarrow>
   (x = None \<Longrightarrow> y = Some r \<Longrightarrow> P) \<Longrightarrow> (\<And>a. x = Some a \<Longrightarrow> f a = Some r \<Longrightarrow> P) \<Longrightarrow> P"
  by (cases x) simp_all

lemma case_prodE': "(case z of (a, b) \<Rightarrow> f a b) = Some r \<Longrightarrow> (\<And>a b. z = (a, b) \<Longrightarrow> f a b = Some r \<Longrightarrow> P) \<Longrightarrow> P"
  by (cases z) simp

lemmas handler_elims = bind_SomeE if_SomeE case_SomeE case_prodE'

lemma handleMP_typed: "handleMP w peer v rts withdraw = Some es \<Longrightarrow> typed PBmp es"
  unfolding handleMP_def Let_def
  by (elim handler_elims; (erule evpn_all_typed)?) auto

lemma upd_effects_typed: "upd_effects w peer v = Some es \<Longrightarrow> typed PBmp es"
  by (auto simp: upd_effects_def bind_eq_Some_conv split: option.splits dest: handleMP_typed)

lemma routeMon_typed: "routeMon w body = Some es \<Longrightarrow> typed PBmp es"
  by (auto simp: routeMon_def parseUpdate_def bind_eq_Some_conv Let_def
      split: option.splits if_splits dest: upd_effects_typed)

lemma typed_session:
  "typed PBmp [CacheUpdate ''openconfig''
     (leafUpdate (neighborElems vrf peer ''session-state'') (if up then ''ESTABLISHED'' else ''IDLE'') #
      (if b then [leafUpdate (neighborElems vrf peer ''peer-as'') (udec (a :: 32 word))] else [])) []]"
proof -
  have "schema PBmp ''openconfig'' (neighborElems vrf peer ''session-state'')
      (StringVal (if up then ''ESTABLISHED'' else ''IDLE''))"
    by (intro sc_session) simp
  then show ?thesis by (simp add: sc_peer_as)
qed

lemma peerState_typed:
  assumes "peerState b env body up = Some (b', es)"
  shows "typed PBmp es"
proof -
  obtain pp where pp: "perPeer body = Some pp" using assms by (auto simp: peerState_def bind_eq_Some_conv)
  show ?thesis
  proof (cases pp)
    case None
    with assms pp show ?thesis by (simp add: peerState_def)
  next
    case (Some x)
    obtain peer peerAS ptype rd where x: "x = (peer, peerAS, ptype, rd)" by (rule prod_cases4)
    from assms pp Some x have "es = [] \<or> (\<exists>vrf. es = [CacheUpdate ''openconfig''
       (leafUpdate (neighborElems vrf (ip_string peer) ''session-state'') (if up then ''ESTABLISHED'' else ''IDLE'') #
        (if up \<and> peerAS \<noteq> 0 then [leafUpdate (neighborElems vrf (ip_string peer) ''peer-as'') (udec peerAS)] else [])) []])"
      by (cases "is_unspecified peer") (auto simp: peerState_def bind_eq_Some_conv Let_def split_beta simp del: if_split)
    then show ?thesis
    proof (elim disjE exE)
      fix vrf assume es: "es = [CacheUpdate ''openconfig''
       (leafUpdate (neighborElems vrf (ip_string peer) ''session-state'') (if up then ''ESTABLISHED'' else ''IDLE'') #
        (if up \<and> peerAS \<noteq> 0 then [leafUpdate (neighborElems vrf (ip_string peer) ''peer-as'') (udec peerAS)] else [])) []]"
      show ?thesis unfolding es by (rule typed_session)
    qed simp
  qed
qed

lemma typed_leaf: "schema c org es (StringVal v) \<Longrightarrow>
    (schema c org (gp_elem (u_path (leafUpdate es v))) (u_val (leafUpdate es v)))"
  by simp

lemma route_event_typed: "typed PNetlink (route_event w u)"
proof -
  have "schema PNetlink ''frr'' (routeElems pfx tb leaf) (StringVal s)"
    if "leaf \<in> {''next-hop'', ''protocol''}" "pfx \<noteq> []" for pfx tb leaf s
    using that by (rule sc_kroute)
  then show ?thesis by (simp add: route_event_def Let_def speaks_def stage_of_def)
qed

lemma operStatus_enum: "operStatus s \<in> oper_enum"
  by (cases s) (simp_all add: operStatus_def oper_enum_def)

lemma writeLinkState_typed: "typed PNetlink (writeLinkState l)"
proof -
  have num: "schema PNetlink ''openconfig'' (ifaceElems n ''ifindex'') (UintVal u)"
    "schema PNetlink ''openconfig'' (ifaceElems n ''mtu'') (UintVal u)" for n u
    by (rule sc_number; simp)+
  have adm: "schema PNetlink ''openconfig'' (ifaceElems n ''admin-status'') (StringVal (if b then ''UP'' else ''DOWN''))"
    for n b by (rule sc_admin) simp
  show ?thesis
    using num adm sc_iface sc_type sc_oper [OF operStatus_enum] by (simp add: writeLinkState_def Let_def uintVal_def del: if_split)
qed

lemma link_event_typed: "typed PNetlink (link_event w u)"
  by (cases u) (simp add: link_event_def Let_def writeLinkState_typed speaks_def)

lemma fdb_write_typed: "typed PNetlink (fdb_write bi ne)"
  by (simp add: fdb_write_def Let_def sc_mac sc_mac_if)

lemma neigh_event_typed: "typed PNetlink (neigh_event bi u)"
  by (cases u) (simp add: neigh_event_def fdb_write_typed)

lemma mpls_write_typed: "typed PNetlink (mpls_write bi r)"
proof -
  have "schema PNetlink ''frr'' (mplsElems l leaf) (StringVal s)"
    if "leaf \<in> {''next-hop'', ''interface''}" for l leaf s using that by (rule sc_mpls)
  moreover have "schema PNetlink ''frr'' (mplsElems l ''out-label'') (StringVal [])" for l
    using sc_out_label [of l "[]"] by (simp add: intsCSV_def)
  ultimately show ?thesis by (simp add: mpls_write_def Let_def sc_in_label sc_out_label split: option.split)
qed

lemma addr_write_typed: "typed PNetlink (addr_write name a)"
  by (simp add: addr_write_def Let_def sc_addr sc_plen split: option.split)

lemma counter_typed: "leaf \<in> counter_names \<Longrightarrow>
    schema PNetlink ''openconfig'' (gp_elem (u_path (counterUpdate n leaf v))) (u_val (counterUpdate n leaf v))"
  using sc_counter [of leaf n v] by (simp add: counterUpdate_def uintVal_def)

lemma sampleCounters_typed: "typed PNetlink (sampleCounters links)"
  by (auto simp: sampleCounters_def Let_def counter_typed counter_names_def split: option.splits)

lemma snapshots_typed:
  "typed PNetlink (snapshotFDB bi ns)" "typed PNetlink (snapshotMPLS bi rs)" "typed PNetlink (snapshotAddrs addrs links)"
  by (auto simp: snapshotFDB_def snapshotMPLS_def snapshotAddrs_def fdb_write_typed mpls_write_typed addr_write_typed
      split: option.splits)

lemma snapshot_typed: "typed PNetlink (snapshot d)"
  by (auto simp: snapshot_def writeLinkState_typed sampleCounters_typed snapshots_typed split: option.splits)

lemma counter_tick_typed: "typed PNetlink (counter_tick d)"
  by (simp add: counter_tick_def sampleCounters_typed snapshots_typed)

lemma adjState_enum: "adjState s \<in> adj_enum"
  by (simp add: adjState_def adj_enum_def Let_def)

lemma adj_change_typed: "typed POspf (adj_change w sts rid n)"
  by (simp add: adj_change_def Let_def speaks_def split: option.split)

lemma nbr_ups_typed: "typed POspf [CacheUpdate ''openconfig'' (nbr_ups rid n) []]"
  by (simp add: nbr_ups_def sc_adj [OF adjState_enum] sc_adj_addr)

lemma ospf_write_typed: "typed POspf (snd (snd (ospf_write w xs seen sts)))"
proof (induction w xs seen sts rule: ospf_write.induct)
  case (2 w rid n xs seen sts)
  then show ?case using nbr_ups_typed [of rid n] by (simp add: split_beta Let_def adj_change_typed flip: fun_upd_def)
qed simp

lemma ospf_delete_typed: "typed POspf (snd (ospf_delete w seen old sts))"
  by (induction w seen old sts rule: ospf_delete.induct) (auto simp: split_beta Let_def speaks_def simp flip: fun_upd_def)

lemma ospf_reconcile_typed: "typed POspf (snd (ospf_reconcile s x))"
  by (auto simp: ospf_reconcile_def split_beta Let_def ospf_write_typed ospf_delete_typed split: option.split prod.split)

lemma lldp_ups_typed: "nb_chassisID nb \<noteq> [] \<Longrightarrow> typed PLldp [CacheUpdate ''openconfig'' (lldp_ups ifn nb) []]"
  by (simp add: lldp_ups_def sc_chassis sc_lldp lldp_names_def)

lemma lldp_write_typed: "typed PLldp (snd (lldp_write xs seen))"
proof (induction xs seen rule: lldp_write.induct)
  case (2 ifn nb xs seen)
  then show ?case using lldp_ups_typed [of nb ifn] by (simp add: split_beta Let_def flip: fun_upd_def)
qed simp

lemma lldp_delete_typed: "typed PLldp (lldp_delete seen old)"
  by (induction old) auto

lemma host_typed: "grp \<in> {''cpu'', ''memory''} \<Longrightarrow> u \<in> set (opt_update grp leaf v) \<Longrightarrow>
    schema PCgroup ''host'' (gp_elem (u_path u)) (u_val u)"
  using sc_host [of grp leaf "the v"] by (auto simp: opt_update_def hostUpdate_def uintVal_def split: option.splits)

lemma sample_typed: "typed PCgroup (sample files)"
proof -
  have "schema PCgroup ''host'' (gp_elem (u_path u)) (u_val u)"
    if "u \<in> set (concat (map (\<lambda>(key, leaf). opt_update ''cpu'' leaf (cpu key)) cpu_fields)) \<union> set (opt_update ''memory'' l1 v1) \<union>
      set (opt_update ''memory'' l2 v2) \<union> set (opt_update ''memory'' l3 v3)" for u cpu l1 v1 l2 v2 l3 v3
    using that host_typed [of "''cpu''"] host_typed [of "''memory''"] by auto
  then show ?thesis by (auto simp: sample_def Let_def)
qed

section \<open>The tree\<close>

text \<open>Leaves in the schema stay in it.\<close>

definition typed_tree :: "tree \<Rightarrow> bool" where
  "typed_tree t \<longleftrightarrow> (\<forall>org p v. t (org, p) = Some v \<longrightarrow> (\<exists>c. schema c org p v))"

lemma typed_tree_effect:
  assumes "typed_tree t" and "typed_effect c e"
  shows "typed_tree (tree_effect t e)"
proof (cases e)
  case (CacheUpdate o' ups dels)
  have "\<exists>c. schema c org p v" if v: "put_tree o' ups dels t (org, p) = Some v" for org p v
    using put_tree_some [OF v]
  proof (elim disjE conjE bexE)
    fix u assume "org = o'" "u \<in> set ups" "gp_elem (u_path u) = p" "u_val u = v"
    with assms(2) CacheUpdate show ?thesis by auto
  next
    assume "t (org, p) = Some v"
    with assms(1) show ?thesis unfolding typed_tree_def by blast
  qed
  then show ?thesis unfolding typed_tree_def CacheUpdate tree_effect_simps by blast
qed (use assms in simp_all)

text \<open>A plane changes nothing outside its region.\<close>

lemma put_tree_unchanged:
  assumes "\<And>u. u \<in> set ups \<Longrightarrow> gp_elem (u_path u) \<noteq> p" and "\<And>d. d \<in> set dels \<Longrightarrow> \<not> below (gp_elem d) p"
  shows "put_tree org ups dels t (o', p) = t (o', p)"
proof -
  have "p \<notin> fst ` set (map (\<lambda>u. (gp_elem (u_path u), u_val u)) ups)" using assms(1) by fastforce
  with assms(2) show ?thesis by (auto simp: put_tree_def set_leaves_other del_paths_lookup)
qed

lemma typed_effect_frame:
  assumes "typed_effect c e" and "owner org p \<noteq> Some c"
  shows "tree_effect t e (org, p) = t (org, p)"
proof (cases e)
  case (CacheUpdate o' ups dels)
  show ?thesis
  proof (cases "o' = org")
    case True
    have "gp_elem (u_path u) \<noteq> p" if "u \<in> set ups" for u
    proof -
      from that assms(1) have "schema c o' (gp_elem (u_path u)) (u_val u)" by (simp add: CacheUpdate)
      from schema_owner [OF this] assms(2) True show ?thesis by metis
    qed
    moreover have "\<not> below (gp_elem d) p" if "d \<in> set dels" for d
    proof -
      from that assms(1) have "owner o' (gp_elem d) = Some c" by (simp add: CacheUpdate)
      from owner_below [OF this, of p] assms(2) True show ?thesis by metis
    qed
    ultimately show ?thesis by (simp add: CacheUpdate put_tree_unchanged)
  next
    case False
    with CacheUpdate show ?thesis by (simp add: put_tree_other_origin)
  qed
qed simp_all

text \<open>What an update does to a leaf depends on nothing but that leaf.\<close>

lemma set_leaves_local: "t (org, p) = t' (org, p) \<Longrightarrow> set_leaves o' us t (org, p) = set_leaves o' us t' (org, p)"
proof (induction us arbitrary: t t')
  case (Cons u us)
  obtain q v where u: "u = (q, v)" by (rule prod.exhaust)
  have "(t((o', q) \<mapsto> v)) (org, p) = (t'((o', q) \<mapsto> v)) (org, p)" using Cons.prems by simp
  then show ?case unfolding u set_leaves_simps by (rule Cons.IH)
qed simp

lemma tree_effect_local:
  assumes "t (org, p) = t' (org, p)"
  shows "tree_effect t e (org, p) = tree_effect t' e (org, p)"
proof (cases e)
  case (CacheUpdate o' ups dels)
  have "del_paths o' ds t (org, p) = del_paths o' ds t' (org, p)" for ds
    using assms by (auto simp: del_paths_lookup)
  then show ?thesis unfolding CacheUpdate tree_effect_simps put_tree_def by (rule set_leaves_local)
qed (simp_all add: assms)

end
