(* ===== verification/Shim.thy ===== *)
theory Shim
  imports Planes Reconcile
begin

text \<open>
  \<^verbatim>\<open>cmd/frr-visible/main.go\<close> and the \<^verbatim>\<open>Run\<close> methods it starts: the shim as one
  machine.  Its goroutines share the tree, the tracker, the correlator's queue and the OSPF
  trigger; a handler computes its effects in one step and performs them one by one, so that the
  effects of all goroutines interleave.  What is proved here holds for every interleaving.
\<close>

section \<open>Shared state\<close>

text \<open>
  One cache, one correlator, one tracker and the OSPF trigger are shared by the ingesters.  The
  tracker's anomaly hook emits root events into the correlator, and the reconnect hooks of FPM
  and BMP are OSPF's \<^verbatim>\<open>Kick\<close>.  The cache is a library; an update of it does to the tree
  what a gNMI notification means, first its deletes and then its updates (\<open>put_tree\<close>).  That
  the library also rejects an update older than the leaf it has, by the wall clock of the two
  calls, is not part of the model.
\<close>

record shim =
  s_tree :: tree
  s_lin :: tracker
  s_cor :: correlator
  s_trig :: "unit list"

definition shim_start :: "string \<Rightarrow> shim" where
  "shim_start target =
     \<lparr>s_tree = Map.empty, s_lin = lineage_New (3 * second) True, s_cor = correlate_New target, s_trig = []\<rparr>"

definition shim_emit :: "time \<Rightarrow> shim \<Rightarrow> string \<Rightarrow> string \<Rightarrow> string \<Rightarrow> string \<Rightarrow> bool \<Rightarrow> shim" where
  "shim_emit now s bus kind key detail root =
     s\<lparr>s_cor := the (Emit (Some (s_cor s)) now bus kind key detail root)\<rparr>"

definition apply_effect :: "time \<Rightarrow> shim \<Rightarrow> effect \<Rightarrow> shim" where
  "apply_effect now s e =
     (case e of
        CacheUpdate org ups dels \<Rightarrow> s\<lparr>s_tree := put_tree org ups dels (s_tree s)\<rparr>
      | EmitEvent bus kind key detail root \<Rightarrow> shim_emit now s bus kind key detail root
      | ObserveRoute p st b d \<Rightarrow> s\<lparr>s_lin := Observe (s_lin s) now p st b d\<rparr>
      | KickOSPF reason \<Rightarrow> s\<lparr>s_trig := Kick reason (s_trig s)\<rparr>)"

definition apply_effects :: "time \<Rightarrow> shim \<Rightarrow> effect list \<Rightarrow> shim" where
  "apply_effects now s es = foldl (apply_effect now) s es"

text \<open>One pass of the tracker's loop, its anomalies passed to the correlator.\<close>

definition lineage_pass :: "time \<Rightarrow> (string \<times> entry) list \<Rightarrow> shim \<Rightarrow> shim" where
  "lineage_pass now xs s =
     (let (lin, out) = reconcile (s_lin s) now xs in
      foldl (\<lambda>s (kind, pfx, detail). shim_emit now s ''lineage'' kind pfx detail True)
        (s\<lparr>s_lin := lin\<rparr>) out)"

lemma apply_effects_simps [simp]:
  "apply_effects now s [] = s"
  "apply_effects now s (e # es) = apply_effects now (apply_effect now s e) es"
  "apply_effects now s (xs @ ys) = apply_effects now (apply_effects now s xs) ys"
  by (simp_all add: apply_effects_def)

lemma shim_emit_simps [simp]:
  "s_tree (shim_emit now s a b c d r) = s_tree s" "s_lin (shim_emit now s a b c d r) = s_lin s"
  "s_trig (shim_emit now s a b c d r) = s_trig s"
  "c_ch (s_cor (shim_emit now s a b c d r)) = nb_send chan_cap (c_ch (s_cor s))
     \<lparr>ev_bus = a, ev_kind = b, ev_key = c, ev_detail = d, ev_root = r, ev_ts = now\<rparr>"
  by (simp_all add: shim_emit_def Emit_def)

lemma apply_effect_simps [simp]:
  "apply_effect now s (CacheUpdate org ups dels) = s\<lparr>s_tree := put_tree org ups dels (s_tree s)\<rparr>"
  "apply_effect now s (EmitEvent bus kind key detail root) = shim_emit now s bus kind key detail root"
  "apply_effect now s (ObserveRoute p st b d) = s\<lparr>s_lin := Observe (s_lin s) now p st b d\<rparr>"
  "apply_effect now s (KickOSPF reason) = s\<lparr>s_trig := Kick reason (s_trig s)\<rparr>"
  by (simp_all add: apply_effect_def)

lemma shim_tree: "s_tree (apply_effects now s es) = tree_effects (s_tree s) es"
  by (induction es arbitrary: s) (auto simp: apply_effect_def split: effect.split)

lemma shim_lin:
  "s_lin (apply_effects now s es) =
     foldl (\<lambda>t (p, st, b, d). Observe t now p st b d) (s_lin s) (observations es)"
  by (induction es arbitrary: s) (auto simp: apply_effect_def observations_def split: effect.split)

text \<open>A trigger once pending stays pending until the OSPF worker takes it.\<close>

lemma trig_kept: "s_trig s \<noteq> [] \<Longrightarrow> s_trig (apply_effects now s es) \<noteq> []"
proof (induction es arbitrary: s)
  case (Cons e es)
  then have "s_trig (apply_effect now s e) \<noteq> []"
    by (auto simp: apply_effect_def Kick_def ospf_signal_def nb_send_def split: effect.split)
  with Cons show ?case by simp
qed simp

section \<open>The goroutines\<close>

text \<open>
  The goroutines that touch shared state: one per FPM and BMP connection, the netlink loops
  (\<^verbatim>\<open>routeLoop\<close>, \<^verbatim>\<open>linkLoop\<close>, \<^verbatim>\<open>neighLoop\<close>, and the one that takes the snapshot and then the
  samples), LLDP's ticker and watcher, OSPF's worker, the cgroup sampler and the lineage loop.
\<close>

datatype goroutine =
    GFpm nat | GBmp nat | GRoute | GLink | GNeigh | GPoll | GTicker | GWatch | GOspf | GCgroup | GLineage

fun plane_of :: "goroutine \<Rightarrow> plane" where
  "plane_of (GFpm c) = PFpm"
| "plane_of (GBmp c) = PBmp"
| "plane_of GRoute = PNetlink"
| "plane_of GLink = PNetlink"
| "plane_of GNeigh = PNetlink"
| "plane_of GPoll = PNetlink"
| "plane_of GTicker = PLldp"
| "plane_of GWatch = PLldp"
| "plane_of GOspf = POspf"
| "plane_of GCgroup = PCgroup"
| "plane_of GLineage = PLineage"

text \<open>What each ingester is wired to in \<^verbatim>\<open>main\<close>.\<close>

definition netlink_wired :: wiring where
  "netlink_wired = \<lparr>w_cor = True, w_lin = True, w_hook = False\<rparr>"

definition ospf_wired :: wiring where
  "ospf_wired = \<lparr>w_cor = True, w_lin = False, w_hook = False\<rparr>"

text \<open>
  The process: \<open>nd_on\<close> are the goroutines that run, \<open>nd_todo\<close> the effects a goroutine has
  computed and not yet performed, \<open>nd_active\<close> the local variable of the correlator's loop.
\<close>

record node =
  nd_up :: bool
  nd_shim :: shim
  nd_active :: "acc option"
  nd_fpm :: fpm
  nd_bmp :: bmp
  nd_ospf :: ospf
  nd_worker :: worker
  nd_seen :: lldp_seen
  nd_pc :: "goroutine \<Rightarrow> lldp_pc"
  nd_snapped :: bool
  nd_on :: "goroutine set"
  nd_todo :: "goroutine \<Rightarrow> effect list"

text \<open>
  What may fail at start-up without ending the process: the subscriptions to the kernel's
  groups (without links the whole plane is off, without neighbours or routes only their loop),
  and the cgroup files.
\<close>

record startup =
  su_link :: bool
  su_neigh :: bool
  su_route :: bool
  su_cgroup :: bool

definition start_on :: "startup \<Rightarrow> goroutine set" where
  "start_on su =
     {GWatch, GOspf, GLineage} \<union>
     (if su_link su
      then {GLink, GPoll} \<union> (if su_neigh su then {GNeigh} else {}) \<union> (if su_route su then {GRoute} else {})
      else {}) \<union>
     (if su_cgroup su then {GCgroup} else {})"

text \<open>
  \<^verbatim>\<open>main\<close> up to the start of the goroutines: OSPF begins with a reading that needs no
  trigger.
\<close>

definition node_start :: "string \<Rightarrow> time \<Rightarrow> link_list \<Rightarrow> link_list \<Rightarrow> startup \<Rightarrow> node" where
  "node_start target t0 flinks blinks su =
     \<lparr>nd_up = True, nd_shim = (shim_start target)\<lparr>s_cor := fst (Run_start (correlate_New target) t0)\<rparr>,
      nd_active = None, nd_fpm = NewFPM flinks all_wired, nd_bmp = NewBMP blinks all_wired,
      nd_ospf = NewOSPF ospf_wired, nd_worker = Settling, nd_seen = Map.empty, nd_pc = (\<lambda>_. PcIdle),
      nd_snapped = False, nd_on = start_on su, nd_todo = (\<lambda>_. [])\<rparr>"

section \<open>Steps\<close>

text \<open>What a step shows of itself: the history the properties speak of.\<close>

datatype label =
    Did goroutine time effect
  | Accepted goroutine time
  | FpmFrame nat link_list byte bytes
  | BmpFrame nat vrf_env byte bytes
  | RouteRead route_update
  | DumpRead dumps
  | OspfRead ospf_input
  | Passed time "(string \<times> entry) list"
  | Folded sel
  | Tau

text \<open>A goroutine can take its next input; it takes one and computes what to do about it.\<close>

definition idle :: "node \<Rightarrow> goroutine \<Rightarrow> bool" where
  "idle s g \<longleftrightarrow> nd_up s \<and> g \<in> nd_on s \<and> nd_todo s g = []"

definition batch :: "goroutine \<Rightarrow> effect list \<Rightarrow> node \<Rightarrow> node" where
  "batch g es s = s\<lparr>nd_todo := (nd_todo s)(g := es)\<rparr>"

definition on_shim :: "(shim \<Rightarrow> shim) \<Rightarrow> node \<Rightarrow> node" where
  "on_shim f s = s\<lparr>nd_shim := f (nd_shim s)\<rparr>"

text \<open>
  The accept loops of FPM and BMP call the reconnect hook and start a handler; a handler reads
  frames until the stream ends, which may be at any frame.  A handler that panics ends the
  process, and so does a listener that fails (\<^verbatim>\<open>log.Fatalf\<close>).
\<close>

inductive fpm_step :: "node \<Rightarrow> label \<Rightarrow> node \<Rightarrow> bool" where
  fpm_accept: "nd_up s \<Longrightarrow> GFpm c \<notin> nd_on s \<Longrightarrow> w_hook (f_w (nd_fpm s)) \<Longrightarrow>
    fpm_step s (Accepted (GFpm c) now)
      (on_shim (\<lambda>h. apply_effect now h (KickOSPF ''fpm-reconnect'')) (s\<lparr>nd_on := insert (GFpm c) (nd_on s)\<rparr>))"
| fpm_read: "idle s (GFpm c) \<Longrightarrow> length body + 4 < 2 ^ 16 \<Longrightarrow>
    fpm_frame (\<lambda>_. links) (nd_fpm s, 0, []) ty body = Some (f, n, es) \<Longrightarrow>
    fpm_step s (FpmFrame c links ty body) (batch (GFpm c) es (s\<lparr>nd_fpm := f\<rparr>))"
| fpm_panic: "idle s (GFpm c) \<Longrightarrow> fpm_frame (\<lambda>_. links) (nd_fpm s, 0, []) ty body = None \<Longrightarrow>
    fpm_step s Tau (s\<lparr>nd_up := False\<rparr>)"
| fpm_close: "idle s (GFpm c) \<Longrightarrow> fpm_step s Tau (s\<lparr>nd_on := nd_on s - {GFpm c}\<rparr>)"
| fpm_listener: "fpm_step s Tau (s\<lparr>nd_up := False\<rparr>)"

inductive bmp_step :: "node \<Rightarrow> label \<Rightarrow> node \<Rightarrow> bool" where
  bmp_accept: "nd_up s \<Longrightarrow> GBmp c \<notin> nd_on s \<Longrightarrow> w_hook (b_w (nd_bmp s)) \<Longrightarrow>
    bmp_step s (Accepted (GBmp c) now)
      (on_shim (\<lambda>h. apply_effect now h (KickOSPF ''bmp-reconnect'')) (s\<lparr>nd_on := insert (GBmp c) (nd_on s)\<rparr>))"
| bmp_read: "idle s (GBmp c) \<Longrightarrow> length body + 6 < 2 ^ 32 \<Longrightarrow>
    bmp_frame (\<lambda>_. env) (nd_bmp s, 0, []) ty body = Some (b, n, es) \<Longrightarrow>
    bmp_step s (BmpFrame c env ty body) (batch (GBmp c) es (s\<lparr>nd_bmp := b\<rparr>))"
| bmp_panic: "idle s (GBmp c) \<Longrightarrow> bmp_frame (\<lambda>_. env) (nd_bmp s, 0, []) ty body = None \<Longrightarrow>
    bmp_step s Tau (s\<lparr>nd_up := False\<rparr>)"
| bmp_close: "idle s (GBmp c) \<Longrightarrow> bmp_step s Tau (s\<lparr>nd_on := nd_on s - {GBmp c}\<rparr>)"
| bmp_listener: "bmp_step s Tau (s\<lparr>nd_up := False\<rparr>)"

text \<open>The netlink loops, fed by the channels of the library, and the sampler.\<close>

inductive kernel_step :: "node \<Rightarrow> label \<Rightarrow> node \<Rightarrow> bool" where
  k_route: "idle s GRoute \<Longrightarrow> kernel_step s (RouteRead u) (batch GRoute (route_event netlink_wired u) s)"
| k_link: "idle s GLink \<Longrightarrow> kernel_step s Tau (batch GLink (link_event netlink_wired u) s)"
| k_neigh: "idle s GNeigh \<Longrightarrow> kernel_step s Tau (batch GNeigh (neigh_event bi u) s)"
| k_snapshot: "idle s GPoll \<Longrightarrow> \<not> nd_snapped s \<Longrightarrow>
    kernel_step s (DumpRead d) (batch GPoll (snapshot d) (s\<lparr>nd_snapped := True\<rparr>))"
| k_poll: "idle s GPoll \<Longrightarrow> nd_snapped s \<Longrightarrow> kernel_step s (DumpRead d) (batch GPoll (counter_tick d) s)"

text \<open>The cgroup sampler, which runs when \<^verbatim>\<open>cpu.stat\<close> was there at the start.\<close>

inductive sampler_step :: "node \<Rightarrow> label \<Rightarrow> node \<Rightarrow> bool" where
  cg_sample: "idle s GCgroup \<Longrightarrow> sampler_step s Tau (batch GCgroup (sample files) s)"

text \<open>
  The rounds of LLDP, in the stages of \<^verbatim>\<open>reconcile\<close> at which it touches the shared
  \<^verbatim>\<open>seen\<close>.  The watcher makes the first round and starts the ticker once
  \<^verbatim>\<open>lldpcli watch\<close> runs; it ends when the command cannot be started or exits.
\<close>

inductive lldp_step :: "node \<Rightarrow> label \<Rightarrow> node \<Rightarrow> bool" where
  l_read: "idle s g \<Longrightarrow> g \<in> {GTicker, GWatch} \<Longrightarrow> nd_pc s g = PcIdle \<Longrightarrow> enumerates cur (parseLLDP out) \<Longrightarrow>
    lldp_step s Tau (s\<lparr>nd_pc := (nd_pc s)(g := PcRead cur)\<rparr>)"
| l_write: "idle s g \<Longrightarrow> g \<in> {GTicker, GWatch} \<Longrightarrow> nd_pc s g = PcRead cur \<Longrightarrow>
    lldp_write cur Map.empty = (seen', es) \<Longrightarrow>
    lldp_step s Tau (batch g es (s\<lparr>nd_pc := (nd_pc s)(g := PcWritten seen')\<rparr>))"
| l_delete: "idle s g \<Longrightarrow> g \<in> {GTicker, GWatch} \<Longrightarrow> nd_pc s g = PcWritten seen' \<Longrightarrow> enumerates old (nd_seen s) \<Longrightarrow>
    lldp_step s Tau (batch g (lldp_delete seen' old) (s\<lparr>nd_pc := (nd_pc s)(g := PcDeleted seen')\<rparr>))"
| l_remember: "idle s g \<Longrightarrow> g \<in> {GTicker, GWatch} \<Longrightarrow> nd_pc s g = PcDeleted seen' \<Longrightarrow>
    lldp_step s Tau (s\<lparr>nd_seen := seen', nd_pc := (nd_pc s)(g := PcIdle)\<rparr>)"
| l_watching: "idle s GWatch \<Longrightarrow> nd_pc s GWatch = PcIdle \<Longrightarrow>
    lldp_step s Tau (s\<lparr>nd_on := insert GTicker (nd_on s)\<rparr>)"
| l_exit: "idle s GWatch \<Longrightarrow> nd_pc s GWatch = PcIdle \<Longrightarrow> lldp_step s Tau (s\<lparr>nd_on := nd_on s - {GWatch}\<rparr>)"

text \<open>
  OSPF: the syslog receiver and the fallback ticker signal; the worker takes a trigger, reads
  and applies what it read.
\<close>

inductive ospf_step :: "node \<Rightarrow> label \<Rightarrow> node \<Rightarrow> bool" where
  o_syslog: "nd_up s \<Longrightarrow>
    ospf_step s Tau (on_shim (\<lambda>h. h\<lparr>s_trig := syslog_signal msg (s_trig h)\<rparr>) s)"
| o_fallback: "nd_up s \<Longrightarrow> ospf_step s Tau (on_shim (\<lambda>h. h\<lparr>s_trig := ospf_signal (s_trig h)\<rparr>) s)"
| o_take: "idle s GOspf \<Longrightarrow> nd_worker s = Waiting \<Longrightarrow> chan_recv (s_trig (nd_shim s)) = Some (u, ch) \<Longrightarrow>
    ospf_step s Tau (on_shim (\<lambda>h. h\<lparr>s_trig := ch\<rparr>) (s\<lparr>nd_worker := Settling\<rparr>))"
| o_read: "idle s GOspf \<Longrightarrow> nd_worker s = Settling \<Longrightarrow> ospf_ok (nd_ospf s) x \<Longrightarrow>
    ospf_reconcile (nd_ospf s) x = (o', es) \<Longrightarrow>
    ospf_step s (OspfRead x) (batch GOspf es (s\<lparr>nd_ospf := o', nd_worker := Applying\<rparr>))"
| o_done: "idle s GOspf \<Longrightarrow> nd_worker s = Applying \<Longrightarrow> ospf_step s Tau (s\<lparr>nd_worker := Waiting\<rparr>)"

text \<open>
  The tracker's loop: a pass holds the tracker's lock and calls the anomaly hook after it.
\<close>

inductive pass_step :: "node \<Rightarrow> label \<Rightarrow> node \<Rightarrow> bool" where
  c_pass: "idle s GLineage \<Longrightarrow> enumerates xs (t_routes (s_lin (nd_shim s))) \<Longrightarrow>
    reconcile (s_lin (nd_shim s)) now xs = (lin, out) \<Longrightarrow>
    pass_step s (Passed now xs)
      (batch GLineage (map (\<lambda>(kind, pfx, detail). EmitEvent ''lineage'' kind pfx detail True) out)
        (on_shim (\<lambda>h. h\<lparr>s_lin := lin\<rparr>) s))"

text \<open>The correlator's loop: a turn of its \<^verbatim>\<open>select\<close> takes an event or a tick.\<close>

inductive core_step :: "node \<Rightarrow> label \<Rightarrow> node \<Rightarrow> bool" where
  c_recv: "nd_up s \<Longrightarrow> take_event (s_cor (nd_shim s)) = Some (e, c) \<Longrightarrow>
    on_event (c, nd_active s) e now = (c', act) \<Longrightarrow>
    core_step s (Folded (Recv e now)) (on_shim (\<lambda>h. h\<lparr>s_cor := c'\<rparr>) (s\<lparr>nd_active := act\<rparr>))"
| c_tick: "nd_up s \<Longrightarrow> on_tick (s_cor (nd_shim s), nd_active s) now = (c', act) \<Longrightarrow>
    core_step s (Folded (Ticked now)) (on_shim (\<lambda>h. h\<lparr>s_cor := c'\<rparr>) (s\<lparr>nd_active := act\<rparr>))"

text \<open>The whole: any of these, or a goroutine performs the next of its effects.\<close>

inductive node_step :: "node \<Rightarrow> label \<Rightarrow> node \<Rightarrow> bool" where
  perform: "nd_up s \<Longrightarrow> nd_todo s g = e # es \<Longrightarrow>
    node_step s (Did g now e) (batch g es (on_shim (\<lambda>h. apply_effect now h e) s))"
| by_fpm: "fpm_step s l s' \<Longrightarrow> node_step s l s'"
| by_bmp: "bmp_step s l s' \<Longrightarrow> node_step s l s'"
| by_kernel: "kernel_step s l s' \<Longrightarrow> node_step s l s'"
| by_lldp: "lldp_step s l s' \<Longrightarrow> node_step s l s'"
| by_ospf: "ospf_step s l s' \<Longrightarrow> node_step s l s'"
| by_sampler: "sampler_step s l s' \<Longrightarrow> node_step s l s'"
| by_pass: "pass_step s l s' \<Longrightarrow> node_step s l s'"
| by_core: "core_step s l s' \<Longrightarrow> node_step s l s'"

inductive node_run :: "node \<Rightarrow> label list \<Rightarrow> node \<Rightarrow> bool" for s0 where
  run_nil: "node_run s0 [] s0"
| run_snoc: "node_run s0 ls s \<Longrightarrow> node_step s l s' \<Longrightarrow> node_run s0 (ls @ [l]) s'"

lemmas step_cases = node_step.cases fpm_step.cases bmp_step.cases kernel_step.cases lldp_step.cases
  ospf_step.cases sampler_step.cases pass_step.cases core_step.cases

lemma batch_simps [simp]:
  "nd_up (batch g es s) = nd_up s" "nd_shim (batch g es s) = nd_shim s" "nd_active (batch g es s) = nd_active s"
  "nd_fpm (batch g es s) = nd_fpm s" "nd_bmp (batch g es s) = nd_bmp s" "nd_on (batch g es s) = nd_on s"
  "nd_todo (batch g es s) = (nd_todo s)(g := es)" "nd_ospf (batch g es s) = nd_ospf s"
  "nd_worker (batch g es s) = nd_worker s"
  by (simp_all add: batch_def)

lemma on_shim_simps [simp]:
  "nd_up (on_shim f s) = nd_up s" "nd_shim (on_shim f s) = f (nd_shim s)" "nd_active (on_shim f s) = nd_active s"
  "nd_fpm (on_shim f s) = nd_fpm s" "nd_bmp (on_shim f s) = nd_bmp s" "nd_on (on_shim f s) = nd_on s"
  "nd_todo (on_shim f s) = nd_todo s" "nd_ospf (on_shim f s) = nd_ospf s" "nd_worker (on_shim f s) = nd_worker s"
  by (simp_all add: on_shim_def)

lemma run_append: "node_run s ks s' \<Longrightarrow> node_run s0 ls s \<Longrightarrow> node_run s0 (ls @ ks) s'"
proof (induction rule: node_run.induct)
  case (run_snoc ks s1 l s2)
  then show ?case using node_run.run_snoc [of s0 "ls @ ks" s1 l s2] by simp
qed simp

section \<open>Every effect is its plane's\<close>

lemma fpm_frame_typed: "fpm_frame env (f, n, []) ty body = Some (f', n', es) \<Longrightarrow> typed PFpm es"
  by (auto simp: fpm_frame_def split: if_splits dest: handleNetlink_typed)

lemma bmp_frame_typed: "bmp_frame env (b, n, []) ty body = Some (b', n', es) \<Longrightarrow> typed PBmp es"
  by (auto simp: bmp_frame_def split: if_splits dest: peerState_typed routeMon_typed)

lemma lldp_written_typed: "lldp_write cur Map.empty = (seen', es) \<Longrightarrow> typed PLldp es"
  using lldp_write_typed [of cur Map.empty] by simp

lemma ospf_read_typed: "ospf_reconcile o0 x = (o', es) \<Longrightarrow> typed POspf es"
  using ospf_reconcile_typed [of o0 x] by simp

lemma pass_typed:
  assumes "reconcile t now xs = (lin, out)"
  shows "typed PLineage (map (\<lambda>(kind, pfx, detail). EmitEvent ''lineage'' kind pfx detail True) out)"
proof -
  have "\<forall>x \<in> set out. fst x = ''install-gap''"
    using assms reconcile_snd [of t now xs] by (cases "t_emit t") (auto simp: gap_anomaly_def)
  then show ?thesis by (induction out) (auto simp: speaks_def)
qed

definition todo_typed :: "node \<Rightarrow> bool" where
  "todo_typed s \<longleftrightarrow> (\<forall>g. typed (plane_of g) (nd_todo s g))"

lemma todo_typed_batch: "todo_typed s \<Longrightarrow> typed (plane_of g) es \<Longrightarrow> nd_todo s' = nd_todo s \<Longrightarrow> todo_typed (batch g es s')"
  by (simp add: todo_typed_def)

lemmas handlers_typed = route_event_typed link_event_typed neigh_event_typed snapshot_typed counter_tick_typed
  sample_typed lldp_delete_typed

lemmas results_typed = fpm_frame_typed bmp_frame_typed lldp_written_typed ospf_read_typed pass_typed

lemma todo_typed_step:
  assumes "node_step s l s'" and "todo_typed s"
  shows "todo_typed s'"
  using assms(1)
proof cases
  case (perform g e es now)
  then have "typed (plane_of g) (e # es)" using assms(2) unfolding todo_typed_def by metis
  then show ?thesis unfolding perform(1, 2) by (intro todo_typed_batch [OF assms(2)]) simp_all
next
  case by_fpm
  then show ?thesis
    by (cases rule: fpm_step.cases) (use assms(2) in \<open>auto simp: todo_typed_def dest: results_typed\<close>)
next
  case by_bmp
  then show ?thesis
    by (cases rule: bmp_step.cases) (use assms(2) in \<open>auto simp: todo_typed_def dest: results_typed\<close>)
next
  case by_kernel
  then show ?thesis
    by (cases rule: kernel_step.cases) (use assms(2) in \<open>auto simp: todo_typed_def handlers_typed\<close>)
next
  case by_lldp
  then show ?thesis
    by (cases rule: lldp_step.cases)
      (use assms(2) in \<open>auto simp: todo_typed_def handlers_typed dest: results_typed\<close>)
next
  case by_ospf
  then show ?thesis
    by (cases rule: ospf_step.cases) (use assms(2) in \<open>auto simp: todo_typed_def dest: results_typed\<close>)
next
  case by_sampler
  then show ?thesis
    by (cases rule: sampler_step.cases) (use assms(2) in \<open>auto simp: todo_typed_def handlers_typed\<close>)
next
  case by_pass
  then show ?thesis
    by (cases rule: pass_step.cases) (use assms(2) in \<open>auto simp: todo_typed_def dest: results_typed\<close>)
next
  case by_core
  then show ?thesis by (cases rule: core_step.cases) (use assms(2) in \<open>auto simp: todo_typed_def\<close>)
qed

lemma todo_typed_run: "node_run s0 ls s \<Longrightarrow> todo_typed s0 \<Longrightarrow> todo_typed s"
  by (induction rule: node_run.induct) (auto intro: todo_typed_step)

lemma todo_typed_start: "todo_typed (node_start target t0 fl bl su)"
  by (simp add: todo_typed_def node_start_def)

text \<open>What a step does to the tree: nothing, unless it performs an effect.\<close>

definition tree_label :: "label \<Rightarrow> tree \<Rightarrow> tree" where
  "tree_label l t = (case l of Did g now e \<Rightarrow> tree_effect t e | _ \<Rightarrow> t)"

lemma apply_effect_tree: "s_tree (apply_effect now h e) = tree_effect (s_tree h) e"
  by (simp add: apply_effect_def tree_effect_def split: effect.split)

lemma step_tree: "node_step s l s' \<Longrightarrow> s_tree (nd_shim s') = tree_label l (s_tree (nd_shim s))"
  by (elim step_cases)
    (simp_all add: tree_label_def apply_effect_tree)

lemma did_typed:
  assumes "node_step s (Did g now e) s'" and "todo_typed s"
  shows "typed_effect (plane_of g) e"
proof -
  from assms(1) obtain es where "nd_todo s g = e # es"
    by (cases rule: node_step.cases) (auto elim: step_cases(2-))
  with assms(2) have "typed (plane_of g) (e # es)" unfolding todo_typed_def by metis
  then show ?thesis by simp
qed

lemma run_typed:
  assumes "node_run (node_start target t0 fl bl su) ls s"
  shows "typed_tree (s_tree (nd_shim s))"
proof -
  have "todo_typed s \<and> typed_tree (s_tree (nd_shim s))"
    using assms
  proof (induction rule: node_run.induct)
    case run_nil
    show ?case using todo_typed_start [of target t0 fl bl su] by (simp add: typed_tree_def node_start_def shim_start_def)
  next
    case (run_snoc ls s l s')
    then have inv: "todo_typed s" "typed_tree (s_tree (nd_shim s))" by simp_all
    have "typed_tree (s_tree (nd_shim s'))"
      unfolding step_tree [OF run_snoc.hyps(2)]
    proof (cases l)
      case (Did g now e)
      with run_snoc.hyps(2) have "typed_effect (plane_of g) e" using did_typed inv(1) by blast
      with inv(2) show "typed_tree (tree_label l (s_tree (nd_shim s)))"
        by (simp add: Did tree_label_def typed_tree_effect)
    qed (use inv in \<open>simp_all add: tree_label_def\<close>)
    with todo_typed_step [OF run_snoc.hyps(2) inv(1)] show ?case by blast
  qed
  then show ?thesis by blast
qed

text \<open>
  C10. The tree is always well-typed: in every state the shim can reach, however its goroutines interleave
  and whatever they are sent, every leaf of the tree is one of the schema's: at a path some
  plane owns, with a value of the type of that leaf, in its enumeration if it has one, and
  equal to the key it repeats.
\<close>

theorem reachable_tree_typed:
  assumes "node_run (node_start target t0 fl bl su) ls s" and "s_tree (nd_shim s) (org, p) = Some v"
  shows "\<exists>c. schema c org p v \<and> owner org p = Some c"
  using run_typed [OF assms(1)] assms(2) schema_owner unfolding typed_tree_def by metis

section \<open>Interleaving\<close>

text \<open>What a plane has done in a run.\<close>

definition did :: "plane \<Rightarrow> label list \<Rightarrow> effect list" where
  "did c ls = concat (map (\<lambda>l. case l of Did g now e \<Rightarrow> if plane_of g = c then [e] else [] | _ \<Rightarrow> []) ls)"

lemma did_simps [simp]:
  "did c [] = []" "did c (ls @ ks) = did c ls @ did c ks"
  "did c [Did g now e] = (if plane_of g = c then [e] else [])" "did c [Accepted g now] = []"
  "did c [FpmFrame k links ty body] = []" "did c [BmpFrame k env ty body] = []" "did c [RouteRead u] = []" "did c [DumpRead z] = []" "did c [OspfRead y] = []"
  "did c [Passed now xs] = []" "did c [Folded x] = []" "did c [Tau] = []"
  by (simp_all add: did_def)

lemma plane_region:
  assumes "node_run (node_start target t0 fl bl su) ls s" and "owner org p = Some c"
  shows "s_tree (nd_shim s) (org, p) = tree_effects Map.empty (did c ls) (org, p)"
proof -
  have "todo_typed s \<and> (\<forall>q. owner org q = Some c \<longrightarrow>
      s_tree (nd_shim s) (org, q) = tree_effects Map.empty (did c ls) (org, q))"
    using assms(1)
  proof (induction rule: node_run.induct)
    case run_nil
    show ?case using todo_typed_start [of target t0 fl bl su] by (simp add: node_start_def shim_start_def)
  next
    case (run_snoc ls s l s')
    then have inv: "todo_typed s" and IH: "\<And>q. owner org q = Some c \<Longrightarrow>
        s_tree (nd_shim s) (org, q) = tree_effects Map.empty (did c ls) (org, q)" by simp_all
    have "s_tree (nd_shim s') (org, q) = tree_effects Map.empty (did c (ls @ [l])) (org, q)"
      if q: "owner org q = Some c" for q
      unfolding step_tree [OF run_snoc.hyps(2)]
    proof (cases l)
      case (Did g now e)
      with run_snoc.hyps(2) have ty: "typed_effect (plane_of g) e" using did_typed inv by blast
      show "tree_label l (s_tree (nd_shim s)) (org, q) = tree_effects Map.empty (did c (ls @ [l])) (org, q)"
      proof (cases "plane_of g = c")
        case True
        with IH q tree_effect_local [of "s_tree (nd_shim s)" org q "tree_effects Map.empty (did c ls)" e] show ?thesis
          by (simp add: Did tree_label_def)
      next
        case False
        with typed_effect_frame [OF ty, of org q] q IH show ?thesis by (simp add: Did tree_label_def)
      qed
    qed (use IH [OF q] in \<open>simp_all add: tree_label_def\<close>)
    with todo_typed_step [OF run_snoc.hyps(2) inv] show ?case by blast
  qed
  with assms(2) show ?thesis by blast
qed

text \<open>
  C11. The planes do not disturb each other: in every run of the shim, the leaves of a plane's region
  of the tree are what that plane's own effects, in the order it performed them, would have
  made of an empty tree, whatever the other planes did in between.
\<close>

theorem planes_do_not_interfere:
  assumes "node_run (node_start target t0 fl bl su) ls s" and "owner org p = Some c"
  shows "s_tree (nd_shim s) (org, p) = tree_effects Map.empty (did c ls) (org, p)"
  by (rule plane_region [OF assms])

section \<open>The tracker in the shim\<close>

text \<open>What the tracker goes through in a run: observations, wherever they come from, and passes.\<close>

definition lin_ops :: "label list \<Rightarrow> lin_op list" where
  "lin_ops ls = concat (map (\<lambda>l. case l of
       Did g now e \<Rightarrow> (case e of ObserveRoute p s b d \<Rightarrow> [Obs now p s b d] | _ \<Rightarrow> [])
     | Passed now xs \<Rightarrow> [Pass now xs]
     | _ \<Rightarrow> []) ls)"

text \<open>The observations of one plane.\<close>

definition obs_of :: "plane \<Rightarrow> label list \<Rightarrow> lin_op list" where
  "obs_of c ls = concat (map (\<lambda>l. case l of
       Did g now e \<Rightarrow> if plane_of g = c then (case e of ObserveRoute p s b d \<Rightarrow> [Obs now p s b d] | _ \<Rightarrow> []) else []
     | _ \<Rightarrow> []) ls)"

lemma lin_ops_simps [simp]:
  "lin_ops [] = []" "lin_ops (ls @ ks) = lin_ops ls @ lin_ops ks"
  "lin_ops [Did g now e] = (case e of ObserveRoute p s b d \<Rightarrow> [Obs now p s b d] | _ \<Rightarrow> [])"
  "lin_ops [Accepted g now] = []" "lin_ops [FpmFrame k links ty body] = []" "lin_ops [BmpFrame k env ty body] = []" "lin_ops [RouteRead u] = []" "lin_ops [DumpRead z] = []" "lin_ops [OspfRead y] = []"
  "lin_ops [Passed now xs] = [Pass now xs]" "lin_ops [Folded x] = []" "lin_ops [Tau] = []"
  by (simp_all add: lin_ops_def)

lemma obs_of_simps [simp]:
  "obs_of c [] = []" "obs_of c (ls @ ks) = obs_of c ls @ obs_of c ks"
  "obs_of c [Did g now e] =
     (if plane_of g = c then (case e of ObserveRoute p s b d \<Rightarrow> [Obs now p s b d] | _ \<Rightarrow> []) else [])"
  "obs_of c [Accepted g now] = []" "obs_of c [FpmFrame k links ty body] = []" "obs_of c [BmpFrame k env ty body] = []" "obs_of c [RouteRead u] = []" "obs_of c [DumpRead z] = []" "obs_of c [OspfRead y] = []"
  "obs_of c [Passed now xs] = []" "obs_of c [Folded x] = []" "obs_of c [Tau] = []"
  by (simp_all add: obs_of_def)

lemma step_lin:
  "node_step s l s' \<Longrightarrow> s_lin (nd_shim s') = foldl lin_step (s_lin (nd_shim s)) (lin_ops [l]) \<and>
     admissible lin_step lin_ok (s_lin (nd_shim s)) (lin_ops [l])"
  by (elim step_cases)
    (auto simp: apply_effect_def split: effect.split)

lemma run_lin:
  assumes "node_run (node_start target t0 fl bl su) ls s"
  shows "s_lin (nd_shim s) = foldl lin_step (lineage_New (3 * second) True) (lin_ops ls) \<and>
    admissible lin_step lin_ok (lineage_New (3 * second) True) (lin_ops ls)"
  using assms
proof (induction rule: node_run.induct)
  case run_nil
  show ?case by (simp add: node_start_def shim_start_def)
next
  case (run_snoc ls s l s')
  with step_lin [OF run_snoc.hyps(2)] show ?case by simp
qed

lemma stage_of_inj: "stage_of c = Some st \<Longrightarrow> stage_of c' = Some st \<Longrightarrow> c = c'"
  by (cases c; cases c') (auto simp: stage_of_def)

lemma latest_append:
  "latest (xs @ ys) p st =
     (if \<exists>now b d. Obs now p st b d \<in> set xs then latest xs p st else latest ys p st)"
  by (induction xs p st rule: latest.induct) auto

lemma latest_own_plane:
  assumes "node_run (node_start target t0 fl bl su) ls s" and "stage_of c = Some st"
  shows "latest (rev (lin_ops ls)) p st = latest (rev (obs_of c ls)) p st"
proof -
  have "todo_typed s \<and> latest (rev (lin_ops ls)) p st = latest (rev (obs_of c ls)) p st"
    using assms(1)
  proof (induction rule: node_run.induct)
    case run_nil
    show ?case using todo_typed_start [of target t0 fl bl su] by simp
  next
    case (run_snoc ls s l s')
    then have inv: "todo_typed s" and IH: "latest (rev (lin_ops ls)) p st = latest (rev (obs_of c ls)) p st" by simp_all
    have "latest (rev (lin_ops (ls @ [l]))) p st = latest (rev (obs_of c (ls @ [l]))) p st"
    proof (cases l)
      case (Did g now e)
      with run_snoc.hyps(2) have ty: "typed_effect (plane_of g) e" using did_typed inv by blast
      show ?thesis
      proof (cases e)
        case (ObserveRoute q st' b d)
        with ty have "stage_of (plane_of g) = Some st'" by simp
        then have "st' = st \<longleftrightarrow> plane_of g = c" using stage_of_inj assms(2) by auto
        with IH show ?thesis by (auto simp: Did ObserveRoute)
      qed (simp_all add: Did IH)
    qed (simp_all add: IH)
    with todo_typed_step [OF run_snoc.hyps(2) inv] show ?case by blast
  qed
  then show ?thesis by blast
qed

text \<open>
  Every testimony in the tracker is its plane's own: in every run of the shim, what the
  tracker shows of a prefix at the stage of a plane is the last word of that plane's own
  goroutines on the prefix, whatever the other planes, the passes and the correlator did.
\<close>

theorem testimony_is_own:
  assumes "node_run (node_start target t0 fl bl su) ls s" and "stage_of c = Some st" and "p \<noteq> []"
  shows "t_abs (s_lin (nd_shim s)) (p, st) = latest (rev (obs_of c ls)) p st"
proof -
  have "st \<noteq> NStages" using assms(2) by (cases c) (auto simp: stage_of_def)
  with t_abs_run [of "3 * second" True "lin_ops ls" p st] run_lin [OF assms(1)] assms(3)
    latest_own_plane [OF assms(1, 2), of p] show ?thesis by simp
qed

section \<open>The correlator in the shim\<close>

definition folds :: "label list \<Rightarrow> sel list" where
  "folds ls = concat (map (\<lambda>l. case l of Folded x \<Rightarrow> [x] | _ \<Rightarrow> []) ls)"

text \<open>The events the goroutines have emitted, with the time of their emission.\<close>

definition emitted :: "label list \<Rightarrow> event list" where
  "emitted ls = concat (map (\<lambda>l. case l of
       Did g now e \<Rightarrow> (case e of
         EmitEvent bus kind key detail root \<Rightarrow>
           [\<lparr>ev_bus = bus, ev_kind = kind, ev_key = key, ev_detail = detail, ev_root = root, ev_ts = now\<rparr>]
       | _ \<Rightarrow> [])
     | _ \<Rightarrow> []) ls)"

lemma folds_simps [simp]:
  "folds [] = []" "folds (ls @ ks) = folds ls @ folds ks"
  "folds [Did g now e] = []" "folds [Accepted g now] = []" "folds [FpmFrame k links ty body] = []" "folds [BmpFrame k env ty body] = []" "folds [RouteRead u] = []" "folds [DumpRead z] = []" "folds [OspfRead y] = []"
  "folds [Passed now xs] = []" "folds [Folded x] = [x]" "folds [Tau] = []"
  by (simp_all add: folds_def)

lemma emitted_simps [simp]:
  "emitted [] = []" "emitted (ls @ ks) = emitted ls @ emitted ks"
  "emitted [Did g now e] = (case e of
     EmitEvent bus kind key detail root \<Rightarrow>
       [\<lparr>ev_bus = bus, ev_kind = kind, ev_key = key, ev_detail = detail, ev_root = root, ev_ts = now\<rparr>]
   | _ \<Rightarrow> [])"
  "emitted [Accepted g now] = []" "emitted [FpmFrame k links ty body] = []" "emitted [BmpFrame k env ty body] = []" "emitted [RouteRead u] = []" "emitted [DumpRead z] = []" "emitted [OspfRead y] = []"
  "emitted [Passed now xs] = []" "emitted [Folded x] = []" "emitted [Tau] = []"
  by (simp_all add: emitted_def)

text \<open>The fold does not look at the queue.\<close>

lemma flush_queue: "flush (c\<lparr>c_ch := q\<rparr>) a = (flush c a)\<lparr>c_ch := q\<rparr>"
  by (simp add: flush_def Let_def)

lemma on_event_queue:
  "on_event (c\<lparr>c_ch := q\<rparr>, act) e now =
     ((fst (on_event (c, act) e now))\<lparr>c_ch := q\<rparr>, snd (on_event (c, act) e now))"
  by (simp add: on_event_def flush_queue split: option.split)

lemma on_tick_queue:
  "on_tick (c\<lparr>c_ch := q\<rparr>, act) now = ((fst (on_tick (c, act) now))\<lparr>c_ch := q\<rparr>, snd (on_tick (c, act) now))"
  by (simp add: on_tick_def flush_queue split: option.split)

lemma fold_keeps_queue:
  "c_ch (fst (on_event (c, act) e now)) = c_ch c" "c_ch (fst (on_tick (c, act) now)) = c_ch c"
  by (auto simp: on_event_def on_tick_def flush_def Let_def split: option.splits)

text \<open>The correlator with its queue set aside, the state of the fold.\<close>

definition fold_state :: "node \<Rightarrow> corr_state" where
  "fold_state s = ((s_cor (nd_shim s))\<lparr>c_ch := []\<rparr>, nd_active s)"

definition queued :: "node \<Rightarrow> event list" where
  "queued s = c_ch (s_cor (nd_shim s))"

lemma emit_cor:
  "s_cor (apply_effect now h e) = (s_cor h)\<lparr>c_ch := foldl (nb_send chan_cap) (c_ch (s_cor h)) (emitted [Did g now e])\<rparr>"
  by (simp add: apply_effect_def shim_emit_def Emit_def split: effect.split)

lemma received_Nil [simp]: "received [] = []"
  by (simp add: received_def)

lemma received_append [simp]: "received (xs @ ys) = received xs @ received ys"
  by (simp add: received_def)

lemma step_fold:
  assumes "node_step s l s'"
  shows "fold_state s' = foldl Run_step (fold_state s) (folds [l]) \<and>
    (queued s' = foldl (nb_send chan_cap) (queued s) (emitted [l]) \<and> received (folds [l]) = [] \<or>
     queued s = received (folds [l]) @ queued s' \<and> emitted [l] = [])"
  using assms
proof cases
  case (perform g e es now)
  then show ?thesis by (simp add: fold_state_def queued_def emit_cor [where g = g] received_def del: emitted_simps(3))
next
  case by_fpm
  then show ?thesis
    by cases (simp_all add: fold_state_def queued_def apply_effect_def)
next
  case by_bmp
  then show ?thesis
    by cases (simp_all add: fold_state_def queued_def apply_effect_def)
next
  case by_kernel
  then show ?thesis by cases (simp_all add: fold_state_def queued_def batch_def)
next
  case by_lldp
  then show ?thesis by cases (simp_all add: fold_state_def queued_def batch_def)
next
  case by_ospf
  then show ?thesis by cases (simp_all add: fold_state_def queued_def)
next
  case by_sampler
  then show ?thesis by cases (simp_all add: fold_state_def queued_def)
next
  case by_pass
  then show ?thesis by cases (simp_all add: fold_state_def queued_def)
next
  case by_core
  then show ?thesis
  proof cases
    case (c_recv e c now c' act)
    let ?c = "s_cor (nd_shim s)"
    from c_recv(4) obtain q where q: "c_ch ?c = e # q" "c = ?c\<lparr>c_ch := q\<rparr>"
      by (auto simp: take_event_def split: list.splits)
    have "on_event (?c\<lparr>c_ch := []\<rparr>, nd_active s) e now = (c'\<lparr>c_ch := []\<rparr>, act)" "c_ch c' = q"
      using c_recv(5) q on_event_queue [of q ?c "nd_active s" e now] on_event_queue [of "[]" ?c "nd_active s" e now]
      by auto
    with c_recv q show ?thesis by (simp add: fold_state_def queued_def received_def)
  next
    case (c_tick now c' act)
    let ?c = "s_cor (nd_shim s)"
    have "on_tick (?c\<lparr>c_ch := []\<rparr>, nd_active s) now = (c'\<lparr>c_ch := []\<rparr>, act)" "c_ch c' = c_ch ?c"
      using c_tick(4) on_tick_queue [of "[]" ?c "nd_active s" now] fold_keeps_queue(2) [of ?c "nd_active s" now] by auto
    with c_tick show ?thesis by (simp add: fold_state_def queued_def received_def)
  qed
qed

lemma sends_subseq: "subseq (foldl (nb_send cap) q es) (q @ es)"
proof (induction es arbitrary: q)
  case (Cons e es)
  show ?case
  proof (cases "length q < cap")
    case True
    with Cons [of "q @ [e]"] show ?thesis by (simp add: nb_send_def)
  next
    case False
    have "subseq (q @ es) (q @ e # es)" by (simp add: list_emb_append_mono list_emb_Cons)
    with False Cons [of q] show ?thesis by (auto simp: nb_send_def intro: subseq_order.trans)
  qed
qed simp

lemma run_fold:
  assumes "node_run (node_start target t0 fl bl su) ls s"
  shows "fold_state s = foldl Run_step (Run_start (correlate_New target) t0) (folds ls) \<and>
    subseq (received (folds ls) @ queued s) (emitted ls)"
  using assms
proof (induction rule: node_run.induct)
  case run_nil
  show ?case
    by (simp add: node_start_def shim_start_def fold_state_def queued_def Run_start_def correlate_New_def received_def)
next
  case (run_snoc ls s l s')
  have sub: "subseq ((received (folds ls) @ queued s) @ emitted [l]) (emitted (ls @ [l]))"
    unfolding emitted_simps(2) using run_snoc.IH by (intro list_emb_append_mono) simp_all
  have "subseq (received (folds (ls @ [l])) @ queued s') ((received (folds ls) @ queued s) @ emitted [l])"
    using step_fold [OF run_snoc.hyps(2)] sends_subseq [of chan_cap "queued s" "emitted [l]"]
    by (auto simp: list_emb_append_mono simp del: folds_simps(3-) emitted_simps(3-))
  with sub run_snoc.IH step_fold [OF run_snoc.hyps(2)] show ?case
    by (auto intro: subseq_order.trans simp del: folds_simps(3-) emitted_simps(3-))
qed

lemma logged_accs:
  assumes "node_run (node_start target t0 fl bl su) ls s"
  shows "\<exists>accs. c_log (s_cor (nd_shim s)) = traces_of target accs \<and>
    (\<forall>a \<in> set accs. wf_acc (3 * second) a \<and> kept a) \<and>
    subseq (concat (map a_events accs) @ active_events (nd_active s) @ c_ch (s_cor (nd_shim s))) (emitted ls)"
proof -
  note run = run_fold [OF assms]
  from run_corr_inv(1, 2, 3) [OF run [THEN conjunct1]] obtain accs where
    accs: "c_log (s_cor (nd_shim s)) = traces_of target accs" "\<forall>a \<in> set accs. wf_acc (3 * second) a \<and> kept a"
    and sub: "subseq (concat (map a_events accs) @ active_events (nd_active s)) (received (folds ls))"
    by (auto simp: corr_inv_def fold_state_def)
  have "subseq ((concat (map a_events accs) @ active_events (nd_active s)) @ queued s) (received (folds ls) @ queued s)"
    using sub by (intro list_emb_append_mono) simp_all
  with run have "subseq ((concat (map a_events accs) @ active_events (nd_active s)) @ queued s) (emitted ls)"
    by (auto intro: subseq_order.trans)
  with accs show ?thesis by (auto simp: queued_def)
qed

text \<open>What the HTTP endpoint serves: the last 50 traces of the log.\<close>

lemma run_ring:
  assumes "node_run (node_start target t0 fl bl su) ls s"
  shows "ServeHTTP (s_cor (nd_shim s)) = drop (length (c_log (s_cor (nd_shim s))) - 50) (c_log (s_cor (nd_shim s)))"
  using run_corr_inv(1, 4) [OF run_fold [OF assms, THEN conjunct1]]
  by (auto simp: corr_inv_def fold_state_def ServeHTTP_def)

text \<open>
  The traces explain what happened: in every run of the shim, whatever the interleaving, the traces
  the correlator has logged are those of some sequence of well-formed accumulators, numbered
  from 1, and their events, followed by those still being collected and those still queued,
  appear in this order among the events the planes emitted; only an event that found the queue
  full is missing.
\<close>

theorem shim_traces_explained:
  assumes "node_run (node_start target t0 fl bl su) ls s"
  shows "\<exists>accs. c_log (s_cor (nd_shim s)) = traces_of target accs \<and>
    (\<forall>a \<in> set accs. wf_acc (3 * second) a \<and> kept a) \<and>
    subseq (concat (map a_events accs) @ active_events (nd_active s) @ c_ch (s_cor (nd_shim s))) (emitted ls)"
  by (rule logged_accs [OF assms])

section \<open>A collector's session in the shim\<close>

text \<open>What the goroutines of a set have done.\<close>

definition did_by :: "goroutine set \<Rightarrow> label list \<Rightarrow> effect list" where
  "did_by G ls = concat (map (\<lambda>l. case l of Did g now e \<Rightarrow> if g \<in> G then [e] else [] | _ \<Rightarrow> []) ls)"

lemma did_by_simps [simp]:
  "did_by G [] = []" "did_by G (ls @ ks) = did_by G ls @ did_by G ks"
  "did_by G [Did g now e] = (if g \<in> G then [e] else [])" "did_by G [Accepted g now] = []"
  "did_by G [FpmFrame k links ty body] = []" "did_by G [BmpFrame k env ty body] = []" "did_by G [RouteRead u] = []" "did_by G [DumpRead z] = []"
  "did_by G [OspfRead y] = []" "did_by G [Passed now xs] = []" "did_by G [Folded x] = []" "did_by G [Tau] = []"
  by (simp_all add: did_by_def)

lemma did_by_plane: "{g. plane_of g = c} = G \<Longrightarrow> did_by G ls = did c ls"
  unfolding did_by_def did_def by (metis mem_Collect_eq)

text \<open>
  What the collectors have in common: goroutines (one for each connection of FPM and BMP, a
  single one otherwise) that take an input, work out what it entails over the collector's state
  and then perform that, one effect after the other, while the rest of the shim goes on.
  \<open>takes\<close> are the inputs a step takes, with the connection, \<open>frame\<close> the collector's
  handler.  When all the inputs came by one connection, what the collector's goroutines have
  done and that one has still to do is what the handler makes of the inputs, one by one.
\<close>

locale collector =
  fixes conn :: "'k \<Rightarrow> goroutine" and st :: "node \<Rightarrow> 's"
    and takes :: "label \<Rightarrow> ('k \<times> 'i) list" and frame :: "'s \<Rightarrow> 'i \<Rightarrow> ('s \<times> effect list) option"
  assumes conn_inj: "conn j = conn k \<Longrightarrow> j = k"
    and takes_perform: "takes (Did g now e) = []"
    and perform_kept: "nd_todo s g = e # es \<Longrightarrow> st (batch g es (on_shim (\<lambda>h. apply_effect now h e) s)) = st s"
    and step_frame: "node_step s l s' \<Longrightarrow> takes l = (k, x) # xs \<Longrightarrow>
      xs = [] \<and> (\<exists>es. nd_todo s (conn k) = [] \<and> frame (st s) x = Some (st s', es) \<and>
        nd_todo s' = (nd_todo s)(conn k := es) \<and> did_by (range conn) [l] = [])"
    and step_other: "node_step s l s' \<Longrightarrow> takes l = [] \<Longrightarrow> (\<And>g now e. l \<noteq> Did g now e) \<Longrightarrow>
      st s' = st s \<and> (\<forall>k. nd_todo s' (conn k) = nd_todo s (conn k))"
begin

definition inputs :: "label list \<Rightarrow> ('k \<times> 'i) list" where
  "inputs ls = concat (map takes ls)"

definition next_frame :: "'s \<times> effect list \<Rightarrow> 'i \<Rightarrow> ('s \<times> effect list) option" where
  "next_frame s x = map_option (\<lambda>(b, es). (b, snd s @ es)) (frame (fst s) x)"

definition view :: "'k \<Rightarrow> 's \<Rightarrow> label list \<Rightarrow> node \<Rightarrow> bool" where
  "view c b0 ls s \<longleftrightarrow>
     foldM next_frame (b0, []) (map snd (inputs ls)) = Some (st s, did_by (range conn) ls @ nd_todo s (conn c)) \<and>
     (\<forall>k. k \<noteq> c \<longrightarrow> nd_todo s (conn k) = [])"

lemma view_perform:
  assumes "view c b0 ls s" and "nd_todo s g = e # es"
  shows "view c b0 (ls @ [Did g now e]) (batch g es (on_shim (\<lambda>h. apply_effect now h e) s))"
proof (cases "g \<in> range conn")
  case True
  then obtain k where g: "g = conn k" by blast
  have kc: "k = c" using assms unfolding g view_def by force
  have "nd_todo (batch g es (on_shim (\<lambda>h. apply_effect now h e) s)) (conn j) = (if j = c then es else nd_todo s (conn j))" for j
    using conn_inj [of j c] by (auto simp: g kc)
  with assms True show ?thesis
    by (simp add: view_def inputs_def takes_perform perform_kept g kc)
next
  case False
  then have "conn k \<noteq> g" for k by auto
  with assms False show ?thesis by (simp add: view_def inputs_def takes_perform perform_kept)
qed

lemma view_step:
  assumes "node_step s l s'" and "view c b0 ls s" and "\<forall>x \<in> set (takes l). fst x = c"
  shows "view c b0 (ls @ [l]) s'"
proof (cases "\<exists>g now e. l = Did g now e")
  case True
  then obtain g now e where l: "l = Did g now e" by blast
  from assms(1) obtain es where "nd_todo s g = e # es" "s' = batch g es (on_shim (\<lambda>h. apply_effect now h e) s)"
    unfolding l by (cases rule: node_step.cases) (auto elim: step_cases(2-))
  with view_perform [OF assms(2)] show ?thesis unfolding l by blast
next
  case False
  show ?thesis
  proof (cases "takes l")
    case Nil
    with False assms(2) step_other [OF assms(1)] have "did_by (range conn) [l] = []" by (cases l) auto
    with Nil False assms(2) step_other [OF assms(1)] show ?thesis by (auto simp: view_def inputs_def)
  next
    case (Cons y ys)
    with assms(3) obtain x where y: "y = (c, x)" by (cases y) auto
    from step_frame [OF assms(1) Cons [unfolded y]] obtain es where ys: "ys = []" and "nd_todo s (conn c) = []"
      "frame (st s) x = Some (st s', es)" "nd_todo s' = (nd_todo s)(conn c := es)" "did_by (range conn) [l] = []" by blast
    moreover have "nd_todo s' (conn k) = []" if "k \<noteq> c" for k
      using that calculation(4) assms(2) conn_inj [of k c] by (auto simp: view_def)
    ultimately show ?thesis using assms(2) by (simp add: view_def inputs_def Cons y foldM_append next_frame_def)
  qed
qed

lemma view_run:
  assumes "node_run s0 ls s" and "\<forall>x \<in> set (inputs ls). fst x = c" and "\<And>k. nd_todo s0 (conn k) = []"
  shows "view c (st s0) ls s"
  using assms(1, 2)
proof (induction rule: node_run.induct)
  case run_nil
  show ?case by (simp add: view_def inputs_def assms(3))
next
  case (run_snoc ls s l s')
  then show ?case by (intro view_step [OF run_snoc.hyps(2)]) (auto simp: inputs_def)
qed

text \<open>
  Once the connection's goroutine has performed what it was sent, the collector's goroutines
  have done just that.
\<close>

lemma session_done:
  assumes "node_run s0 ls s" and "inputs ls = map (Pair c) xs" and "\<And>g. nd_todo s0 g = []" and "nd_todo s (conn c) = []"
  shows "foldM next_frame (st s0, []) xs = Some (st s, did_by (range conn) ls)"
  using view_run [OF assms(1), of c] assms(2-4) by (simp add: view_def comp_def)

end

section \<open>The FPM session in the shim\<close>

text \<open>The frames FPM connections have sent.\<close>

definition fpm_takes :: "label \<Rightarrow> (nat \<times> link_list \<times> byte \<times> bytes) list" where
  "fpm_takes l = (case l of FpmFrame c links ty body \<Rightarrow> [(c, links, ty, body)] | _ \<Rightarrow> [])"

definition fpm_reads :: "fpm \<Rightarrow> link_list \<times> byte \<times> bytes \<Rightarrow> (fpm \<times> effect list) option" where
  "fpm_reads f x =
     (case x of (links, ty, body) \<Rightarrow> map_option (\<lambda>(f', n, es). (f', es)) (fpm_frame (\<lambda>_. links) (f, 0, []) ty body))"

lemma fpm_takes_simps [simp]:
  "fpm_takes (Did g now e) = []" "fpm_takes (Accepted g now) = []"
  "fpm_takes (FpmFrame c links ty body) = [(c, links, ty, body)]" "fpm_takes (BmpFrame c env ty body) = []"
  "fpm_takes (RouteRead u) = []" "fpm_takes (DumpRead z) = []" "fpm_takes (OspfRead y) = []" "fpm_takes (Passed now xs) = []" "fpm_takes (Folded x) = []" "fpm_takes Tau = []"
  by (simp_all add: fpm_takes_def)

interpretation fpm_in: collector GFpm nd_fpm fpm_takes fpm_reads
proof
  fix s l s' k x xs
  assume "node_step s l s'" and "fpm_takes l = (k, x) # xs"
  then show "xs = [] \<and> (\<exists>es. nd_todo s (GFpm k) = [] \<and> fpm_reads (nd_fpm s) x = Some (nd_fpm s', es) \<and>
      nd_todo s' = (nd_todo s)(GFpm k := es) \<and> did_by (range GFpm) [l] = [])"
    by (elim step_cases) (auto simp: fpm_reads_def idle_def batch_def)
next
  fix s l s'
  assume "node_step s l s'" and "fpm_takes l = []" and "\<And>g now e. l \<noteq> Did g now e"
  then show "nd_fpm s' = nd_fpm s \<and> (\<forall>k. nd_todo s' (GFpm k) = nd_todo s (GFpm k))"
    by (elim step_cases) auto
qed simp_all

lemma fpm_goroutines: "{g. plane_of g = PFpm} = range GFpm"
proof -
  have "plane_of g = PFpm \<longleftrightarrow> g \<in> range GFpm" for g by (cases g) auto
  then show ?thesis by blast
qed

definition fpm_inputs :: "label list \<Rightarrow> (nat \<times> link_list \<times> byte \<times> bytes) list" where
  "fpm_inputs ls = concat (map fpm_takes ls)"

lemma fpm_inputs_simps [simp]:
  "fpm_inputs [] = []" "fpm_inputs (ls @ ks) = fpm_inputs ls @ fpm_inputs ks" "fpm_inputs [l] = fpm_takes l"
  by (simp_all add: fpm_inputs_def)

text \<open>The handler of a frame looks at the collector alone, not at what was done before.\<close>

lemma fpm_frame_fresh:
  "fpm_frame env (f, n, out) ty body =
     map_option (\<lambda>(f', k, es). (f', n + 1, out @ es)) (fpm_frame (\<lambda>_. env n) (f, 0, []) ty body)"
  by (cases "handleNetlink f (env n) body") (auto simp: fpm_frame_def)

lemma fpm_next:
  "fpm_in.next_frame (f, out) (links, ty, body) =
     map_option (\<lambda>(f', n, es). (f', out @ es)) (fpm_frame (\<lambda>_. links) (f, 0, []) ty body)"
proof -
  have "fpm_in.next_frame (f, out) (links, ty, body) = map_option (\<lambda>(b, es). (b, out @ es)) (fpm_reads f (links, ty, body))"
    by (simp add: fpm_in.next_frame_def)
  then show ?thesis by (cases "fpm_frame (\<lambda>_. links) (f, 0, []) ty body") (auto simp: fpm_reads_def)
qed

lemma session_frames:
  "foldM fpm_in.next_frame (f, out) (map (\<lambda>(i, m). (env i, 1, put_kmsg m)) (enumerate k ms)) =
     map_option (\<lambda>(f, n, out). (f, out))
       (foldM (\<lambda>s (ver, ty, body). fpm_frame env s ty body) (f, k, out) (map (\<lambda>m. (1 :: byte, 1, put_kmsg m)) ms))"
proof (induction ms arbitrary: f k out)
  case (Cons m ms)
  note fresh = fpm_frame_fresh [of env f k out 1 "put_kmsg m"]
  show ?case
  proof (cases "fpm_frame (\<lambda>_. env k) (f, 0, []) 1 (put_kmsg m)")
    case None
    then show ?thesis by (simp add: fpm_next fresh)
  next
    case (Some x)
    obtain f' n es where x: "x = (f', n, es)" by (rule prod_cases3)
    with Some Cons.IH [of f' "out @ es" "Suc k"] show ?thesis by (simp add: fpm_next fresh)
  qed
qed simp

lemma aft_plane: "fib_of t = fib_of t'"
  if "\<And>p. owner ''openconfig'' p = Some PFpm \<Longrightarrow> t (''openconfig'', p) = t' (''openconfig'', p)"
  using that by (auto simp: fib_of_def fun_eq_iff)

lemma session_in_tree:
  assumes "node_run (node_start target t0 fl bl su) ls s" and "\<forall>m \<in> set ms. ok_kmsg m"
    and "fpm_inputs ls = map (\<lambda>(i, m). (c, env i, 1, put_kmsg m)) (enumerate 0 ms)"
    and "nd_todo s (GFpm c) = []"
  shows "fib_of (s_tree (nd_shim s)) = snd (snd (foldl (fib_step env) (NewFPM fl all_wired, 0, fib_of Map.empty) ms))"
proof -
  let ?f = "NewFPM fl all_wired" and ?s0 = "node_start target t0 fl bl su"
  have start: "nd_fpm ?s0 = ?f" "nd_todo ?s0 g = []" for g by (simp_all add: node_start_def)
  have "fpm_in.inputs ls = map (Pair c) (map (\<lambda>(i, m). (env i, 1, put_kmsg m)) (enumerate 0 ms))"
    using assms(3) by (simp add: fpm_in.inputs_def fpm_inputs_def comp_def split_beta)
  from fpm_in.session_done [OF assms(1) this start(2) assms(4), unfolded did_by_plane [OF fpm_goroutines]]
  have "map_option (\<lambda>(f, n, out). (f, out))
      (foldM (\<lambda>s (ver, ty, body). fpm_frame env s ty body) (?f, 0, []) (map (\<lambda>m. (1 :: byte, 1, put_kmsg m)) ms)) =
    Some (nd_fpm s, did PFpm ls)"
    by (simp add: session_frames start(1))
  with fib_frames [OF assms(2), of env "(?f, 0, [])" Map.empty]
  have "snd (snd (foldl (fib_step env) (?f, 0, fib_of Map.empty) ms)) = fib_of (tree_effects Map.empty (did PFpm ls))"
    by (auto simp: fib_view_def dest: sym)
  moreover have "fib_of (s_tree (nd_shim s)) = fib_of (tree_effects Map.empty (did PFpm ls))"
    by (rule aft_plane) (rule plane_region [OF assms(1)])
  ultimately show ?thesis by simp
qed

text \<open>
  C2. A zebra session ends up in the tree of the running shim: when zebra's connection has so far
  sent the frames of messages of the kind \<open>ok_kmsg\<close> (as in C8: new and deleted routes of any
  family and next-hop objects with any header fields, each attribute that the collector reads
  there once or not at all, in any order and among any others, and messages of any other type),
  and its handler has performed what they entail, the forwarding table in the tree is exactly
  the one the messages describe, whatever BMP, netlink, LLDP, OSPF, the sampler, the tracker and
  the correlator have been doing in between and whatever they were sent.  (All
  messages zebra has sent in the run came over this one connection.)
\<close>

theorem running_shim_fib:
  assumes "node_run (node_start target t0 fl bl su) ls s" and "\<forall>m \<in> set ms. ok_kmsg m"
    and "fpm_inputs ls = map (\<lambda>(i, m). (c, env i, 1, put_kmsg m)) (enumerate 0 ms)"
    and "nd_todo s (GFpm c) = []"
  shows "fib_of (s_tree (nd_shim s)) = snd (snd (foldl (fib_step env) (NewFPM fl all_wired, 0, fib_of Map.empty) ms))"
  by (rule session_in_tree [OF assms])

section \<open>Runs\<close>

text \<open>A goroutine can perform what it has to do at once.\<close>

lemma perform_all:
  "nd_up s \<Longrightarrow> nd_todo s g = es \<Longrightarrow>
   node_run s (map (Did g now) es) (batch g [] (on_shim (\<lambda>h. apply_effects now h es) s))"
proof (induction es arbitrary: s)
  case Nil
  then have "batch g [] (on_shim (\<lambda>h. h) s) = s" by (simp add: batch_def on_shim_def fun_upd_idem)
  then show ?case using node_run.run_nil [of s] by simp
next
  case (Cons e es)
  let ?s = "batch g es (on_shim (\<lambda>h. apply_effect now h e) s)"
  have step: "node_run s ([] @ [Did g now e]) ?s"
    by (rule run_snoc [OF run_nil node_step.perform]) (use Cons.prems in simp_all)
  have "node_run ?s (map (Did g now) es) (batch g [] (on_shim (\<lambda>h. apply_effects now h es) ?s))"
    using Cons.prems by (intro Cons.IH) simp_all
  from run_append [OF this step] show ?case by (simp add: batch_def on_shim_def)
qed

text \<open>A goroutine reads a frame and performs what it entails.\<close>

lemma frame_served:
  assumes "node_run s0 ls s" and "node_step s l (batch g es s')" and "nd_up s'" and "g \<in> nd_on s'"
  shows "\<exists>s''. node_run s0 (ls @ l # map (Did g 0) es) s'' \<and> idle s'' g"
proof -
  let ?s = "batch g es s'"
  let ?s2 = "batch g [] (on_shim (\<lambda>h. apply_effects 0 h es) ?s)"
  have "node_run s0 (ls @ [l]) ?s" by (rule run_snoc [OF assms(1, 2)])
  moreover have "node_run ?s (map (Did g 0) es) ?s2" by (rule perform_all) (simp_all add: assms(3))
  ultimately have "node_run s0 ((ls @ [l]) @ map (Did g 0) es) ?s2" by (rule run_append [rotated])
  moreover have "idle ?s2 g" using assms(3, 4) by (simp add: idle_def)
  ultimately show ?thesis by auto
qed

text \<open>Zebra can connect and send any well-formed session: the shim handles it to the end.\<close>

definition serving_zebra :: "node \<Rightarrow> nat \<Rightarrow> node \<Rightarrow> label list \<Rightarrow> (nat \<Rightarrow> link_list) \<Rightarrow> kmsg list \<Rightarrow> bool" where
  "serving_zebra s0 c s ls env ms \<longleftrightarrow>
     node_run s0 ls s \<and> idle s (GFpm c) \<and> fpm_inputs ls = map (\<lambda>(i, m). (c, env i, 1, put_kmsg m)) (enumerate 0 ms)"

lemma session_start: "\<exists>ls s. serving_zebra (node_start target t0 fl bl su) c s ls env []"
proof -
  let ?s0 = "node_start target t0 fl bl su"
  have "node_step ?s0 (Accepted (GFpm c) t0)
      (on_shim (\<lambda>h. apply_effect t0 h (KickOSPF ''fpm-reconnect'')) (?s0\<lparr>nd_on := insert (GFpm c) (nd_on ?s0)\<rparr>))"
    by (intro node_step.by_fpm fpm_step.fpm_accept) (auto simp: node_start_def start_on_def NewFPM_def all_wired_def)
  from run_snoc [OF run_nil this] show ?thesis
    by (intro exI conjI) (auto simp: serving_zebra_def idle_def node_start_def)
qed

lemma session_snoc:
  assumes "serving_zebra s0 c s ls env ms" and "ok_kmsg m"
  shows "\<exists>ks s'. serving_zebra s0 c s' (ls @ ks) env (ms @ [m])"
proof -
  let ?links = "env (length ms)"
  obtain f n es where fr: "fpm_frame (\<lambda>_. ?links) (nd_fpm s, 0, []) 1 (put_kmsg m) = Some (f, n, es)"
    using fib_frame [OF assms(2), of "\<lambda>_. ?links" "(nd_fpm s, 0, [])"] by (metis prod_cases3)
  have len: "length (put_kmsg m) + 4 < 2 ^ 16" using ok_frame [OF assms(2)] by (simp add: ok_fpm_def)
  have idle: "idle s (GFpm c)" and run: "node_run s0 ls s"
    and inputs: "fpm_inputs ls = map (\<lambda>(i, m). (c, env i, 1, put_kmsg m)) (enumerate 0 ms)"
    using assms(1) by (simp_all add: serving_zebra_def)
  let ?ks = "FpmFrame c ?links 1 (put_kmsg m) # map (Did (GFpm c) 0) es"
  obtain s' where s': "node_run s0 (ls @ ?ks) s'" "idle s' (GFpm c)"
    using frame_served [OF run node_step.by_fpm [OF fpm_step.fpm_read [OF idle len fr]]] idle
    by (auto simp: idle_def)
  have "fpm_inputs ?ks = [(c, ?links, 1, put_kmsg m)]" by (simp add: fpm_inputs_def comp_def)
  then have "fpm_inputs (ls @ ?ks) = map (\<lambda>(i, m). (c, env i, 1, put_kmsg m)) (enumerate 0 (ms @ [m]))"
    unfolding fpm_inputs_simps(2) inputs by (simp add: enumerate_append_eq)
  with s' have "serving_zebra s0 c s' (ls @ ?ks) env (ms @ [m])" unfolding serving_zebra_def by blast
  then show ?thesis by blast
qed

lemma session_run:
  "\<forall>m \<in> set ms. ok_kmsg m \<Longrightarrow> \<exists>ls s. serving_zebra (node_start target t0 fl bl su) c s ls env ms"
proof (induction ms rule: rev_induct)
  case Nil
  show ?case by (rule session_start)
next
  case (snoc m ms)
  then show ?case using session_snoc by fastforce
qed

section \<open>Witnesses\<close>

definition demo_startup :: startup where
  "demo_startup = \<lparr>su_link = True, su_neigh = True, su_route = True, su_cgroup = True\<rparr>"

abbreviation demo_node :: node where
  "demo_node \<equiv> node_start ''frr'' 0 (Some []) (Some []) demo_startup"

text \<open>The run in which zebra connects and sends the session of \<open>demo_session\<close>.\<close>

lemma demo_run: "\<exists>ls s. serving_zebra demo_node 0 s ls (\<lambda>_. Some []) demo_session"
  by (rule session_run [OF demo_session_ok])

lemma demo_fib:
  "snd (snd (foldl (fib_step (\<lambda>_. Some [])) (NewFPM (Some []) all_wired, 0, fib_of Map.empty) demo_session))
     (''default'', ''ipv4-unicast'', cidr [10, 0, 1, 0] 24) = (Some (StringVal (ip_string [192, 0, 2, 1])), Some (StringVal ''18''))"
  by code_simp

theorem running_shim_fib_witness:
  "\<exists>ls s. node_run demo_node ls s \<and>
     fib_of (s_tree (nd_shim s)) (''default'', ''ipv4-unicast'', cidr [10, 0, 1, 0] 24) =
       (Some (StringVal (ip_string [192, 0, 2, 1])), Some (StringVal ''18''))"
proof -
  obtain ls s where s: "serving_zebra demo_node 0 s ls (\<lambda>_. Some []) demo_session" using demo_run by blast
  have "fib_of (s_tree (nd_shim s)) =
      snd (snd (foldl (fib_step (\<lambda>_. Some [])) (NewFPM (Some []) all_wired, 0, fib_of Map.empty) demo_session))"
    by (rule running_shim_fib [OF _ demo_session_ok]) (use s in \<open>auto simp: serving_zebra_def idle_def\<close>)
  with s demo_fib show ?thesis unfolding serving_zebra_def by metis
qed

text \<open>In it, the leaves of the route's next hop and of its label stack.\<close>

abbreviation demo_path :: "path_elem list" where
  "demo_path \<equiv> gp_elem (aftPath ''default'' ''ipv4-unicast'' (cidr [10, 0, 1, 0] 24) ''next-hop'')"

abbreviation demo_label_path :: "path_elem list" where
  "demo_label_path \<equiv> gp_elem (aftPath ''default'' ''ipv4-unicast'' (cidr [10, 0, 1, 0] 24) ''pushed-mpls-label-stack'')"

lemma demo_leaves:
  "\<exists>ls s. node_run demo_node ls s \<and> s_tree (nd_shim s) (''openconfig'', demo_path) = Some (StringVal (ip_string [192, 0, 2, 1])) \<and>
     s_tree (nd_shim s) (''openconfig'', demo_label_path) = Some (StringVal ''18'')"
proof -
  obtain ls s where s: "serving_zebra demo_node 0 s ls (\<lambda>_. Some []) demo_session" using demo_run by blast
  have "fib_of (s_tree (nd_shim s)) =
      snd (snd (foldl (fib_step (\<lambda>_. Some [])) (NewFPM (Some []) all_wired, 0, fib_of Map.empty) demo_session))"
    by (rule session_in_tree [OF _ demo_session_ok]) (use s in \<open>auto simp: serving_zebra_def idle_def\<close>)
  with demo_fib have "fib_of (s_tree (nd_shim s)) (''default'', ''ipv4-unicast'', cidr [10, 0, 1, 0] 24) =
      (Some (StringVal (ip_string [192, 0, 2, 1])), Some (StringVal ''18''))"
    by metis
  then show ?thesis using s by (auto simp: fib_of_def serving_zebra_def)
qed

lemma demo_leaf:
  "\<exists>ls s. node_run demo_node ls s \<and> s_tree (nd_shim s) (''openconfig'', demo_path) = Some (StringVal (ip_string [192, 0, 2, 1]))"
  using demo_leaves by blast

text \<open>The run in which the kernel reports a route first.\<close>

lemma kernel_reports:
  "\<exists>s. node_run demo_node (RouteRead u # map (Did GRoute 0) (route_event netlink_wired u)) s \<and> idle s GRoute"
proof -
  have idle: "idle demo_node GRoute" by (simp add: idle_def node_start_def start_on_def demo_startup_def)
  from frame_served [OF run_nil by_kernel [OF k_route [OF idle]]] idle show ?thesis unfolding idle_def by auto
qed

theorem reachable_tree_typed_witness:
  "\<exists>ls s c. node_run demo_node ls s \<and> s_tree (nd_shim s) (''openconfig'', demo_path) \<noteq> None \<and>
     schema c ''openconfig'' demo_path (StringVal (ip_string [192, 0, 2, 1])) \<and> owner ''openconfig'' demo_path = Some c"
proof -
  obtain ls s where s: "node_run demo_node ls s"
    "s_tree (nd_shim s) (''openconfig'', demo_path) = Some (StringVal (ip_string [192, 0, 2, 1]))"
    using demo_leaf by blast
  from reachable_tree_typed [OF s] s show ?thesis by blast
qed

theorem planes_do_not_interfere_witness:
  "\<exists>ls s. node_run demo_node ls s \<and>
     s_tree (nd_shim s) (''openconfig'', demo_path) = tree_effects Map.empty (did PFpm ls) (''openconfig'', demo_path) \<and>
     s_tree (nd_shim s) (''openconfig'', demo_path) \<noteq> None"
proof -
  obtain ls s where s: "node_run demo_node ls s"
    "s_tree (nd_shim s) (''openconfig'', demo_path) = Some (StringVal (ip_string [192, 0, 2, 1]))"
    using demo_leaf by blast
  from planes_do_not_interfere [OF s(1) owner_paths(1)] s show ?thesis by (metis option.distinct(1))
qed

theorem testimony_is_own_witness:
  "\<exists>ls s. node_run demo_node ls s \<and> ls \<noteq> [] \<and>
     t_abs (s_lin (nd_shim s)) (''10.0.1.0/24'', Fpm) = latest (rev (obs_of PFpm ls)) ''10.0.1.0/24'' Fpm"
proof -
  obtain ls s where s: "serving_zebra demo_node 0 s ls (\<lambda>_. Some []) demo_session" using demo_run by blast
  then have run: "node_run demo_node ls s" "ls \<noteq> []" by (auto simp: serving_zebra_def demo_session_def)
  have "t_abs (s_lin (nd_shim s)) (''10.0.1.0/24'', Fpm) = latest (rev (obs_of PFpm ls)) ''10.0.1.0/24'' Fpm"
    by (rule testimony_is_own [OF run(1)]) (simp_all add: stage_of_def)
  with run show ?thesis by blast
qed

theorem shim_traces_explained_witness:
  "\<exists>ls s accs. node_run demo_node ls s \<and> ls \<noteq> [] \<and> c_log (s_cor (nd_shim s)) = traces_of ''frr'' accs \<and>
    subseq (concat (map a_events accs) @ active_events (nd_active s) @ c_ch (s_cor (nd_shim s))) (emitted ls)"
proof -
  obtain ls s where s: "serving_zebra demo_node 0 s ls (\<lambda>_. Some []) demo_session" using demo_run by blast
  then have run: "node_run demo_node ls s" "ls \<noteq> []" by (auto simp: serving_zebra_def demo_session_def)
  from shim_traces_explained [OF run(1)] run show ?thesis by blast
qed

end
