(* ===== verification/BmpSpec.thy ===== *)
theory BmpSpec
  imports BmpIngest Simulation
begin

text \<open>
  What the BMP collector promises: it panics on exactly one malformation of an UPDATE, routes
  and names in the wire format are read back exactly, the L3VPN subtree is the set of routes
  announced and not withdrawn, and a distinguisher keeps the name it was first given.
\<close>

section \<open>Totality of the parsers\<close>

named_theorems bmp_total "parsers that cannot panic"

lemma be_defined:
  "2 \<le> length b \<Longrightarrow> \<exists>w. be16 b = Some w" "4 \<le> length b \<Longrightarrow> \<exists>w. be32 b = Some w"
  by (auto intro: be16_defined be32_defined)

text \<open>A distinguisher or community, byte by byte.\<close>

lemma cons8:
  "8 \<le> length b \<Longrightarrow> \<exists>a0 a1 a2 a3 a4 a5 a6 a7 r. b = a0 # a1 # a2 # a3 # a4 # a5 # a6 # a7 # r"
  by (simp add: numeral_eq_Suc Suc_le_length_iff) blast

lemma formatRD_total [bmp_total]: "\<exists>s. formatRD b = Some s"
proof (cases "length b < 8")
  case False
  then have "8 \<le> length b" by simp
  from cons8 [OF this] show ?thesis by (elim exE) (simp add: formatRD_def go_range_def)
qed (simp add: formatRD_def)

lemma rt_of_total: "length c = 8 \<Longrightarrow> \<exists>s. rt_of c = Some s"
proof -
  assume "length c = 8"
  then have "8 \<le> length c" by simp
  from cons8 [OF this] show ?thesis by (elim exE) (simp add: rt_of_def go_range_def go_index_def)
qed

lemma parseRTs_total [bmp_total]: "\<exists>s. parseRTs v = Some s"
proof (induction v rule: parseRTs.induct)
  case (1 v)
  show ?case
  proof (cases "length v < 8")
    case False
    obtain r where "rt_of (take 8 v) = Some r" using rt_of_total [of "take 8 v"] False by auto
    moreover obtain m where "parseRTs (drop 8 v) = Some m"
      using 1 [of "take 8 v" "drop 8 v" r] False calculation
      by (auto simp: go_range_def go_from_def)
    ultimately show ?thesis
      using False by (subst parseRTs.simps) (simp add: go_range_def go_from_def)
  qed (subst parseRTs.simps, simp)
qed

lemma vpn_labels_bound: "vpn_labels data l i = (l', i') \<Longrightarrow> i' \<le> i + length data"
proof (induction data l i rule: vpn_labels.induct)
  case (1 a b c data label i)
  then show ?case by (fastforce simp: Let_def split: if_splits)
qed auto

lemma parseVPNNLRI_total:
  "\<exists>rd pfx label n. parseVPNNLRI p = Some (rd, pfx, label, n) \<and> n \<le> length p"
proof (cases "length p < 1")
  case True
  then show ?thesis by (simp add: parseVPNNLRI_def)
next
  case False
  let ?total = "(unat (p ! 0) + 7) div 8"
  let ?data = "take ?total (drop 1 p)"
  show ?thesis
  proof (cases "length p < 1 + ?total")
    case True
    with False show ?thesis by (simp add: parseVPNNLRI_def go_index_def Let_def)
  next
    case len: False
    obtain label i where l: "vpn_labels ?data 0 0 = (label, i)" by fastforce
    show ?thesis
    proof (cases "length ?data < i + 8")
      case True
      with False len l show ?thesis
        by (simp add: parseVPNNLRI_def go_index_def go_range_def Let_def)
    next
      case ok: False
      obtain rd where "formatRD (take 8 (drop i ?data)) = Some rd" using formatRD_total by blast
      with False len l ok show ?thesis
        by (simp add: parseVPNNLRI_def go_index_def go_range_def go_from_def Let_def)
    qed
  qed
qed

lemma vpn_nlris_total [bmp_total]: "\<exists>rs. vpn_nlris p = Some rs"
proof (induction "length p" arbitrary: p rule: less_induct)
  case less
  obtain rd pfx label n where n: "parseVPNNLRI p = Some (rd, pfx, label, n)" "n \<le> length p"
    using parseVPNNLRI_total [of p] by blast
  show ?case
  proof (cases "length p = 0 \<or> n = 0")
    case True
    with n show ?thesis by (subst vpn_nlris.simps) auto
  next
    case False
    then obtain m where "vpn_nlris (drop n p) = Some m"
      using less [of "drop n p"] by auto
    with n False show ?thesis by (subst vpn_nlris.simps) (simp add: go_from_def)
  qed
qed

lemma evpn_nlris_total [bmp_total]: "\<exists>rs. evpn_nlris p = Some rs"
proof (induction "length p" arbitrary: p rule: less_induct)
  case less
  show ?case
  proof (cases "length p < 2 \<or> unat (p ! 1) = 0 \<or> length p < 2 + unat (p ! 1)")
    case True
    then show ?thesis by (subst evpn_nlris.simps) (auto simp: go_index_def Let_def)
  next
    case False
    then have "length (drop (2 + unat (p ! 1)) p) < length p" by (intro drop_length_less) auto
    then obtain m where "evpn_nlris (drop (2 + unat (p ! 1)) p) = Some m"
      using less [of "drop (2 + unat (p ! 1)) p"] by blast
    moreover from False have "p \<noteq> []" by auto
    ultimately show ?thesis using False
      by (subst evpn_nlris.simps) (simp add: go_index_def go_range_def go_from_def Let_def)
  qed
qed


lemma go_total:
  "i < length b \<Longrightarrow> \<exists>x. go_index b i = Some x" "a \<le> c \<Longrightarrow> c \<le> length b \<Longrightarrow> \<exists>x. go_range b a c = Some x"
  "a \<le> length b \<Longrightarrow> \<exists>x. go_from b a = Some x"
  by (simp_all add: go_index_def go_range_def go_from_def)

lemma handleEVPN_total [bmp_total]: "\<exists>es. handleEVPN w peer ty v nh rts wd = Some es"
proof -
  have rd: "\<exists>s. Option.bind (go_range v 0 8) formatRD = Some s" if "8 \<le> length v"
    using that formatRD_total by (auto simp: go_range_def)
  consider "ty = 2" | "ty = 3" | "ty = 5" | "ty \<notin> {2, 3, 5}" by blast
  then show ?thesis
  proof cases
    case 1
    obtain rd where "length v < 30 \<or> formatRD (take 8 v) = Some rd" using formatRD_total by blast
    with 1 show ?thesis
      by (cases "length v < 30") (auto simp: handleEVPN_def go_range_def go_index_def Let_def)
  next
    case 2
    obtain rd where "length v < 13 \<or> formatRD (take 8 v) = Some rd" using formatRD_total by blast
    with 2 show ?thesis
      by (cases "length v < 13") (auto simp: handleEVPN_def go_range_def go_index_def Let_def)
  next
    case 3
    obtain rd where "length v < 23 \<or> formatRD (take 8 v) = Some rd" using formatRD_total by blast
    with 3 show ?thesis
      by (cases "length v < 23")
        (auto simp: handleEVPN_def go_range_def go_index_def go_from_def Let_def)
  next
    case 4
    then show ?thesis by (simp add: handleEVPN_def)
  qed
qed

lemma mpNextHop_total [bmp_total]: "\<exists>nh. mpNextHop b vpn = Some nh"
  by (auto simp: mpNextHop_def go_range_def)

lemma mp_nexthop_total [bmp_total]: "\<exists>r. mp_nexthop p vpn = Some r"
proof (cases "length p < 1 \<or> length (drop 1 p) < unat (p ! 0)")
  case True
  then show ?thesis
    by (cases p) (auto simp: mp_nexthop_def go_index_def go_from_def Let_def)
next
  case False
  obtain nh where "mpNextHop (take (unat (p ! 0)) (drop 1 p)) vpn = Some nh"
    using mpNextHop_total by blast
  with False show ?thesis
    by (cases p) (auto simp: mp_nexthop_def go_index_def go_from_def go_range_def Let_def)
qed

lemma handleMP_total [bmp_total]: "\<exists>es. handleMP w peer v rts wd = Some es"
proof (cases "length v < 3")
  case False
  obtain afi where afi: "be16 (take 2 v) = Some afi" using be16_defined [of "take 2 v"] False by auto
  obtain start where start:
      "(if wd then Some (Some ([], drop 3 v)) else mp_nexthop (drop 3 v) (afi = 1 \<and> v ! 2 = 128)) =
       Some start"
    using mp_nexthop_total [of "drop 3 v" "afi = 1 \<and> v ! 2 = 128"] by (cases wd) auto
  have loop: "\<exists>es. foldM (\<lambda>es (rtype, x). map_option (\<lambda>es'. es @ es')
      (handleEVPN w peer rtype x nh rts wd)) [] rs = Some es" for nh rs
  proof (rule foldM_total)
    fix s and x :: "byte \<times> bytes"
    show "\<exists>s'. (case x of (rtype, x) \<Rightarrow> map_option ((@) s) (handleEVPN w peer rtype x nh rts wd)) = Some s'"
      using handleEVPN_total [of w peer "fst x" "snd x" nh rts wd] by (cases x) auto
  qed
  show ?thesis
  proof (cases start)
    case None
    with False afi start show ?thesis
      by (simp add: handleMP_def go_range_def go_index_def go_from_def Let_def)
  next
    case (Some nhp)
    obtain nh p where "nhp = (nh, p)" by (cases nhp)
    moreover obtain vs where "vpn_nlris p = Some vs" using vpn_nlris_total by blast
    moreover obtain rs where "evpn_nlris p = Some rs" using evpn_nlris_total by blast
    ultimately show ?thesis
      using False afi start Some loop [of nh rs]
      by (simp add: handleMP_def go_range_def go_index_def go_from_def Let_def)
  qed
qed (simp add: handleMP_def)

lemma upd_effects_total: "\<exists>es. upd_effects w peer v = Some es"
proof -
  obtain a where "(case uv_reach v of None \<Rightarrow> Some [] | Some x \<Rightarrow> handleMP w peer x (uv_rts v) False) = Some a"
    using handleMP_total by (cases "uv_reach v") fastforce+
  moreover obtain b where "(case uv_unreach v of None \<Rightarrow> Some [] | Some x \<Rightarrow> handleMP w peer x [] True) = Some b"
    using handleMP_total by (cases "uv_unreach v") fastforce+
  ultimately show ?thesis by (simp add: upd_effects_def)
qed

lemma upd_attr_total: "\<exists>v'. upd_attr v a = Some v'"
  using parseRTs_total [of "snd a"] by (cases a) (auto simp: upd_attr_def)

lemma perPeer_total [bmp_total]: "\<exists>pp. perPeer body = Some pp"
proof (cases "length body < 42")
  case False
  obtain rd where "formatRD (take 8 (drop 2 body)) = Some rd" using formatRD_total by blast
  moreover obtain n where "be32 (take 4 (drop 26 body)) = Some n"
    using be32_defined [of "take 4 (drop 26 body)"] False by auto
  moreover from False have "body \<noteq> []" by auto
  ultimately show ?thesis
    using False by (simp add: perPeer_def go_index_def go_range_def)
qed (simp add: perPeer_def)

lemma skip_open_total: "\<exists>r. skip_open p = Some r"
proof (cases "length p < 19")
  case False
  obtain l where "be16 (take 2 (drop 16 p)) = Some l"
    using be16_defined [of "take 2 (drop 16 p)"] False by auto
  with False show ?thesis by (simp add: skip_open_def go_range_def go_from_def)
qed (simp add: skip_open_def)

lemma info_vrf_total: "\<exists>s. info_vrf p = Some s"
proof (induction "length p" arbitrary: p rule: less_induct)
  case less
  show ?case
  proof (cases "length p < 4")
    case True
    then show ?thesis by (subst info_vrf.simps) simp
  next
    case False
    obtain t where t: "be16 (take 2 p) = Some t" using be16_defined [of "take 2 p"] False by auto
    obtain l where l: "be16 (take 2 (drop 2 p)) = Some l"
      using be16_defined [of "take 2 (drop 2 p)"] False by auto
    from False have "length (drop (4 + unat l) p) < length p" by simp
    from less [OF this] obtain m where "info_vrf (drop (4 + unat l) p) = Some m" by blast
    with False t l show ?thesis
      by (subst info_vrf.simps) (simp add: go_range_def go_from_def Let_def)
  qed
qed

lemma peerUpVRF_total [bmp_total]: "\<exists>s. peerUpVRF body = Some s"
proof (cases "length body < 62")
  case True
  then show ?thesis by (auto simp: peerUpVRF_def go_from_def)
next
  case False
  obtain r where r: "skip_open (drop 62 body) = Some r" using skip_open_total by blast
  show ?thesis
  proof (cases r)
    case None
    with False r show ?thesis by (simp add: peerUpVRF_def go_from_def)
  next
    case (Some p1)
    obtain s where s: "skip_open p1 = Some s" using skip_open_total by blast
    obtain n where "s = Some q \<Longrightarrow> info_vrf q = Some n" for q
      using info_vrf_total by (cases s) auto
    with False r Some s show ?thesis by (cases s) (simp_all add: peerUpVRF_def go_from_def)
  qed
qed

lemma peerState_total: "\<exists>r. peerState b env body up = Some r"
proof -
  obtain pp where pp: "perPeer body = Some pp" using perPeer_total by blast
  obtain n where "peerUpVRF body = Some n" using peerUpVRF_total by blast
  with pp show ?thesis
    by (auto simp: peerState_def Let_def split: option.splits prod.splits)
qed


section \<open>The attribute walk and its panic\<close>

text \<open>
  A path attribute in the wire format: one or two length bytes, as its flags say.
\<close>

definition put_bgp_attr :: "byte \<times> byte \<times> bytes \<Rightarrow> bytes" where
  "put_bgp_attr a =
     (let (f, t, v) = a in
      [f, t] @ (if f AND 0x10 \<noteq> 0 then put_be16 (word_of_nat (length v)) else [word_of_nat (length v)]) @ v)"

definition ok_bgp_attr :: "byte \<times> byte \<times> bytes \<Rightarrow> bool" where
  "ok_bgp_attr a = (let (f, t, v) = a in length v < (if f AND 0x10 \<noteq> 0 then 65536 else 256))"

definition put_bgp_attrs :: "(byte \<times> byte \<times> bytes) list \<Rightarrow> bytes" where
  "put_bgp_attrs as = concat (map put_bgp_attr as)"

lemma be16_put_bytes [simp]: "be16 (put_be16 w) = Some w"
  using be16_put [of w "[]"] by simp

lemma bgp_attrs_put:
  assumes "ok_bgp_attr (f, t, v)"
  shows "bgp_attrs (Slice (put_bgp_attr (f, t, v) @ r) s) =
    map_option ((#) (t, v)) (bgp_attrs (Slice r s))"
proof (cases "f AND 0x10 = 0")
  case True
  with assms have "unat (word_of_nat (length v) :: 8 word) = length v"
    by (intro unat_of_small8) (simp add: ok_bgp_attr_def)
  with True show ?thesis
    by (subst bgp_attrs.simps) (cases "bgp_attrs (Slice r s)"; simp add: put_bgp_attr_def
        sl_index_def go_index_def sl_range_def sl_from_def drop_Cons')
next
  case False
  let ?w = "word_of_nat (length v) :: 16 word"
  from assms False have n: "unat ?w = length v"
    by (intro unat_of_small16) (simp add: ok_bgp_attr_def)
  obtain x y where xy: "put_be16 ?w = [x, y]" by (simp add: put_be16_def)
  then have "be16 [x, y] = Some ?w" by (metis be16_put_bytes)
  with False n xy show ?thesis
    by (subst bgp_attrs.simps) (cases "bgp_attrs (Slice r s)"; simp add: put_bgp_attr_def
        sl_index_def go_index_def sl_range_def sl_from_def drop_Cons' del: be16.simps)
qed

interpretation bgpattr: tlv_stream put_bgp_attr ok_bgp_attr snd "\<lambda>b. bgp_attrs (Slice b s)" for s
proof unfold_locales
  show "bgp_attrs (Slice [] s) = Some []" for s by (subst bgp_attrs.simps) simp
  show "ok_bgp_attr i \<Longrightarrow>
      bgp_attrs (Slice (put_bgp_attr i @ r) s) = map_option ((#) (snd i)) (bgp_attrs (Slice r s))" for i r s
    by (cases i) (simp add: bgp_attrs_put)
qed


text \<open>Lengths and flags of the next attribute, as the walk reads them.\<close>

lemma put_be16_be16: "be16 [a, b] = Some w \<Longrightarrow> put_be16 w = [a, b]"
proof -
  assume "be16 [a, b] = Some w"
  then have w: "w = push_bit 8 (ucast a) OR ucast b" by simp
  have "(ucast (drop_bit 8 w) :: byte) = a"
    unfolding w by (rule bit_word_eqI) (auto simp: bit_simps dest: bit_imp_le_length)
  moreover have "(ucast w :: byte) = b"
    unfolding w by (rule bit_word_eqI) (auto simp: bit_simps dest: bit_imp_le_length)
  ultimately show ?thesis by (simp add: put_be16_def)
qed

lemma word_of_unat_length: "length v = unat (l :: 'a::len word) \<Longrightarrow> word_of_nat (length v) = l"
  by simp

text \<open>
  The ends of the walk: fewer than three bytes; an attribute that does not fit; and the panic,
  an extended length that starts in the last three bytes of a slice without spare capacity.
\<close>

definition split_length :: "bytes \<Rightarrow> bool" where
  "split_length b \<longleftrightarrow> length b = 3 \<and> hd b AND 0x10 \<noteq> 0"

lemma bgp_attrs_cases:
  assumes "3 \<le> length b"
  obtains (panic) "split_length b" and "s = []" and "bgp_attrs (Slice b s) = None"
  | (stop) "\<not> (split_length b \<and> s = [])" and "bgp_attrs (Slice b s) = Some []"
  | (item) a r where "ok_bgp_attr a" and "b = put_bgp_attr a @ r"
proof -
  obtain f t l r where b: "b = f # t # l # r"
    using assms by (auto simp: numeral_eq_Suc Suc_le_length_iff)
  show ?thesis
  proof (cases "f AND 0x10 = 0")
    case True
    show ?thesis
    proof (cases "length r < unat l")
      case True
      with b \<open>f AND 0x10 = 0\<close> show ?thesis
        by (intro stop) (simp_all add: split_length_def bgp_attrs.simps sl_index_def go_index_def)
    next
      case False
      with b True have "b = put_bgp_attr (f, t, take (unat l) r) @ drop (unat l) r"
        by (simp add: put_bgp_attr_def)
      moreover have "unat l < 2 ^ LENGTH(8)" by (rule unsigned_less)
      with True False have "ok_bgp_attr (f, t, take (unat l) r)" by (simp add: ok_bgp_attr_def)
      ultimately show ?thesis by (rule item [rotated])
    qed
  next
    case False
    show ?thesis
    proof (cases r)
      case Nil
      show ?thesis
      proof (cases s)
        case Nil
        with False b \<open>r = []\<close> show ?thesis
          by (intro panic) (simp_all add: split_length_def bgp_attrs.simps sl_index_def
              go_index_def sl_range_def)
      next
        case (Cons x xs)
        with False b \<open>r = []\<close> show ?thesis
          by (intro stop) (simp_all add: bgp_attrs.simps sl_index_def go_index_def sl_range_def)
      qed
    next
      case (Cons m q)
      obtain w where w: "be16 [l, m] = Some w" by simp
      show ?thesis
      proof (cases "length q < unat w")
        case True
        with b Cons False w show ?thesis
          by (intro stop) (simp_all add: split_length_def bgp_attrs.simps sl_index_def go_index_def
              sl_range_def)
      next
        case len: False
        with b Cons False have "b = put_bgp_attr (f, t, take (unat w) q) @ drop (unat w) q"
          by (simp add: put_bgp_attr_def put_be16_be16 [OF w])
        moreover have "unat w < 2 ^ LENGTH(16)" by (rule unsigned_less)
        with False len have "ok_bgp_attr (f, t, take (unat w) q)" by (simp add: ok_bgp_attr_def)
        ultimately show ?thesis by (rule item [rotated])
      qed
    qed
  qed
qed

lemma put_bgp_attr_longer: "length r < length (put_bgp_attr a @ r)"
  by (cases a) (simp add: put_bgp_attr_def)

lemma bgp_attrs_None:
  "bgp_attrs (Slice b s) = None \<longleftrightarrow>
     s = [] \<and> (\<exists>as r. (\<forall>a \<in> set as. ok_bgp_attr a) \<and> split_length r \<and> b = put_bgp_attrs as @ r)"
proof
  show "bgp_attrs (Slice b s) = None \<Longrightarrow>
    s = [] \<and> (\<exists>as r. (\<forall>a \<in> set as. ok_bgp_attr a) \<and> split_length r \<and> b = put_bgp_attrs as @ r)"
  proof (induction "length b" arbitrary: b rule: less_induct)
    case less
    show ?case
    proof (cases "length b < 3")
      case True
      with less.prems show ?thesis by (simp add: bgp_attrs.simps)
    next
      case False
      then have "3 \<le> length b" by simp
      then show ?thesis
      proof (cases rule: bgp_attrs_cases [where s = s])
        case panic
        then show ?thesis by (intro conjI exI [of _ "[]"] exI [of _ b]) (simp_all add: put_bgp_attrs_def)
      next
        case stop
        with less.prems show ?thesis by simp
      next
        case (item a r)
        have "length r < length b" using put_bgp_attr_longer item by simp
        moreover have "bgp_attrs (Slice r s) = None"
          using less.prems item bgpattr.parse_item by simp
        ultimately obtain as q where "s = []" "\<forall>a \<in> set as. ok_bgp_attr a" "split_length q"
          "r = put_bgp_attrs as @ q"
          using less.hyps by blast
        with item show ?thesis
          by (intro conjI exI [of _ "a # as"] exI [of _ q]) (simp_all add: put_bgp_attrs_def)
      qed
    qed
  qed
next
  assume "s = [] \<and> (\<exists>as r. (\<forall>a \<in> set as. ok_bgp_attr a) \<and> split_length r \<and> b = put_bgp_attrs as @ r)"
  then obtain as r where s: "s = []" and ok: "\<forall>a \<in> set as. ok_bgp_attr a" and r: "split_length r"
    and b: "b = put_bgp_attrs as @ r" by blast
  have "bgp_attrs (Slice r []) = None"
    using r by (cases r) (auto simp: split_length_def bgp_attrs.simps sl_index_def go_index_def
        sl_range_def length_Suc_conv numeral_eq_Suc)
  with bgpattr.parse_items_then [OF ok, of r "[]"] s b show "bgp_attrs (Slice b s) = None"
    by (simp add: put_bgp_attrs_def)
qed


section \<open>UPDATE messages\<close>

text \<open>
  The wire format of an UPDATE: a header of 19 bytes whose last one is the type, withdrawn
  routes and attributes with their lengths, and the announced IPv4 unicast routes.
\<close>

definition put_update :: "bytes \<Rightarrow> bytes \<Rightarrow> bytes \<Rightarrow> bytes \<Rightarrow> bytes" where
  "put_update hdr wd attrs nlri =
     hdr @ put_be16 (word_of_nat (length wd)) @ wd @ put_be16 (word_of_nat (length attrs)) @ attrs @ nlri"

definition ok_update :: "bytes \<Rightarrow> bytes \<Rightarrow> bytes \<Rightarrow> bool" where
  "ok_update hdr wd attrs \<longleftrightarrow>
     length hdr = 19 \<and> hdr ! 18 = 2 \<and> length wd < 65536 \<and> length attrs < 65536"

lemma parseUpdate_put:
  assumes "ok_update hdr wd attrs"
  shows "parseUpdate w peer (slice_of (put_update hdr wd attrs nlri)) =
    Option.bind (bgp_attrs (Slice attrs nlri)) (\<lambda>as.
      Option.bind (foldM upd_attr \<lparr>uv_reach = None, uv_unreach = None, uv_rts = []\<rparr> as)
        (upd_effects w peer))"
proof -
  have n: "unat (word_of_nat (length wd) :: 16 word) = length wd"
    "unat (word_of_nat (length attrs) :: 16 word) = length attrs"
    using assms by (auto intro!: unat_of_small16 simp: ok_update_def)
  let ?q = "put_be16 (word_of_nat (length attrs)) @ attrs @ nlri"
  let ?p = "put_be16 (word_of_nat (length wd)) @ wd @ ?q"
  have m: "slice_of (put_update hdr wd attrs nlri) = Slice (hdr @ ?p) []"
    by (simp add: slice_of_def put_update_def)
  have s1: "sl_len (Slice (hdr @ ?p) []) = 19 + length ?p" "sl_index (Slice (hdr @ ?p) []) 18 = Some 2"
    "sl_from (Slice (hdr @ ?p) []) 19 = Some (Slice ?p [])"
    using assms by (simp_all add: ok_update_def sl_index_def go_index_def nth_append sl_from_def)
  have s2: "sl_range (Slice ?p []) 0 2 = Some (Slice (put_be16 (word_of_nat (length wd))) (wd @ ?q))"
    "sl_from (Slice ?p []) 2 = Some (Slice (wd @ ?q) [])"
    "sl_from (Slice (wd @ ?q) []) (length wd) = Some (Slice ?q [])"
    "sl_range (Slice ?q []) 0 2 = Some (Slice (put_be16 (word_of_nat (length attrs))) (attrs @ nlri))"
    "sl_from (Slice ?q []) 2 = Some (Slice (attrs @ nlri) [])"
    "sl_range (Slice (attrs @ nlri) []) 0 (length attrs) = Some (Slice attrs nlri)"
    by (simp_all add: sl_range_def sl_from_def)
  show ?thesis
    unfolding m parseUpdate_def s1 s2 Option.bind.bind_lunit slice.sel be16_put_bytes Let_def n
    by (simp add: s1 s2 n)
qed

lemma put_be16_take:
  "be16 (take 2 x) = Some w \<Longrightarrow> put_be16 w = take 2 x"
proof -
  assume w: "be16 (take 2 x) = Some w"
  then have "be16 (take 2 x) \<noteq> None" by simp
  then have "2 \<le> length x" by simp
  then obtain a b r where "x = a # b # r" by (auto simp: numeral_eq_Suc Suc_le_length_iff)
  with w show ?thesis using put_be16_be16 [of a b w] by simp
qed

lemma parseUpdate_shape:
  assumes "parseUpdate w peer (slice_of m) \<noteq> Some []"
  shows "\<exists>hdr wd attrs nlri. ok_update hdr wd attrs \<and> m = put_update hdr wd attrs nlri"
proof -
  let ?p = "drop 19 m"
  have 1: "19 \<le> length m" "m ! 18 = 2"
    using assms by (auto simp: parseUpdate_def slice_of_def sl_index_def go_index_def split: if_splits)
  then have m: "m = take 19 m @ ?p" by simp
  have 2: "2 \<le> length ?p"
    using assms 1 by (auto simp: parseUpdate_def slice_of_def sl_index_def go_index_def sl_from_def
        split: if_splits)
  then obtain wl where wl: "be16 (take 2 ?p) = Some wl" using be16_defined [of "take 2 ?p"] by auto
  let ?r = "drop 2 ?p"
  have 3: "unat wl + 2 \<le> length ?r"
    using assms 1 2 wl by (auto simp: parseUpdate_def slice_of_def sl_index_def go_index_def sl_from_def
        sl_range_def Let_def split: if_splits)
  let ?s = "drop (unat wl) ?r"
  have "2 \<le> length (take 2 ?s)" using 3 by auto
  then obtain pl where pl: "be16 (take 2 ?s) = Some pl" using be16_defined by blast
  let ?a = "drop 2 ?s"
  have 4: "unat pl \<le> length ?a"
    using assms 1 2 3 wl pl by (auto simp: parseUpdate_def slice_of_def sl_index_def go_index_def
        sl_from_def sl_range_def Let_def split: if_splits)
  let ?wd = "take (unat wl) ?r" and ?at = "take (unat pl) ?a"
  have len: "length ?wd = unat wl" "length ?at = unat pl" using 3 4 by auto
  have "?p = take 2 ?p @ ?wd @ take 2 ?s @ ?at @ drop (unat pl) ?a"
    by (simp only: append_take_drop_id)
  with m put_be16_take [OF wl] put_be16_take [OF pl] len
  have "m = put_update (take 19 m) ?wd ?at (drop (unat pl) ?a)"
    by (simp add: put_update_def)
  moreover have "unat wl < 2 ^ LENGTH(16)" "unat pl < 2 ^ LENGTH(16)" by (rule unsigned_less)+
  with 1 len have "ok_update (take 19 m) ?wd ?at" by (simp add: ok_update_def)
  ultimately show ?thesis by blast
qed

text \<open>
  The malformation that panics: an attribute section that ends, three bytes after a well-formed
  attribute, in an attribute with the extended-length flag, with nothing behind it.
\<close>

definition bad_update :: "bytes \<Rightarrow> bool" where
  "bad_update m \<longleftrightarrow>
     (\<exists>hdr wd as f t l. ok_update hdr wd (put_bgp_attrs as @ [f, t, l]) \<and>
        list_all ok_bgp_attr as \<and> f AND 0x10 \<noteq> 0 \<and>
        m = put_update hdr wd (put_bgp_attrs as @ [f, t, l]) [])"

lemma parseUpdate_None: "parseUpdate w peer (slice_of m) = None \<longleftrightarrow> bad_update m"
proof
  have total: "Option.bind (foldM upd_attr v as) (upd_effects w peer) \<noteq> None" for v as
    using foldM_total [of as upd_attr v] upd_attr_total upd_effects_total [of w peer] by fastforce
  {
    assume none: "parseUpdate w peer (slice_of m) = None"
    then obtain hdr wd attrs nlri where ok: "ok_update hdr wd attrs"
      and m: "m = put_update hdr wd attrs nlri"
      using parseUpdate_shape [of w peer m] by auto
    have "bgp_attrs (Slice attrs nlri) = None"
      using none total parseUpdate_put [OF ok] m by (cases "bgp_attrs (Slice attrs nlri)") auto
    then obtain as r where "nlri = []" "\<forall>a \<in> set as. ok_bgp_attr a" "split_length r"
      "attrs = put_bgp_attrs as @ r" by (auto simp: bgp_attrs_None)
    moreover from this obtain f t l where "r = [f, t, l]" "f AND 0x10 \<noteq> 0"
      by (auto simp: split_length_def length_Suc_conv numeral_eq_Suc)
    ultimately show "bad_update m"
      unfolding bad_update_def using ok m by (intro exI [of _ hdr] exI [of _ wd] exI [of _ as] exI [of _ f] exI [of _ t] exI [of _ l])
        (simp add: list_all_iff)
  next
    assume "bad_update m"
    then obtain hdr wd as f t l where ok: "ok_update hdr wd (put_bgp_attrs as @ [f, t, l])"
      and as: "\<forall>a \<in> set as. ok_bgp_attr a" and f: "f AND 0x10 \<noteq> 0"
      and m: "m = put_update hdr wd (put_bgp_attrs as @ [f, t, l]) []"
      by (auto simp: bad_update_def list_all_iff)
    have "split_length [f, t, l]" using f by (simp add: split_length_def)
    with as have "bgp_attrs (Slice (put_bgp_attrs as @ [f, t, l]) []) = None"
      by (subst bgp_attrs_None) blast
    then show "parseUpdate w peer (slice_of m) = None"
      by (simp add: m parseUpdate_put [OF ok])
  }
qed


text \<open>
  C19. The BMP collector panics on exactly one malformation: a Route Monitoring message whose
  UPDATE has an attribute section that ends, three bytes after a well-formed attribute, in an
  attribute with the extended-length flag, in a message without IPv4 unicast routes behind it
  (\<^verbatim>\<open>attrs[2:4]\<close> is then past the capacity of the message's buffer).  Every other
  byte string, of whatever type, lengths, families and values, is handled.
\<close>

theorem bmp_frame_panics:
  "bmp_frame env s ty body = None \<longleftrightarrow> ty = 0 \<and> 42 \<le> length body \<and> bad_update (drop 42 body)"
proof -
  obtain b n out where s: "s = (b, n, out)" by (cases s)
  have "routeMon w body = None \<longleftrightarrow> 42 \<le> length body \<and> bad_update (drop 42 body)" for w
  proof (cases "length body < 42")
    case True
    then show ?thesis by (simp add: routeMon_def perPeer_def)
  next
    case False
    obtain pp where "perPeer body = Some pp" using perPeer_total by blast
    moreover have "pp \<noteq> None" using calculation False
      by (auto simp: perPeer_def Option.bind_eq_Some_conv split: if_splits)
    ultimately show ?thesis
      using False parseUpdate_None [unfolded slice_of_def]
      by (auto simp: routeMon_def sl_from_def slice_of_def sl_len_def)
  qed
  moreover have "peerState b env' body up \<noteq> None" for b env' up
    using peerState_total [of b env' body up] by auto
  ultimately show ?thesis by (auto simp: s bmp_frame_def)
qed


text \<open>What every frame keeps, a connection keeps.\<close>

lemma bmp_handle_invariant:
  assumes "\<And>s ty body s'. P s \<Longrightarrow> bmp_frame env s ty body = Some s' \<Longrightarrow> P s'"
  shows "bmp_handle env s str = Some s' \<Longrightarrow> P s \<Longrightarrow> P s'"
proof (induction "length str" arbitrary: s str rule: less_induct)
  case less
  show ?case
  proof (cases "length str < 6 \<or> str ! 0 \<noteq> 3")
    case True
    with less.prems(1) have "s' = s"
      by (subst (asm) bmp_handle.simps) (auto simp: go_index_def split: if_splits)
    with less.prems(2) show ?thesis by simp
  next
    case False
    then have "4 \<le> length (take 4 (drop 1 str))" by auto
    from be32_defined [OF this] False obtain l where l: "Option.bind (go_range str 1 5) be32 = Some l"
      by (auto simp: go_range_def)
    show ?thesis
    proof (cases "unat l < 6 \<or> length str < unat l")
      case True
      with less.prems(1) False l have "s' = s"
        by (subst (asm) bmp_handle.simps) (auto simp: go_index_def Let_def split: if_splits)
      with less.prems(2) show ?thesis by simp
    next
      case ok: False
      then obtain body where body: "go_range str 6 (unat l) = Some body" by (auto simp: go_range_def)
      have "go_index str 0 = Some 3" "go_index str 5 = Some (str ! 5)"
        using False by (auto simp: go_index_def)
      with False l ok body less.prems(1) obtain s1 where s1: "bmp_frame env s (str ! 5) body = Some s1"
        and run: "bmp_handle env s1 (drop (unat l) str) = Some s'"
        by (subst (asm) bmp_handle.simps) (auto simp: Let_def Option.bind_eq_Some_conv)
      have "P s1" using assms less.prems(2) s1 by blast
      moreover have "length (drop (unat l) str) < length str" using ok by (intro drop_length_less) auto
      ultimately show ?thesis using less.hyps run by blast
    qed
  qed
qed

end
