(* ===== verification/BmpRoutes.thy ===== *)
theory BmpRoutes
  imports BmpSpec
begin

text \<open>
  VPN routes in the wire format: distinguishers, label stacks, NLRI and route targets are
  read back exactly, and a session of UPDATE messages with any peer header and any path
  attributes leaves the L3VPN subtree as the messages in their order make it: an announcement
  sets a route's entry, and a withdrawal removes it if its label has the bottom-of-stack bit.
\<close>

section \<open>Route distinguishers\<close>

datatype rd = RD0 "16 word" "32 word" | RD1 bytes "16 word" | RD2 "32 word" "16 word"

fun ok_rd :: "rd \<Rightarrow> bool" where
  "ok_rd (RD1 a n) = (length a = 4)"
| "ok_rd _ = True"

fun rd_value :: "rd \<Rightarrow> bytes" where
  "rd_value (RD0 a n) = put_be16 a @ put_be32 n"
| "rd_value (RD1 a n) = a @ put_be16 n"
| "rd_value (RD2 a n) = put_be32 a @ put_be16 n"

fun rd_type :: "rd \<Rightarrow> byte" where
  "rd_type (RD0 a n) = 0" | "rd_type (RD1 a n) = 1" | "rd_type (RD2 a n) = 2"

definition put_rd :: "rd \<Rightarrow> bytes" where
  "put_rd r = [0, rd_type r] @ rd_value r"

text \<open>A route target: an extended community of sub-type 2.\<close>

definition put_rt :: "rd \<Rightarrow> bytes" where
  "put_rt r = [rd_type r, 2] @ rd_value r"

fun rd_text :: "rd \<Rightarrow> string" where
  "rd_text (RD0 a n) = udec a @ '':'' @ udec n"
| "rd_text (RD1 a n) = ip_string a @ '':'' @ udec n"
| "rd_text (RD2 a n) = udec a @ '':'' @ udec n"

lemma rd_length [simp]: "ok_rd r \<Longrightarrow> length (rd_value r) = 6"
  by (cases r) simp_all

lemma put_rd_length [simp]: "ok_rd r \<Longrightarrow> length (put_rd r) = 8"
  by (simp add: put_rd_def)

lemma be16_type: "be16 [0, rd_type r] = Some (ucast (rd_type r))"
  by simp

lemma rd_reads:
  "go_range (x # y # put_be16 a @ put_be32 n) 2 4 = Some (put_be16 a)"
  "go_range (x # y # put_be16 a @ put_be32 n) 4 8 = Some (put_be32 n)"
  "go_range (x # y # put_be32 n @ put_be16 a) 2 6 = Some (put_be32 n)"
  "go_range (x # y # put_be32 n @ put_be16 a) 6 8 = Some (put_be16 a)"
  "length ip = 4 \<Longrightarrow> go_range (x # y # ip @ put_be16 a) 2 6 = Some ip"
  "length ip = 4 \<Longrightarrow> go_range (x # y # ip @ put_be16 a) 6 8 = Some (put_be16 a)"
  "go_range (x # y # r) 0 2 = Some [x, y]"
  by (simp_all add: go_range_def)

lemma be32_put_bytes [simp]: "be32 (put_be32 w) = Some w"
  using be32_put [of w "[]"] by simp

lemma formatRD_put: "ok_rd r \<Longrightarrow> formatRD (put_rd r) = Some (rd_text r)"
  by (cases r) (simp_all add: formatRD_def put_rd_def rd_reads)

lemma rt_of_put: "ok_rd r \<Longrightarrow> rt_of (put_rt r) = Some [rd_text r]"
  by (cases r) (simp_all add: rt_of_def put_rt_def rd_reads go_index_def)

lemma put_rt_length [simp]: "ok_rd r \<Longrightarrow> length (put_rt r) = 8"
  by (simp add: put_rt_def)

interpretation rts: tlv_stream put_rt ok_rd rd_text parseRTs
proof unfold_locales
  show "parseRTs [] = Some []" by (subst parseRTs.simps) simp
  show "ok_rd i \<Longrightarrow> parseRTs (put_rt i @ r) = map_option ((#) (rd_text i)) (parseRTs r)" for i r
    by (subst parseRTs.simps) (cases "parseRTs r"; simp add: go_range_def go_from_def rt_of_put)
qed

text \<open>The text determines the administrator and the number, not the type.\<close>

fun same_numbers :: "rd \<Rightarrow> rd \<Rightarrow> bool" where
  "same_numbers (RD0 a n) (RD2 b m) = (unat a = unat b \<and> unat n = unat m)"
| "same_numbers (RD2 a n) (RD0 b m) = (unat a = unat b \<and> unat n = unat m)"
| "same_numbers _ _ = False"

lemma colon_not_digit: "CHR '':'' \<notin> set (dec n)"
  by (rule not_digit_in_dec) (simp add: is_digit_def)

lemma colon_not_dotted: "CHR '':'' \<notin> set (dotted b)"
proof -
  have "CHR '':'' \<notin> set (join_with ''.'' xs)" if "\<forall>x \<in> set xs. CHR '':'' \<notin> set x" for xs
    using that by (induction "''.''" xs rule: join_with.induct) auto
  then show ?thesis by (simp add: dotted_def udec_def colon_not_digit)
qed

lemma dot_in_dotted: "length a = 4 \<Longrightarrow> CHR ''.'' \<in> set (dotted a)"
  by (auto simp: dotted_def numeral_eq_Suc length_Suc_conv)

lemma split_colon:
  "CHR '':'' \<notin> set a \<Longrightarrow> split_on CHR '':'' (a @ '':'' @ dec n) = [a, dec n]"
  by (simp add: split_on_sep split_on_no_sep colon_not_digit)

lemma colon_pair_inject:
  assumes "CHR '':'' \<notin> set a" "CHR '':'' \<notin> set b"
  shows "a @ '':'' @ dec m = b @ '':'' @ dec n \<longleftrightarrow> a = b \<and> m = n"
  using split_colon [OF assms(1), of m] split_colon [OF assms(2), of n]
  by (metis dec_inject list.inject)

lemma rd_text_eq:
  assumes "ok_rd r" "ok_rd s"
  shows "rd_text r = rd_text s \<longleftrightarrow> r = s \<or> same_numbers r s"
proof -
  have nodot: "dec k \<noteq> dotted a" if "length a = 4" for k and a :: bytes
    using dot_in_dotted [OF that] dot_not_digit [of k] by metis
  have dots: "dotted a = dotted b \<longleftrightarrow> a = b" if "length a = 4" "length b = 4" for a b :: bytes
    using that dotted_inject [of a b] by (cases "a = []"; cases "b = []") auto
  show ?thesis
    using assms
    by (cases r; cases s)
      (auto simp: udec_def colon_pair_inject [simplified] colon_not_digit colon_not_dotted ip_string_v4
        word_unat_eq_iff dots nodot nodot [THEN not_sym])
qed

text \<open>
  The text of a route distinguisher, under which its routes are filed, is the
  administrator and the number in the notation of RFC 4364 for all three types; two
  distinguishers share it exactly when they are equal or are a type 0 and a type 2 one with
  the same numbers (whose routes then share a subtree).
\<close>

theorem rd_text_identifies:
  assumes "ok_rd r" and "ok_rd s"
  shows "formatRD (put_rd r) = formatRD (put_rd s) \<longleftrightarrow> r = s \<or> same_numbers r s"
  using assms by (simp add: formatRD_put rd_text_eq)

theorem rd_text_identifies_witness:
  "formatRD (put_rd (RD0 65000 1)) = formatRD (put_rd (RD2 65000 1))"
  using rd_text_identifies [of "RD0 65000 1" "RD2 65000 1"] by simp


section \<open>Labeled VPN NLRI\<close>

text \<open>A label entry of three bytes: 20 bits of label, bottom-of-stack bit last.\<close>

definition put_label :: "32 word \<Rightarrow> bool \<Rightarrow> bytes" where
  "put_label l bos =
     (let x = push_bit 4 l OR (if bos then 1 else 0) in
      [ucast (drop_bit 16 x), ucast (drop_bit 8 x), ucast x])"

fun put_labels :: "32 word list \<Rightarrow> bytes" where
  "put_labels [] = []"
| "put_labels [l] = put_label l True"
| "put_labels (l # ls) = put_label l False @ put_labels ls"

lemma bit_1_iff: "bit (1 :: 'a::len word) n \<longleftrightarrow> n = 0"
  by (auto simp: bit_simps)

lemma label_join:
  "push_bit 16 (ucast (ucast (drop_bit 16 x) :: byte)) OR
   push_bit 8 (ucast (ucast (drop_bit 8 x) :: byte)) OR ucast (ucast x :: byte) =
   take_bit 24 (x :: 32 word)"
proof (rule bit_word_eqI)
  fix n assume "n < LENGTH(32)"
  then consider "n < 8" | "8 \<le> n" "n < 16" | "16 \<le> n" "n < 24" | "24 \<le> n" by fastforce
  then show "bit (push_bit 16 (ucast (ucast (drop_bit 16 x) :: byte)) OR
      push_bit 8 (ucast (ucast (drop_bit 8 x) :: byte)) OR ucast (ucast x :: byte) :: 32 word) n =
    bit (take_bit 24 x) n"
    by cases (auto simp: bit_simps dest: bit_imp_le_length)
qed

lemma label_value:
  assumes "take_bit 20 l = l"
  shows "drop_bit 4 (take_bit 24 (push_bit 4 l OR (if b then 1 else 0))) = (l :: 32 word)"
proof -
  have "drop_bit 4 (take_bit 24 (push_bit 4 l OR (if b then 1 else 0))) = take_bit 20 l"
    by (rule bit_word_eqI) (auto simp: bit_simps bit_1_iff)
  with assms show ?thesis by simp
qed

lemma label_bos: "(ucast (push_bit 4 l OR (if b then 1 else 0) :: 32 word) :: byte) AND 1 = (if b then 1 else 0)"
  by (rule bit_word_eqI) (auto simp: bit_simps)

lemma vpn_labels_put:
  "ls \<noteq> [] \<Longrightarrow> \<forall>l \<in> set ls. take_bit 20 l = l \<Longrightarrow>
   vpn_labels (put_labels ls @ r) l0 i = (last ls, i + 3 * length ls)"
proof (induction ls arbitrary: l0 i rule: put_labels.induct)
  case (2 l)
  then show ?case
    using label_value [of l True] label_bos [of l True] label_join [of "push_bit 4 l OR 1"]
    by (simp add: put_label_def Let_def)
next
  case (3 l l' ls)
  then show ?case
    using label_value [of l False] label_bos [of l False] label_join [of "push_bit 4 l"]
    by (simp add: put_label_def Let_def)
qed simp

record vpn_route =
  vr_rd :: rd
  vr_labels :: "32 word list"
  vr_pfx :: bytes
  vr_len :: nat

definition ok_vpn :: "vpn_route \<Rightarrow> bool" where
  "ok_vpn r \<longleftrightarrow>
     ok_rd (vr_rd r) \<and> vr_labels r \<noteq> [] \<and> length (vr_labels r) \<le> 6 \<and>
     (\<forall>l \<in> set (vr_labels r). take_bit 20 l = l) \<and>
     vr_len r \<le> 32 \<and> length (vr_pfx r) = (vr_len r + 7) div 8"

definition vpn_bits :: "vpn_route \<Rightarrow> nat" where
  "vpn_bits r = 24 * length (vr_labels r) + 64 + vr_len r"

definition put_vpn :: "vpn_route \<Rightarrow> bytes" where
  "put_vpn r = [word_of_nat (vpn_bits r)] @ put_labels (vr_labels r) @ put_rd (vr_rd r) @ vr_pfx r"

text \<open>What the collector should make of it: the text forms and the bottom label.\<close>

definition vpn_key :: "vpn_route \<Rightarrow> string \<times> string" where
  "vpn_key r = (rd_text (vr_rd r), cidr (copy_into 4 (vr_pfx r)) (vr_len r))"

definition vpn_item :: "vpn_route \<Rightarrow> string \<times> string \<times> 32 word" where
  "vpn_item r = (fst (vpn_key r), snd (vpn_key r), last (vr_labels r))"

lemma put_labels_length: "length (put_labels ls) = 3 * length ls"
  by (induction ls rule: put_labels.induct) (simp_all add: put_label_def Let_def)

lemma put_vpn_length:
  "ok_vpn r \<Longrightarrow> length (put_vpn r) = 1 + (vpn_bits r + 7) div 8"
  by (simp add: ok_vpn_def put_vpn_def put_labels_length vpn_bits_def)

lemma parse_put_vpn:
  assumes "ok_vpn r"
  shows "parseVPNNLRI (put_vpn r @ rest) =
    Some (fst (vpn_key r), snd (vpn_key r), last (vr_labels r), length (put_vpn r))"
proof -
  let ?n = "length (vr_labels r)"
  let ?data = "put_labels (vr_labels r) @ put_rd (vr_rd r) @ vr_pfx r"
  have ok: "ok_rd (vr_rd r)" "vr_labels r \<noteq> []" "?n \<le> 6" "\<forall>l \<in> set (vr_labels r). take_bit 20 l = l"
    "vr_len r \<le> 32" "length (vr_pfx r) = (vr_len r + 7) div 8"
    using assms by (simp_all add: ok_vpn_def)
  have bits: "unat (word_of_nat (vpn_bits r) :: byte) = vpn_bits r"
    using ok by (intro unat_of_small8) (simp add: vpn_bits_def)
  have total: "(vpn_bits r + 7) div 8 = length ?data"
    using ok by (simp add: vpn_bits_def put_labels_length)
  have labels: "vpn_labels ?data 0 0 = (last (vr_labels r), 3 * ?n)"
    using vpn_labels_put [of "vr_labels r" _ 0 0] ok by simp
  have b0: "go_index (put_vpn r @ rest) 0 = Some (word_of_nat (vpn_bits r))"
    by (simp add: go_index_def put_vpn_def)
  have data: "go_range (put_vpn r @ rest) 1 (1 + length ?data) = Some ?data"
    by (simp add: go_range_def put_vpn_def)
  have rd: "go_range ?data (3 * ?n) (3 * ?n + 8) = Some (put_rd (vr_rd r))"
    using ok by (simp add: go_range_def put_labels_length)
  have tail: "go_from ?data (3 * ?n + 8) = Some (vr_pfx r)"
    using ok by (simp add: go_from_def put_labels_length)
  have len: "\<not> length (put_vpn r @ rest) < 1" "\<not> length (put_vpn r @ rest) < 1 + length ?data"
    "\<not> length ?data < 3 * ?n + 8"
    using ok by (simp_all add: put_vpn_def put_labels_length)
  have minus: "vpn_bits r - (3 * ?n + 8) * 8 = vr_len r" by (simp add: vpn_bits_def)
  show ?thesis
    unfolding parseVPNNLRI_def if_not_P [OF len(1)] b0 Option.bind.bind_lunit Let_def bits total
      if_not_P [OF len(2)] data labels prod.case if_not_P [OF len(3)] rd formatRD_put [OF ok(1)] tail minus
    using assms by (simp add: vpn_key_def put_vpn_length total)
qed

interpretation vpn: tlv_stream put_vpn ok_vpn vpn_item vpn_nlris
proof unfold_locales
  show "vpn_nlris [] = Some []" by (subst vpn_nlris.simps) simp
  show "ok_vpn i \<Longrightarrow> vpn_nlris (put_vpn i @ r) = map_option ((#) (vpn_item i)) (vpn_nlris r)" for i r
    by (subst vpn_nlris.simps) (cases "vpn_nlris r"; simp add: parse_put_vpn go_from_def vpn_item_def
        put_vpn_length; simp add: put_vpn_def)
qed

section \<open>Withdrawals without the bottom-of-stack bit\<close>

text \<open>
  An NLRI whose only label lacks the bottom-of-stack bit, as the withdrawal label 0x800000 of
  RFC 8277 and an all-zero label field do.
\<close>

definition put_vpn_nobos :: "vpn_route \<Rightarrow> bytes" where
  "put_vpn_nobos r =
     [word_of_nat (vpn_bits r)] @ put_label (hd (vr_labels r)) False @ put_rd (vr_rd r) @ vr_pfx r"

text \<open>
  What the collector makes of it: the label loop runs on into the distinguisher.  When the low
  bit of the third byte of the distinguisher is set and three bytes of prefix follow, it takes
  the last five bytes of the distinguisher and the first three of the prefix for a
  distinguisher; otherwise it gives up on the NLRI, and on all that follow in the message.
\<close>

definition misread :: "vpn_route \<Rightarrow> (string \<times> string) option" where
  "misread r =
     (let b = put_rd (vr_rd r) @ vr_pfx r in
      if b ! 2 AND 1 = 1 \<and> 17 \<le> vr_len r
      then Some (the (formatRD (take 8 (drop 3 b))), cidr (copy_into 4 (drop 11 b)) (vr_len r - 24))
      else None)"

text \<open>The NLRI of a withdrawal, with the bit or without, and the entries the collector deletes.\<close>

definition put_nlri :: "bool \<times> vpn_route \<Rightarrow> bytes" where
  "put_nlri n = (if fst n then put_vpn (snd n) else put_vpn_nobos (snd n))"

definition ok_nlri :: "bool \<times> vpn_route \<Rightarrow> bool" where
  "ok_nlri n \<longleftrightarrow> ok_vpn (snd n) \<and> (fst n \<or> length (vr_labels (snd n)) = 1)"

definition withdrawn_key :: "bool \<times> vpn_route \<Rightarrow> (string \<times> string) option" where
  "withdrawn_key n = (if fst n then Some (vpn_key (snd n)) else misread (snd n))"

fun withdrawn :: "(bool \<times> vpn_route) list \<Rightarrow> (string \<times> string) list" where
  "withdrawn [] = []"
| "withdrawn (n # ns) = (case withdrawn_key n of None \<Rightarrow> [] | Some k \<Rightarrow> k # withdrawn ns)"

lemma put_label_shape: "\<exists>a b c. put_label l False = [a, b, c] \<and> c AND 1 = 0"
  using label_bos [of l False] by (auto simp: put_label_def Let_def)

lemma vpn_labels_index: "i + (if 3 \<le> length data then 3 else 0) \<le> snd (vpn_labels data l i)"
proof (induction data l i rule: vpn_labels.induct)
  case (1 a b c data l i)
  then show ?case by (fastforce simp: Let_def)
qed auto

lemma put_rd_bytes:
  assumes "ok_rd rd"
  obtains b0 b1 b2 b3 b4 b5 b6 b7 where "put_rd rd = [b0, b1, b2, b3, b4, b5, b6, b7]"
  using put_rd_length [OF assms] that
  by (auto simp: numeral_eq_Suc length_Suc_conv)

lemma parse_nobos:
  assumes "ok_nlri (False, r)"
  shows "\<exists>rd pfx l n. parseVPNNLRI (put_vpn_nobos r @ rest) = Some (rd, pfx, l, n) \<and>
    (case misread r of None \<Rightarrow> n = 0 | Some k \<Rightarrow> k = (rd, pfx) \<and> n = length (put_vpn_nobos r))"
proof -
  have ok: "ok_rd (vr_rd r)" "vr_len r \<le> 32" "length (vr_pfx r) = (vr_len r + 7) div 8" "length (vr_labels r) = 1"
    using assms by (simp_all add: ok_nlri_def ok_vpn_def)
  obtain x y z where lab: "put_label (hd (vr_labels r)) False = [x, y, z]" and z: "z AND 1 = 0"
    using put_label_shape by blast
  obtain b0 b1 b2 b3 b4 b5 b6 b7 where rd: "put_rd (vr_rd r) = [b0, b1, b2, b3, b4, b5, b6, b7]"
    by (rule put_rd_bytes [OF ok(1)])
  let ?p = "vr_pfx r"
  let ?data = "x # y # z # b0 # b1 # b2 # b3 # b4 # b5 # b6 # b7 # ?p"
  have k: "length ?p \<le> 4" using ok(2, 3) by simp
  have bits: "unat (word_of_nat (vpn_bits r) :: byte) = 88 + vr_len r"
    using ok by (subst unat_of_small8) (simp_all add: vpn_bits_def)
  have put: "put_vpn_nobos r = word_of_nat (vpn_bits r) # ?data"
    by (simp add: put_vpn_nobos_def lab rd)
  have total: "(88 + vr_len r + 7) div 8 = length ?data" using ok(3) by simp
  have data: "go_range (put_vpn_nobos r @ rest) 1 (1 + length ?data) = Some ?data"
    by (simp add: go_range_def put)
  have b0: "go_index (put_vpn_nobos r @ rest) 0 = Some (word_of_nat (vpn_bits r))"
    by (simp add: go_index_def put)
  have len: "\<not> length (put_vpn_nobos r @ rest) < 1" "\<not> length (put_vpn_nobos r @ rest) < 1 + length ?data"
    by (simp_all add: put)
  obtain l i where li: "vpn_labels ?data 0 0 = (l, i)" by fastforce
  have i: "if b2 AND 1 = 1 then i = 6 else 9 \<le> i"
    using li z vpn_labels_index [of 6 "b3 # b4 # b5 # b6 # b7 # ?p"
        "drop_bit 4 (push_bit 16 (ucast b0) OR push_bit 8 (ucast b1) OR ucast b2)"]
    by (auto simp: Let_def split: if_splits)
  have three: "3 \<le> length ?p \<longleftrightarrow> 17 \<le> vr_len r" using ok(3) by presburger
  have mis: "misread r = (if b2 AND 1 = 1 \<and> 3 \<le> length ?p
      then Some (the (formatRD (b3 # b4 # b5 # b6 # b7 # take 3 ?p)), cidr (copy_into 4 (drop 3 ?p)) (vr_len r - 24))
      else None)"
    unfolding three by (simp add: misread_def rd Let_def)
  have parse: "parseVPNNLRI (put_vpn_nobos r @ rest) =
      (if length ?data < i + 8 then Some ([], [], 0, 0)
       else do {
         s \<leftarrow> go_range ?data i (i + 8);
         rd \<leftarrow> formatRD s;
         q \<leftarrow> go_from ?data (i + 8);
         Some (rd, cidr (copy_into 4 q) (88 + vr_len r - (i + 8) * 8), l, 1 + length ?data)
       })"
    unfolding parseVPNNLRI_def if_not_P [OF len(1)] b0 Option.bind.bind_lunit Let_def bits total
      if_not_P [OF len(2)] data li prod.case by simp
  show ?thesis
  proof (cases "b2 AND 1 = 1 \<and> 3 \<le> length ?p")
    case True
    then have i6: "i = 6" using i by simp
    obtain s where s: "formatRD (b3 # b4 # b5 # b6 # b7 # take 3 ?p) = Some s"
      using formatRD_total by blast
    with True have "parseVPNNLRI (put_vpn_nobos r @ rest) =
        Some (s, cidr (copy_into 4 (drop 3 ?p)) (vr_len r - 24), l, length (put_vpn_nobos r))"
      unfolding parse i6 by (simp add: go_range_def go_from_def put numeral_eq_Suc)
    with True s show ?thesis by (simp add: mis)
  next
    case False
    then have "length ?data < i + 8" using i k by (auto split: if_splits)
    then show ?thesis unfolding parse using False by (auto simp: mis)
  qed
qed

lemma vpn_nlris_withdrawn:
  "list_all ok_nlri ns \<Longrightarrow>
   \<exists>rs. vpn_nlris (concat (map put_nlri ns)) = Some rs \<and> map (\<lambda>(rd, pfx, l). (rd, pfx)) rs = withdrawn ns"
proof (induction ns)
  case Nil
  show ?case by (subst vpn_nlris.simps) simp
next
  case (Cons n ns)
  obtain bos r where n: "n = (bos, r)" by (cases n)
  let ?more = "concat (map put_nlri ns)"
  obtain rs where rs: "vpn_nlris ?more = Some rs" "map (\<lambda>(rd, pfx, l). (rd, pfx)) rs = withdrawn ns"
    using Cons by auto
  have some: "put_nlri n \<noteq> []" by (simp add: put_nlri_def put_vpn_def put_vpn_nobos_def)
  obtain rd pfx l m where p: "parseVPNNLRI (put_nlri n @ ?more) = Some (rd, pfx, l, m)"
    and m: "case withdrawn_key n of None \<Rightarrow> m = 0 | Some k \<Rightarrow> k = (rd, pfx) \<and> m = length (put_nlri n)"
  proof (cases bos)
    case True
    with Cons.prems n have "ok_vpn r" by (simp add: ok_nlri_def)
    from parse_put_vpn [OF this, of ?more] True n show ?thesis
      by (intro that [of "fst (vpn_key r)" "snd (vpn_key r)"]) (simp_all add: put_nlri_def withdrawn_key_def)
  next
    case False
    with Cons.prems n have "ok_nlri (False, r)" by simp
    then obtain rd pfx l m where "parseVPNNLRI (put_vpn_nobos r @ ?more) = Some (rd, pfx, l, m)"
      "case misread r of None \<Rightarrow> m = 0 | Some k \<Rightarrow> k = (rd, pfx) \<and> m = length (put_vpn_nobos r)"
      using parse_nobos by blast
    with False n show ?thesis
      by (intro that [of rd pfx l m]) (simp_all add: put_nlri_def withdrawn_key_def cong: option.case_cong)
  qed
  show ?case
  proof (cases "withdrawn_key n")
    case None
    with p m some show ?thesis by (subst vpn_nlris.simps) simp
  next
    case (Some k)
    with p m some rs show ?thesis by (subst vpn_nlris.simps) (simp add: go_from_def)
  qed
qed


section \<open>Updates\<close>

text \<open>The per-peer header: an IPv4 or IPv6 peer, as the V flag says.\<close>

record peerhdr =
  ph_type :: byte
  ph_flags :: byte
  ph_dist :: bytes
  ph_addr :: ip
  ph_as :: "32 word"
  ph_id :: "32 word"
  ph_sec :: "32 word"
  ph_usec :: "32 word"

definition put_peer :: "peerhdr \<Rightarrow> bytes" where
  "put_peer h =
     [ph_type h, ph_flags h] @ ph_dist h @ replicate (16 - length (ph_addr h)) 0 @ ph_addr h @
     put_be32 (ph_as h) @ put_be32 (ph_id h) @ put_be32 (ph_sec h) @ put_be32 (ph_usec h)"

definition ok_peer :: "peerhdr \<Rightarrow> bool" where
  "ok_peer h \<longleftrightarrow>
     length (ph_dist h) = 8 \<and> length (ph_addr h) = (if ph_flags h AND 0x80 \<noteq> 0 then 16 else 4)"

text \<open>Extended communities: route targets, and eight bytes that are none.\<close>

datatype extcom = Target rd | OtherCom bytes

fun put_com :: "extcom \<Rightarrow> bytes" where
  "put_com (Target r) = put_rt r"
| "put_com (OtherCom c) = c"

fun ok_com :: "extcom \<Rightarrow> bool" where
  "ok_com (Target r) = ok_rd r"
| "ok_com (OtherCom c) = (length c = 8 \<and> \<not> (c ! 1 = 2 \<and> c ! 0 \<in> {0, 1, 2}))"

fun targets :: "extcom list \<Rightarrow> rd list" where
  "targets [] = []"
| "targets (Target r # cs) = r # targets cs"
| "targets (OtherCom c # cs) = targets cs"

text \<open>
  The two multiprotocol attributes of an UPDATE: absent, for labelled VPN-IPv4 routes, or for
  any other family.
\<close>

datatype reach = NoReach | VpnReach ip "vpn_route list" | OtherReach bytes

datatype unreach = NoUnreach | VpnUnreach "(bool \<times> vpn_route) list" | OtherUnreach bytes

definition put_reach :: "ip \<Rightarrow> vpn_route list \<Rightarrow> bytes" where
  "put_reach nh rs =
     put_be16 1 @ [128, 12] @ replicate 8 0 @ nh @ [0] @ concat (map put_vpn rs)"

definition put_unreach :: "(bool \<times> vpn_route) list \<Rightarrow> bytes" where
  "put_unreach ns = put_be16 1 @ [128] @ concat (map put_nlri ns)"

definition other_family :: "bytes \<Rightarrow> bool" where
  "other_family v \<longleftrightarrow> take 3 v \<noteq> [0, 1, 128]"

fun ok_reach :: "reach \<Rightarrow> bool" where
  "ok_reach NoReach = True"
| "ok_reach (VpnReach nh rs) = (length nh = 4 \<and> list_all ok_vpn rs)"
| "ok_reach (OtherReach v) = other_family v"

fun ok_unreach :: "unreach \<Rightarrow> bool" where
  "ok_unreach NoUnreach = True"
| "ok_unreach (VpnUnreach ns) = list_all ok_nlri ns"
| "ok_unreach (OtherUnreach v) = other_family v"

fun reach_value :: "reach \<Rightarrow> bytes option" where
  "reach_value NoReach = None"
| "reach_value (VpnReach nh rs) = Some (put_reach nh rs)"
| "reach_value (OtherReach v) = Some v"

fun unreach_value :: "unreach \<Rightarrow> bytes option" where
  "unreach_value NoUnreach = None"
| "unreach_value (VpnUnreach ns) = Some (put_unreach ns)"
| "unreach_value (OtherUnreach v) = Some v"

text \<open>
  An UPDATE under its peer: withdrawn and announced IPv4 unicast routes, and path attributes,
  among which, in any order and with any flags, are those the collector reads.
\<close>

record bgp_update =
  u_peer :: peerhdr
  u_withdrawn :: bytes
  u_reach :: reach
  u_unreach :: unreach
  u_coms :: "extcom list"
  u_attrs :: "(byte \<times> byte \<times> bytes) list"
  u_nlri :: bytes

definition opt_value :: "byte \<Rightarrow> bytes option \<Rightarrow> (byte \<times> bytes) list" where
  "opt_value t x = (case x of None \<Rightarrow> [] | Some v \<Rightarrow> [(t, v)])"

definition upd_values :: "bgp_update \<Rightarrow> (byte \<times> bytes) list" where
  "upd_values u =
     opt_value 14 (reach_value (u_reach u)) @ opt_value 15 (unreach_value (u_unreach u)) @
     opt_value 16 (if u_coms u = [] then None else Some (concat (map put_com (u_coms u))))"

definition upd_hdr :: "nat \<Rightarrow> bytes" where
  "upd_hdr n = replicate 16 255 @ put_be16 (word_of_nat n) @ [2]"

definition put_bgp :: "bgp_update \<Rightarrow> bytes" where
  "put_bgp u =
     put_update
       (upd_hdr (23 + length (u_withdrawn u) + length (put_bgp_attrs (u_attrs u)) + length (u_nlri u)))
       (u_withdrawn u) (put_bgp_attrs (u_attrs u)) (u_nlri u)"

definition ok_upd :: "bgp_update \<Rightarrow> bool" where
  "ok_upd u \<longleftrightarrow>
     ok_peer (u_peer u) \<and> ok_reach (u_reach u) \<and> ok_unreach (u_unreach u) \<and>
     list_all ok_com (u_coms u) \<and> list_all ok_bgp_attr (u_attrs u) \<and>
     among {14, 15, 16} (u_attrs u) (upd_values u) \<and> length (put_bgp u) < 65536"

text \<open>The messages of a session: Route Monitoring with such an UPDATE, and any other type.\<close>

datatype bmsg = BUpdate bgp_update | BOther byte bytes

fun bmsg_type :: "bmsg \<Rightarrow> byte" where
  "bmsg_type (BUpdate u) = 0"
| "bmsg_type (BOther ty body) = ty"

fun bmsg_body :: "bmsg \<Rightarrow> bytes" where
  "bmsg_body (BUpdate u) = put_peer (u_peer u) @ put_bgp u"
| "bmsg_body (BOther ty body) = body"

definition put_bmp :: "byte \<times> bytes \<Rightarrow> bytes" where
  "put_bmp m = (let (ty, body) = m in [3] @ put_be32 (word_of_nat (6 + length body)) @ [ty] @ body)"

definition ok_bmp :: "byte \<times> bytes \<Rightarrow> bool" where
  "ok_bmp m \<longleftrightarrow> 6 + length (snd m) < 2 ^ 32"

fun ok_bmsg :: "bmsg \<Rightarrow> bool" where
  "ok_bmsg (BUpdate u) = ok_upd u"
| "ok_bmsg (BOther ty body) = (ty \<noteq> 0 \<and> 6 + length body < 2 ^ 32)"

section \<open>The L3VPN subtree\<close>

text \<open>The leaves of every route, by distinguisher text and prefix.\<close>

type_synonym rib = "string \<times> string \<Rightarrow> string \<Rightarrow> typed_value option"

definition rib_of :: "tree \<Rightarrow> rib" where
  "rib_of t = (\<lambda>(rd, pfx) leaf. t (''frr'', vpnRouteElems rd pfx leaf))"

definition rib_announce :: "ip \<Rightarrow> ip \<Rightarrow> rd list \<Rightarrow> rib \<Rightarrow> vpn_route \<Rightarrow> rib" where
  "rib_announce peer nh rts rib r =
     rib(vpn_key r := (rib (vpn_key r))
       (''label'' \<mapsto> StringVal (udec (last (vr_labels r))), ''next-hop'' \<mapsto> StringVal (ip_string nh),
        ''route-target'' \<mapsto> StringVal (join_with '','' (map rd_text rts)),
        ''peer'' \<mapsto> StringVal (ip_string peer)))"

definition rib_clear :: "rib \<Rightarrow> string \<times> string \<Rightarrow> rib" where
  "rib_clear rib k = rib(k := Map.empty)"

text \<open>An UPDATE's announcements take effect before its withdrawals.\<close>

definition rib_reach :: "bgp_update \<Rightarrow> rib \<Rightarrow> rib" where
  "rib_reach u rib =
     (case u_reach u of
        VpnReach nh rs \<Rightarrow> foldl (rib_announce (ph_addr (u_peer u)) nh (targets (u_coms u))) rib rs
      | _ \<Rightarrow> rib)"

definition rib_unreach :: "bgp_update \<Rightarrow> rib \<Rightarrow> rib" where
  "rib_unreach u rib =
     (case u_unreach u of VpnUnreach ns \<Rightarrow> foldl rib_clear rib (withdrawn ns) | _ \<Rightarrow> rib)"

fun rib_step :: "rib \<Rightarrow> bmsg \<Rightarrow> rib" where
  "rib_step rib (BUpdate u) = rib_unreach u (rib_reach u rib)"
| "rib_step rib (BOther ty body) = rib"

lemma vpnRouteElems_eq [simp]:
  "vpnRouteElems rd p l = vpnRouteElems rd' p' l' \<longleftrightarrow> rd = rd' \<and> p = p' \<and> l = l'"
  by (auto simp: vpnRouteElems_def)

lemma vpnRouteElems_below [simp]:
  "below (vpnRouteElems rd p []) (vpnRouteElems rd' p' l) \<longleftrightarrow> rd = rd' \<and> p = p'"
  by (auto simp: vpnRouteElems_def below_def with_leaf_def)

lemma evpn_vpn [simp]:
  "evpnRouteElems rd ty key l \<noteq> vpnRouteElems rd' p l'"
  "vpnRouteElems rd' p l' \<noteq> evpnRouteElems rd ty key l"
  "\<not> below (evpnRouteElems rd ty key []) (vpnRouteElems rd' p l')"
  by (auto simp: vpnRouteElems_def evpnRouteElems_def below_def with_leaf_def)

lemma rib_writeVPN_withdraw:
  "rib_of (tree_effects t (writeVPNRoute w peer rd pfx label nh rts True)) =
     rib_clear (rib_of t) (rd, pfx)"
  by (rule ext) (auto simp: rib_of_def writeVPNRoute_def Let_def put_tree_dels del_paths_lookup
      rib_clear_def intro!: ext split: prod.splits)

lemma rib_writeVPN_announce:
  "nh \<noteq> [] \<Longrightarrow>
   rib_of (tree_effects t (writeVPNRoute w peer rd pfx label nh rts False)) =
     (rib_of t)((rd, pfx) := (rib_of t (rd, pfx))
       (''label'' \<mapsto> StringVal (udec label), ''next-hop'' \<mapsto> StringVal (ip_string nh),
        ''route-target'' \<mapsto> StringVal (join_with '','' rts), ''peer'' \<mapsto> StringVal (ip_string peer)))"
  by (rule ext) (auto simp: rib_of_def writeVPNRoute_def Let_def put_tree_ups nh_text_def
      intro!: ext split: prod.splits)

lemma rib_announces:
  "nh \<noteq> [] \<Longrightarrow>
   rib_of (tree_effects t (concat (map (\<lambda>r. writeVPNRoute w peer (fst (vpn_key r)) (snd (vpn_key r))
     (last (vr_labels r)) nh (map rd_text rts) False) rs))) =
   foldl (rib_announce peer nh rts) (rib_of t) rs"
  by (induction rs arbitrary: t) (simp_all add: rib_writeVPN_announce rib_announce_def)

lemma rib_withdraws:
  "rib_of (tree_effects t (concat (map (\<lambda>(rd, pfx, label). writeVPNRoute w peer rd pfx label nh rts True) rs))) =
   foldl rib_clear (rib_of t) (map (\<lambda>(rd, pfx, label). (rd, pfx)) rs)"
  by (induction rs arbitrary: t) (auto simp: rib_writeVPN_withdraw)

text \<open>Effects that leave the subtree alone.\<close>

definition quiet :: "effect list \<Rightarrow> bool" where
  "quiet es \<longleftrightarrow> (\<forall>t. rib_of (tree_effects t es) = rib_of t)"

lemma quiet_simps [simp]: "quiet []" "quiet xs \<Longrightarrow> quiet ys \<Longrightarrow> quiet (xs @ ys)"
  by (simp_all add: quiet_def)

lemma quiet_evpn: "quiet (writeEVPN w peer kind rd key nh rts wd)"
  unfolding quiet_def
  by (auto simp: writeEVPN_def rib_of_def put_tree_ups put_tree_dels del_paths_lookup intro!: ext)

lemma quiet_handleEVPN: "handleEVPN w peer rtype v nh rts wd = Some es \<Longrightarrow> quiet es"
  by (auto simp: handleEVPN_def bind_eq_Some_conv Let_def split: if_splits intro: quiet_evpn)

lemma quiet_evpns:
  "foldM (\<lambda>es (rtype, x). map_option (\<lambda>es'. es @ es') (handleEVPN w peer rtype x nh rts wd)) es0 rs = Some es \<Longrightarrow>
   quiet es0 \<Longrightarrow> quiet es"
proof (induction rs arbitrary: es0)
  case (Cons r rs)
  obtain rtype x where r: "r = (rtype, x)" by (cases r)
  obtain es1 where "handleEVPN w peer rtype x nh rts wd = Some es1"
    and "foldM (\<lambda>es (rtype, x). map_option (\<lambda>es'. es @ es') (handleEVPN w peer rtype x nh rts wd)) (es0 @ es1) rs = Some es"
    using Cons.prems(1) by (auto simp: r bind_eq_Some_conv)
  with Cons.IH [of "es0 @ es1"] Cons.prems(2) quiet_handleEVPN show ?case by simp
qed simp

lemma quiet_peer:
  assumes "peerState b env body up = Some (b', es)"
  shows "quiet es"
proof -
  obtain pp where pp: "perPeer body = Some pp" using perPeer_total by blast
  have "es = [] \<or> (\<exists>ups. es = [CacheUpdate ''openconfig'' ups []])"
  proof (cases pp)
    case None
    with pp assms show ?thesis by (simp add: peerState_def)
  next
    case (Some q)
    obtain peer as pt rd where q: "q = (peer, as, pt, rd)" by (cases q)
    from assms show ?thesis
      unfolding peerState_def pp Some q
      by (cases "is_unspecified peer") (auto simp: bind_eq_Some_conv Let_def split_beta simp del: if_split)
  qed
  then show ?thesis unfolding quiet_def by (auto simp: rib_of_def put_tree_other_origin intro!: ext)
qed

section \<open>Reading an UPDATE\<close>

lemma handleMP_reach:
  assumes "length nh = 4" and "list_all ok_vpn rs"
  shows "handleMP w peer (put_reach nh rs) rts False =
    Some (concat (map (\<lambda>r. writeVPNRoute w peer (fst (vpn_key r)) (snd (vpn_key r))
      (last (vr_labels r)) nh rts False) rs))"
proof -
  have v: "go_range (put_reach nh rs) 0 2 = Some (put_be16 1)" "go_index (put_reach nh rs) 2 = Some 128"
    "go_from (put_reach nh rs) 3 = Some (12 # replicate 8 0 @ nh @ [0] @ concat (map put_vpn rs))"
    "\<not> length (put_reach nh rs) < 3"
    using assms by (simp_all add: put_reach_def put_be16_def go_range_def go_index_def go_from_def)
  have nh: "mp_nexthop (12 # replicate 8 0 @ nh @ [0] @ concat (map put_vpn rs)) True =
      Some (Some (nh, concat (map put_vpn rs)))"
    using assms(1) by (simp add: mp_nexthop_def go_index_def go_from_def go_range_def mpNextHop_def)
  show ?thesis
    unfolding handleMP_def v if_not_P [OF v(4)] Option.bind.bind_lunit be16_put_bytes Let_def
    using nh vpn.parse_items [of rs] assms(2) by (simp add: vpn_item_def comp_def list_all_iff)
qed

lemma handleMP_unreach:
  assumes "list_all ok_nlri ns"
  shows "\<exists>es. handleMP w peer (put_unreach ns) rts True = Some es \<and>
    (\<forall>t. rib_of (tree_effects t es) = foldl rib_clear (rib_of t) (withdrawn ns))"
proof -
  have v: "go_range (put_unreach ns) 0 2 = Some (put_be16 1)" "go_index (put_unreach ns) 2 = Some 128"
    "go_from (put_unreach ns) 3 = Some (concat (map put_nlri ns))" "\<not> length (put_unreach ns) < 3"
    by (simp_all add: put_unreach_def put_be16_def go_range_def go_index_def go_from_def)
  obtain rs where rs: "vpn_nlris (concat (map put_nlri ns)) = Some rs"
    and keys: "map (\<lambda>(rd, pfx, l). (rd, pfx)) rs = withdrawn ns"
    using vpn_nlris_withdrawn [OF assms] by blast
  have "handleMP w peer (put_unreach ns) rts True =
      Some (concat (map (\<lambda>(rd, pfx, label). writeVPNRoute w peer rd pfx label [] rts True) rs))"
    unfolding handleMP_def v if_not_P [OF v(4)] Option.bind.bind_lunit be16_put_bytes Let_def
    using rs by simp
  with keys show ?thesis by (simp add: rib_withdraws)
qed

lemma handleMP_other:
  assumes "other_family v"
  shows "\<exists>es. handleMP w peer v rts wd = Some es \<and> quiet es"
proof -
  obtain es where es: "handleMP w peer v rts wd = Some es" using handleMP_total by blast
  have "quiet es"
  proof (cases "length v < 3")
    case True
    with es show ?thesis by (simp add: handleMP_def)
  next
    case False
    then obtain a b c r where v: "v = a # b # c # r" by (auto simp: not_less numeral_eq_Suc Suc_le_length_iff)
    have "\<not> (be16 [a, b] = Some 1 \<and> c = 128)"
    proof
      assume "be16 [a, b] = Some 1 \<and> c = 128"
      then have "put_be16 1 = [a, b]" "c = 128" using put_be16_be16 by blast+
      with assms v show False by (simp add: other_family_def put_be16_def)
    qed
    with es v show ?thesis
      by (auto simp: handleMP_def go_range_def go_index_def go_from_def Let_def bind_eq_Some_conv
          simp del: be16.simps split: if_splits option.splits dest: quiet_evpns [OF _ quiet_simps(1)])
  qed
  with es show ?thesis by blast
qed

lemma parseRTs_coms: "list_all ok_com cs \<Longrightarrow> parseRTs (concat (map put_com cs)) = Some (map rd_text (targets cs))"
proof (induction cs)
  case Nil
  show ?case by (simp add: rts.parse_nil)
next
  case (Cons c cs)
  show ?case
  proof (cases c)
    case (Target r)
    with Cons show ?thesis by (simp add: rts.parse_item)
  next
    case (OtherCom x)
    with Cons.prems have x: "length x = 8" "\<not> (x ! 1 = 2 \<and> x ! 0 \<in> {0, 1, 2})" by simp_all
    then have "x \<noteq> []" by auto
    with x have "rt_of x = Some []" by (auto simp: rt_of_def go_index_def)
    with Cons OtherCom x show ?thesis
      by (subst parseRTs.simps) (simp add: go_range_def go_from_def)
  qed
qed

text \<open>The variables of the walk, read from a map of types to values.\<close>

definition upd_vars0 :: upd_vars where
  "upd_vars0 = \<lparr>uv_reach = None, uv_unreach = None, uv_rts = []\<rparr>"

definition upd_read :: "upd_vars \<Rightarrow> (byte \<Rightarrow> bytes option) \<Rightarrow> upd_vars" where
  "upd_read v m =
     \<lparr>uv_reach = (if m 14 = None then uv_reach v else m 14),
      uv_unreach = (if m 15 = None then uv_unreach v else m 15),
      uv_rts = (if m 16 = None then uv_rts v else the (parseRTs (the (m 16))))\<rparr>"

definition upd_value_ok :: "byte \<times> bytes \<Rightarrow> bool" where
  "upd_value_ok a \<longleftrightarrow> fst a \<in> {14, 15, 16}"

lemma upd_read_cons:
  assumes "upd_value_ok (t, p)" and "m t = None"
  shows "\<exists>v'. upd_attr v (t, p) = Some v' \<and> upd_read v' m = upd_read v (m(t \<mapsto> p))"
  using assms parseRTs_total [of p]
  by (auto simp: upd_value_ok_def upd_attr_def upd_read_def)

lemma keys_opt_value: "map fst (opt_value t x) = (if x = None then [] else [t])"
  by (auto simp: opt_value_def split: option.splits)

lemma upd_keys: "distinct (map fst (upd_values u))"
  by (simp add: upd_values_def keys_opt_value)

lemma map_of_opt_value: "map_of (opt_value t x) k = (if k = t then x else None)"
  by (cases x) (auto simp: opt_value_def)

lemma upd_read_values:
  assumes "list_all ok_com (u_coms u)"
  shows "upd_read upd_vars0 (map_of (upd_values u)) =
    \<lparr>uv_reach = reach_value (u_reach u), uv_unreach = unreach_value (u_unreach u),
     uv_rts = map rd_text (targets (u_coms u))\<rparr>"
  using parseRTs_coms [OF assms]
  by (simp add: upd_read_def upd_vars0_def upd_values_def map_add_def map_of_opt_value split: option.splits)

lemma foldM_upd:
  assumes "ok_upd u"
  shows "foldM upd_attr upd_vars0 (map snd (u_attrs u)) =
    Some \<lparr>uv_reach = reach_value (u_reach u), uv_unreach = unreach_value (u_unreach u),
      uv_rts = map rd_text (targets (u_coms u))\<rparr>"
proof -
  have a: "among {14, 15, 16} (u_attrs u) (upd_values u)" and c: "list_all ok_com (u_coms u)"
    using assms by (simp_all add: ok_upd_def)
  have ok: "list_all upd_value_ok (upd_values u)"
    by (auto simp: upd_values_def opt_value_def upd_value_ok_def split: option.splits)
  have "foldM upd_attr upd_vars0 (map snd (u_attrs u)) = Some (upd_read upd_vars0 (map_of (upd_values u)))"
    by (rule foldM_among [OF upd_read_cons _ _ a upd_keys ok]) (simp_all add: upd_read_def upd_attr_def)
  with upd_read_values [OF c] show ?thesis by simp
qed

lemma perPeer_put:
  assumes "ok_peer h"
  shows "\<exists>as rd. perPeer (put_peer h @ r) = Some (Some (ph_addr h, as, ph_type h, rd))"
proof -
  let ?a = "replicate (16 - length (ph_addr h)) 0 @ ph_addr h"
  let ?q = "put_be32 (ph_as h) @ put_be32 (ph_id h) @ put_be32 (ph_sec h) @ put_be32 (ph_usec h) @ r"
  have d: "length (ph_dist h) = 8" and a: "length ?a = 16"
    using assms by (auto simp: ok_peer_def split: if_splits)
  have b: "put_peer h @ r = [ph_type h, ph_flags h] @ ph_dist h @ ?a @ ?q" by (simp add: put_peer_def)
  have rd: "go_index (put_peer h @ r) 0 = Some (ph_type h)" "go_index (put_peer h @ r) 1 = Some (ph_flags h)"
    "go_range (put_peer h @ r) 2 10 = Some (ph_dist h)" "\<not> length (put_peer h @ r) < 42"
    "go_range (put_peer h @ r) 26 30 = Some (put_be32 (ph_as h))"
    using d a by (simp_all add: b go_index_def go_range_def)
  have peer: "(if ph_flags h AND 0x80 \<noteq> 0 then go_range (put_peer h @ r) 10 26
      else go_range (put_peer h @ r) 22 26) = Some (ph_addr h)"
    using d assms by (auto simp: b go_range_def ok_peer_def)
  obtain s where s: "formatRD (ph_dist h) = Some s" using formatRD_total by blast
  then have t: "(if \<not> allZero (ph_dist h) then formatRD (ph_dist h) else Some []) =
      Some (if \<not> allZero (ph_dist h) then s else [])" by simp
  show ?thesis
    unfolding perPeer_def if_not_P [OF rd(4)] rd Option.bind.bind_lunit peer t be32_put_bytes by blast
qed

lemma put_peer_length: "ok_peer h \<Longrightarrow> length (put_peer h) = 42"
  by (auto simp: ok_peer_def put_peer_def split: if_splits)

lemma parseUpdate_upd:
  assumes "ok_upd u"
  shows "parseUpdate w peer (slice_of (put_bgp u)) =
    upd_effects w peer \<lparr>uv_reach = reach_value (u_reach u), uv_unreach = unreach_value (u_unreach u),
      uv_rts = map rd_text (targets (u_coms u))\<rparr>"
proof -
  let ?n = "23 + length (u_withdrawn u) + length (put_bgp_attrs (u_attrs u)) + length (u_nlri u)"
  have "length (put_bgp u) < 65536" and as: "list_all ok_bgp_attr (u_attrs u)"
    using assms by (simp_all add: ok_upd_def)
  then have "ok_update (upd_hdr ?n) (u_withdrawn u) (put_bgp_attrs (u_attrs u))"
    by (simp add: ok_update_def upd_hdr_def put_bgp_def put_update_def nth_append)
  moreover have "bgp_attrs (Slice (put_bgp_attrs (u_attrs u)) (u_nlri u)) = Some (map snd (u_attrs u))"
    using bgpattr.parse_items [of "u_attrs u" "u_nlri u"] as by (simp add: put_bgp_attrs_def list_all_iff)
  ultimately show ?thesis
    using foldM_upd [OF assms] by (simp add: put_bgp_def parseUpdate_put upd_vars0_def)
qed

lemma reach_effects:
  assumes "ok_reach (u_reach u)"
  shows "\<exists>es. (case reach_value (u_reach u) of None \<Rightarrow> Some []
      | Some x \<Rightarrow> handleMP w (ph_addr (u_peer u)) x (map rd_text (targets (u_coms u))) False) = Some es \<and>
    (\<forall>t. rib_of (tree_effects t es) = rib_reach u (rib_of t))"
proof (cases "u_reach u")
  case (VpnReach nh rs)
  with assms have "nh \<noteq> []" by auto
  with VpnReach assms show ?thesis by (simp add: handleMP_reach rib_reach_def rib_announces)
next
  case (OtherReach v)
  with assms handleMP_other [of v] show ?thesis by (auto simp: rib_reach_def quiet_def)
qed (simp add: rib_reach_def)

lemma unreach_effects:
  assumes "ok_unreach (u_unreach u)"
  shows "\<exists>es. (case unreach_value (u_unreach u) of None \<Rightarrow> Some []
      | Some x \<Rightarrow> handleMP w peer x [] True) = Some es \<and>
    (\<forall>t. rib_of (tree_effects t es) = rib_unreach u (rib_of t))"
proof (cases "u_unreach u")
  case (VpnUnreach ns)
  with assms handleMP_unreach [of ns w peer "[]"] show ?thesis by (auto simp: rib_unreach_def)
next
  case (OtherUnreach v)
  with assms handleMP_other [of v] show ?thesis by (auto simp: rib_unreach_def quiet_def)
qed (simp add: rib_unreach_def)

lemma routeMon_upd:
  assumes "ok_upd u"
  shows "\<exists>es. routeMon w (bmsg_body (BUpdate u)) = Some es \<and>
    (\<forall>t. rib_of (tree_effects t es) = rib_step (rib_of t) (BUpdate u))"
proof -
  have ok: "ok_peer (u_peer u)" "ok_reach (u_reach u)" "ok_unreach (u_unreach u)"
    using assms by (simp_all add: ok_upd_def)
  obtain as rd where peer: "perPeer (put_peer (u_peer u) @ put_bgp u) = Some (Some (ph_addr (u_peer u), as, ph_type (u_peer u), rd))"
    using perPeer_put [OF ok(1)] by blast
  have m: "sl_from (slice_of (put_peer (u_peer u) @ put_bgp u)) 42 = Some (slice_of (put_bgp u))"
    using put_peer_length [OF ok(1)] by (simp add: sl_from_def slice_of_def sl_len_def)
  from reach_effects [OF ok(2), of w] unreach_effects [OF ok(3), of w "ph_addr (u_peer u)"]
  show ?thesis by (auto simp: routeMon_def peer m parseUpdate_upd [OF assms] upd_effects_def cong: option.case_cong)
qed

section \<open>Sessions\<close>

lemma bmp_handle_frame:
  assumes "ok_bmp (ty, body)"
  shows "bmp_handle env s (put_bmp (ty, body) @ r) =
    Option.bind (bmp_frame env s ty body) (\<lambda>s'. bmp_handle env s' r)"
proof -
  let ?b = "put_bmp (ty, body) @ r"
  let ?n = "6 + length body"
  have n: "unat (word_of_nat ?n :: 32 word) = ?n"
    using assms by (intro unat_of_small32) (simp add: ok_bmp_def)
  have rd: "go_index ?b 0 = Some 3" "go_range ?b 1 5 = Some (put_be32 (word_of_nat ?n))"
    "go_index ?b 5 = Some ty" "go_range ?b 6 ?n = Some body" "drop ?n ?b = r"
    by (simp_all add: go_index_def go_range_def put_bmp_def put_be32_def drop_Cons')
  have len: "\<not> length ?b < 6" "\<not> length ?b < ?n" "\<not> ?n < 6" by (simp_all add: put_bmp_def)
  show ?thesis
    by (subst bmp_handle.simps)
      (simp only: len rd n read_put_nil Option.bind.bind_lunit Let_def if_False simp_thms)
qed

interpretation bmp_conn: frame_stream put_bmp ok_bmp "\<lambda>s (ty, body). bmp_frame env s ty body"
  "bmp_handle env" for env
proof unfold_locales
  show "bmp_handle env s [] = Some s" for s by (subst bmp_handle.simps) simp
  show "ok_bmp m \<Longrightarrow> bmp_handle env s (put_bmp m @ r) =
      Option.bind (case m of (ty, body) \<Rightarrow> bmp_frame env s ty body)
        (\<lambda>s'. bmp_handle env s' r)" for m s r
    by (cases m) (simp add: bmp_handle_frame)
qed

definition put_bmp_session :: "bmsg list \<Rightarrow> bytes" where
  "put_bmp_session ms = concat (map (\<lambda>m. put_bmp (bmsg_type m, bmsg_body m)) ms)"

lemma ok_bmsg_frame: "ok_bmsg m \<Longrightarrow> ok_bmp (bmsg_type m, bmsg_body m)"
  by (cases m) (auto simp: ok_bmp_def ok_upd_def put_peer_length)

text \<open>One message: handled, and what it does to the subtree.\<close>

lemma bmsg_frame:
  assumes "ok_bmsg m"
  shows "\<exists>b' es. bmp_frame env (b, n, out) (bmsg_type m) (bmsg_body m) = Some (b', n + 1, out @ es) \<and>
    (\<forall>t. rib_of (tree_effects t es) = rib_step (rib_of t) m)"
proof (cases m)
  case (BUpdate u)
  with assms routeMon_upd [of u "b_w b"] show ?thesis by (auto simp: bmp_frame_def)
next
  case (BOther ty body)
  obtain b1 es1 where up: "peerState b (env n) body True = Some (b1, es1)"
    using peerState_total [of b "env n" body True] by auto
  obtain b2 es2 where down: "peerState b (env n) body False = Some (b2, es2)"
    using peerState_total [of b "env n" body False] by auto
  from BOther assms up down quiet_peer [OF up] quiet_peer [OF down] show ?thesis
    by (cases "ty = 3"; cases "ty = 2") (auto simp: bmp_frame_def quiet_def)
qed

definition rib_view :: "tree \<Rightarrow> bmp_conn \<Rightarrow> nat \<times> rib" where
  "rib_view t s = (let (b, n, out) = s in (n, rib_of (tree_effects t out)))"

lemma bmp_frames_rib:
  "\<forall>m \<in> set ms. ok_bmsg m \<Longrightarrow>
   \<exists>b' es. foldM (\<lambda>s (ty, body). bmp_frame env s ty body) (b, n, out)
      (map (\<lambda>m. (bmsg_type m, bmsg_body m)) ms) = Some (b', n + length ms, out @ es) \<and>
    (\<forall>t. rib_of (tree_effects t es) = foldl rib_step (rib_of t) ms)"
proof (induction ms arbitrary: b n out)
  case (Cons m ms)
  obtain b1 es1 where f: "bmp_frame env (b, n, out) (bmsg_type m) (bmsg_body m) = Some (b1, n + 1, out @ es1)"
    and r: "\<forall>t. rib_of (tree_effects t es1) = rib_step (rib_of t) m"
    using bmsg_frame [of m env b n out] Cons.prems by auto
  obtain b2 es2 where "foldM (\<lambda>s (ty, body). bmp_frame env s ty body) (b1, n + 1, out @ es1)
      (map (\<lambda>m. (bmsg_type m, bmsg_body m)) ms) = Some (b2, n + 1 + length ms, (out @ es1) @ es2)"
    and "\<forall>t. rib_of (tree_effects t es2) = foldl rib_step (rib_of t) ms"
    using Cons.IH [of b1 "n + 1" "out @ es1"] Cons.prems by auto
  with f r show ?case by (intro exI [of _ b2] exI [of _ "es1 @ es2"]) simp
qed simp

text \<open>
  C9. A BMP session, from its bytes to the tree: over any sequence of BMP frames that carry
  UPDATE messages, and frames of any other type (Peer Up and Down among them, well-formed or
  not), the collector never panics or loses synchronisation, and the L3VPN subtree is exactly
  what the messages in their order make of it: an announcement of a labelled VPN route (any
  distinguisher type, one to six labels ending in the bottom-of-stack bit, any prefix) sets the
  bottom label, next hop, route targets and peer of its entry, and a withdrawal with the
  bottom-of-stack bit removes its entry.  A withdrawal without that bit, as RFC 8277 writes it,
  removes no entry, or the one that the collector misreads it as, and may hide the rest of its
  message (C39).  The UPDATEs have any peer header, IPv4 or IPv6, any withdrawn and announced
  IPv4 unicast routes, any extended communities, multiprotocol attributes for VPN-IPv4 or any
  other family, and any other path attributes before, between and behind them.  (An UPDATE with
  two attributes of one of these types, and a next hop that is not a VPN-IPv4 address, are not
  covered.)
\<close>

theorem bmp_session_rib:
  assumes "\<forall>m \<in> set ms. ok_bmsg m"
  shows "\<exists>b' es. bmp_connect env b (put_bmp_session ms) = Some (b', es) \<and>
    rib_of (tree_effects t es) = foldl rib_step (rib_of t) ms"
proof -
  let ?out = "if w_hook (b_w b) then [KickOSPF ''bmp-reconnect''] else []"
  have "bmp_handle env (b, 0, ?out) (put_bmp_session ms) =
      foldM (\<lambda>s (ty, body). bmp_frame env s ty body) (b, 0, ?out)
        (map (\<lambda>m. (bmsg_type m, bmsg_body m)) ms)"
    using bmp_conn.run_all [of "map (\<lambda>m. (bmsg_type m, bmsg_body m)) ms" env "(b, 0, ?out)"] assms
    by (simp add: put_bmp_session_def ok_bmsg_frame comp_def)
  with bmp_frames_rib [OF assms, of env b 0 ?out] show ?thesis by (auto simp: bmp_connect_def)
qed

text \<open>
  A session: the initiation message, an UPDATE with the attributes a speaker sends (origin, AS
  path, a route target next to another community, the route), and the withdrawal of the route.
\<close>

definition demo_vpn :: vpn_route where
  "demo_vpn = \<lparr>vr_rd = RD0 65000 1, vr_labels = [80], vr_pfx = [10, 0, 1], vr_len = 24\<rparr>"

definition demo_peer :: peerhdr where
  "demo_peer = \<lparr>ph_type = 0, ph_flags = 0, ph_dist = replicate 8 0, ph_addr = [192, 0, 2, 1], ph_as = 65000,
     ph_id = 0xC0000201, ph_sec = 1700000000, ph_usec = 0\<rparr>"

definition demo_coms :: "extcom list" where
  "demo_coms = [OtherCom [0, 5, 0, 0, 0, 0, 2, 0], Target (RD0 65000 100)]"

definition announce :: "ip \<Rightarrow> vpn_route list \<Rightarrow> bmsg" where
  "announce nh rs = BUpdate
     \<lparr>u_peer = demo_peer, u_withdrawn = [], u_reach = VpnReach nh rs, u_unreach = NoUnreach,
      u_coms = demo_coms,
      u_attrs = [(0x40, 1, [0]), (0x50, 2, [2, 1, 0, 0, 0xfd, 0xe9]), (0x40, 5, [0, 0, 0, 100]),
        (0xC0, 16, concat (map put_com demo_coms)), (0x80, 14, put_reach nh rs)],
      u_nlri = []\<rparr>"

definition withdraw_msg :: "bool \<Rightarrow> vpn_route \<Rightarrow> bmsg" where
  "withdraw_msg bos r = BUpdate
     \<lparr>u_peer = demo_peer, u_withdrawn = [], u_reach = NoReach, u_unreach = VpnUnreach [(bos, r)],
      u_coms = [], u_attrs = [(0x90, 15, put_unreach [(bos, r)])], u_nlri = []\<rparr>"

definition demo_bgp :: "bmsg list" where
  "demo_bgp = [BOther 4 [], announce [192, 0, 2, 9] [demo_vpn], withdraw_msg True demo_vpn]"

lemma put_vpn_short: "ok_vpn r \<Longrightarrow> length (put_vpn r) \<le> 31"
proof -
  assume r: "ok_vpn r"
  then have "vpn_bits r + 7 \<le> 247" by (simp add: vpn_bits_def ok_vpn_def)
  then have "(vpn_bits r + 7) div 8 \<le> 247 div 8" by (rule div_le_mono)
  with r show ?thesis by (simp add: put_vpn_length)
qed

lemma demo_vpn_ok: "ok_vpn demo_vpn"
  by (simp add: demo_vpn_def ok_vpn_def take_bit_word_eq_self)

lemma demo_peer_ok: "ok_peer demo_peer"
  by (simp add: demo_peer_def ok_peer_def)

lemma announce_ok:
  assumes "length nh = 4" and "ok_vpn r"
  shows "ok_bmsg (announce nh [r])"
  using assms put_vpn_short [of r]
  by (simp add: announce_def ok_upd_def demo_peer_ok demo_coms_def ok_bgp_attr_def put_reach_def
      among_def upd_values_def opt_value_def put_bgp_def put_update_def upd_hdr_def put_bgp_attrs_def
      put_bgp_attr_def)

lemma withdraw_ok:
  assumes "ok_nlri (bos, r)"
  shows "ok_bmsg (withdraw_msg bos r)"
proof -
  have r: "ok_vpn r" and short: "length (put_nlri (bos, r)) \<le> 31"
    using assms put_vpn_short [of r]
    by (auto simp: ok_nlri_def put_nlri_def put_vpn_nobos_def put_label_def Let_def ok_vpn_def)
  with assms show ?thesis
    by (simp add: withdraw_msg_def ok_upd_def demo_peer_ok ok_bgp_attr_def put_unreach_def
      among_def upd_values_def opt_value_def put_bgp_def put_update_def upd_hdr_def put_bgp_attrs_def
      put_bgp_attr_def)
qed

lemma demo_bgp_ok: "\<forall>m \<in> set demo_bgp. ok_bmsg m"
  using announce_ok [of "[192, 0, 2, 9]" demo_vpn] withdraw_ok [of True demo_vpn] demo_vpn_ok
  by (simp add: demo_bgp_def ok_nlri_def)

theorem bmp_session_rib_witness:
  "\<exists>b' es. bmp_connect (\<lambda>_. (Some [], [])) (NewBMP (Some []) all_wired) (put_bmp_session demo_bgp) = Some (b', es) \<and>
     rib_of (tree_effects Map.empty es) = foldl rib_step (rib_of Map.empty) demo_bgp"
  by (rule bmp_session_rib [OF demo_bgp_ok])

text \<open>What a misread withdrawal deletes is never the entry of the route it names.\<close>

lemma misread_other:
  assumes "ok_vpn r" and "misread r = Some k"
  shows "k \<noteq> vpn_key r"
proof
  assume "k = vpn_key r"
  then have "cidr (copy_into 4 (drop 3 (vr_pfx r))) (vr_len r - 24) = cidr (copy_into 4 (vr_pfx r)) (vr_len r)"
    using assms by (auto simp: misread_def vpn_key_def Let_def ok_vpn_def split: if_splits)
  then have "vr_len r - 24 = vr_len r" by (simp add: cidr_v4_inject)
  with assms show False by (auto simp: misread_def Let_def split: if_splits)
qed

text \<open>
  C39. A withdrawal of one labelled VPN route whose label lacks the bottom-of-stack bit, as the
  withdrawal label 0x800000 and an all-zero label do, never removes the route: whatever the
  route's distinguisher, prefix and label, the message's header and other attributes and the
  collector's state, all leaves of the route's entry stay as they were.
\<close>

theorem withdraw_label_leaves_route:
  assumes "ok_upd u" and "u_reach u = NoReach" and "u_unreach u = VpnUnreach [(False, r)]"
  shows "\<exists>es. routeMon w (bmsg_body (BUpdate u)) = Some es \<and>
    tree_effects t es (''frr'', vpnRouteElems (fst (vpn_key r)) (snd (vpn_key r)) leaf) =
      t (''frr'', vpnRouteElems (fst (vpn_key r)) (snd (vpn_key r)) leaf)"
proof -
  have "ok_vpn r" using assms by (simp add: ok_upd_def ok_nlri_def)
  with misread_other [of r] have "rib_step (rib_of t) (BUpdate u) (vpn_key r) = rib_of t (vpn_key r)"
    using assms(2, 3)
    by (auto simp: rib_reach_def rib_unreach_def withdrawn_key_def rib_clear_def split: option.splits)
  moreover obtain es where "routeMon w (bmsg_body (BUpdate u)) = Some es"
    and "rib_of (tree_effects t es) = rib_step (rib_of t) (BUpdate u)"
    using routeMon_upd [OF assms(1)] by blast
  ultimately have "routeMon w (bmsg_body (BUpdate u)) = Some es"
    "rib_of (tree_effects t es) (vpn_key r) leaf = rib_of t (vpn_key r) leaf" by simp_all
  then show ?thesis by (auto simp: rib_of_def split_beta)
qed

theorem withdraw_label_leaves_route_witness:
  "\<exists>es. routeMon all_wired (bmsg_body (withdraw_msg False (demo_vpn\<lparr>vr_labels := [0x80000]\<rparr>))) = Some es \<and>
    tree_effects (\<lambda>_. Some (StringVal ''80'')) es
      (''frr'', vpnRouteElems (fst (vpn_key demo_vpn)) (snd (vpn_key demo_vpn)) ''label'') = Some (StringVal ''80'')"
proof -
  let ?r = "demo_vpn\<lparr>vr_labels := [0x80000]\<rparr>"
  have nlri: "ok_nlri (False, ?r)"
    by (simp add: demo_vpn_def ok_nlri_def ok_vpn_def take_bit_word_eq_self)
  have key: "vpn_key ?r = vpn_key demo_vpn" by (simp add: vpn_key_def)
  obtain u where u: "withdraw_msg False ?r = BUpdate u" "u_reach u = NoReach" "u_unreach u = VpnUnreach [(False, ?r)]"
    by (simp add: withdraw_msg_def)
  with withdraw_ok [OF nlri] have "ok_upd u" by simp
  from withdraw_label_leaves_route [OF this u(2, 3), where t = "\<lambda>_. Some (StringVal ''80'')"] show ?thesis
    unfolding u(1) key .
qed

section \<open>Network instances of peers\<close>

text \<open>Names once learned are kept: no message changes or forgets one.\<close>

lemma peer_vrf_keeps:
  "b_rdVRF b rd = Some n \<Longrightarrow> b_rdVRF (snd (peer_vrf b env rd' tlv)) rd = Some n"
  by (auto simp: peer_vrf_def NonDefaultNames_def Let_def split: option.splits list.splits)

lemma peerState_state:
  assumes "peerState b env body up = Some (b', es)"
  shows "b' = b \<or> (\<exists>rd tlv. b' = snd (peer_vrf b env rd tlv))"
proof -
  obtain pp where pp: "perPeer body = Some pp" using perPeer_total by blast
  show ?thesis
  proof (cases pp)
    case None
    with pp assms show ?thesis by (simp add: peerState_def)
  next
    case (Some q)
    obtain peer as pt rd where q: "q = (peer, as, pt, rd)" by (cases q)
    let ?c = "rd \<noteq> [] \<and> b_rdVRF b rd = None \<and> up"
    obtain s where "peerUpVRF body = Some s" using peerUpVRF_total by blast
    then have tlv: "(if ?c then peerUpVRF body else Some []) = Some (if ?c then s else [])" by simp
    from assms have "is_unspecified peer \<and> b' = b \<or> b' = snd (peer_vrf b env rd (if ?c then s else []))"
      unfolding peerState_def pp Some q Option.bind.bind_lunit option.case prod.case tlv
      by (cases "peer_vrf b env rd (if ?c then s else [])") (auto split: if_splits)
    then show ?thesis by blast
  qed
qed

lemma peerState_keeps:
  "peerState b env body up = Some (b', es) \<Longrightarrow> b_rdVRF b rd = Some n \<Longrightarrow> b_rdVRF b' rd = Some n"
  using peerState_state [of b env body up b' es] peer_vrf_keeps [of b rd n env] by auto

lemma bmp_frame_keeps:
  "bmp_frame env (b, k, out) ty body = Some (b', k', out') \<Longrightarrow> b_rdVRF b rd = Some n \<Longrightarrow>
   b_rdVRF b' rd = Some n"
  by (auto simp: bmp_frame_def split: if_splits dest: peerState_keeps)

lemma bmp_handle_keeps:
  assumes "bmp_handle env s str = Some s'" and "b_rdVRF (fst s) rd = Some n"
  shows "b_rdVRF (fst s') rd = Some n"
proof (rule bmp_handle_invariant [OF _ assms(1), of "\<lambda>s. b_rdVRF (fst s) rd = Some n", OF _ assms(2)])
  fix s s1 ty body
  assume "b_rdVRF (fst s) rd = Some n" and "bmp_frame env s ty body = Some s1"
  then show "b_rdVRF (fst s1) rd = Some n" by (cases s; cases s1) (auto dest: bmp_frame_keeps)
qed

text \<open>
  The network instance of a distinguisher is learned once: when it has a name, every later
  message of the session, on whatever bytes arrive in between and whatever devices appear or
  go, is filed under that name.
\<close>

theorem rd_name_learned_once:
  assumes "bmp_handle env (b, k, out) str = Some (b', k', out')"
    and "b_rdVRF b rd = Some n" and "rd \<noteq> []"
  shows "fst (peer_vrf b' env' rd tlv) = n"
  using bmp_handle_keeps [OF assms(1), of rd n] assms(2, 3) by (simp add: peer_vrf_def)

definition demo_bmp :: bmp where
  "demo_bmp = \<lparr>b_vrf = NewVRFResolver (Some []), b_rdVRF = [''65000:1'' \<mapsto> ''cust''],
     b_w = all_wired\<rparr>"

theorem rd_name_learned_once_witness:
  "fst (peer_vrf demo_bmp (None, []) ''65000:1'' ''other'') = ''cust''"
  using rd_name_learned_once [of "\<lambda>_. (None, [])" demo_bmp 0 "[]" "[]" demo_bmp 0 "[]" "''65000:1''" "''cust''"]
  by (simp add: bmp_handle.simps demo_bmp_def)

text \<open>
  A guess pre-empts the authoritative name: when the first message of a distinguisher
  carries no name (a Peer Down, or a Peer Up without the table-name TLV) and the node has one
  VRF device, that device's name is learned, and the TLV of any later Peer Up is ignored.
\<close>

theorem guess_blocks_table_name:
  assumes "rd \<noteq> []" and "b_rdVRF b rd = None" and "map snd order = [n]" and "n \<noteq> []"
  shows "fst (peer_vrf (snd (peer_vrf b (links, order) rd [])) env' rd tlv) = n"
  using assms by (simp add: peer_vrf_def NonDefaultNames_def)

theorem guess_blocks_table_name_witness:
  "fst (peer_vrf (snd (peer_vrf (NewBMP (Some []) all_wired)
       (Some [VrfLink 10 ''blue''], [(10, ''blue'')]) ''65000:1'' [])) (None, []) ''65000:1'' ''cust'') = ''blue''"
  by (rule guess_blocks_table_name) (simp_all add: NewBMP_def)

section \<open>Peer Up messages\<close>

text \<open>An information TLV, and the body of a Peer Up: header, addresses and ports, two OPENs, TLVs.\<close>

definition put_info :: "16 word \<times> bytes \<Rightarrow> bytes" where
  "put_info i = (let (ty, v) = i in put_be16 ty @ put_be16 (word_of_nat (length v)) @ v)"

definition ok_info :: "16 word \<times> bytes \<Rightarrow> bool" where
  "ok_info i \<longleftrightarrow> length (snd i) < 65536"

definition put_open :: "bytes \<Rightarrow> bytes" where
  "put_open p = replicate 16 255 @ put_be16 (word_of_nat (19 + length p)) @ [1] @ p"

definition put_peer_up :: "bytes \<Rightarrow> bytes \<Rightarrow> bytes \<Rightarrow> bytes \<Rightarrow> (16 word \<times> bytes) list \<Rightarrow> bytes" where
  "put_peer_up hdr addrs open1 open2 infos =
     hdr @ addrs @ put_open open1 @ put_open open2 @ concat (map put_info infos)"

definition table_name :: "(16 word \<times> bytes) list \<Rightarrow> string" where
  "table_name infos =
     (case filter (\<lambda>i. fst i = 3) infos of [] \<Rightarrow> [] | i # _ \<Rightarrow> bytes_string (snd i))"

lemma info_vrf_put:
  assumes "ok_info (ty, v)"
  shows "info_vrf (put_info (ty, v) @ r) = (if ty = 3 then Some (bytes_string v) else info_vrf r)"
proof -
  let ?b = "put_info (ty, v) @ r"
  have n: "unat (word_of_nat (length v) :: 16 word) = length v"
    using assms by (intro unat_of_small16) (simp add: ok_info_def)
  have rd: "go_range ?b 0 2 = Some (put_be16 ty)" "go_range ?b 2 4 = Some (put_be16 (word_of_nat (length v)))"
    "go_range ?b 4 (4 + length v) = Some v" "go_from ?b (4 + length v) = Some r"
    by (simp_all add: put_info_def go_range_def go_from_def)
  have len: "\<not> length ?b < 4" "\<not> length ?b < 4 + length v" by (simp_all add: put_info_def)
  show ?thesis
    by (subst info_vrf.simps)
      (simp only: rd len n be16_put_bytes Option.bind.bind_lunit Let_def if_False option.map)
qed

lemma info_vrf_puts:
  "\<forall>i \<in> set infos. ok_info i \<Longrightarrow> info_vrf (concat (map put_info infos)) = Some (table_name infos)"
proof (induction infos)
  case Nil
  show ?case by (subst concat.simps list.map)+ (subst info_vrf.simps, simp add: table_name_def)
next
  case (Cons i infos)
  then show ?case by (cases i) (simp add: info_vrf_put table_name_def)
qed

lemma skip_put_open:
  assumes "length p < 65000"
  shows "skip_open (put_open p @ r) = Some (Some r)"
proof -
  let ?n = "19 + length p"
  have n: "unat (word_of_nat ?n :: 16 word) = ?n"
    using assms by (intro unat_of_small16) simp
  have rd: "go_range (put_open p @ r) 16 18 = Some (put_be16 (word_of_nat ?n))"
    "go_from (put_open p @ r) ?n = Some r"
    by (simp_all add: put_open_def go_range_def go_from_def)
  have len: "\<not> length (put_open p @ r) < 19" "\<not> length (put_open p @ r) < ?n" "\<not> ?n < 19"
    by (simp_all add: put_open_def)
  show ?thesis
    unfolding skip_open_def if_not_P [OF len(1)] rd be16_put_bytes Option.bind.bind_lunit n
    using len by (simp add: rd)
qed

text \<open>
  The table name of a Peer Up message is found behind the two OPEN messages, of any length,
  and among any other information TLVs: it is the value of the first TLV of type 3, and empty
  when there is none.
\<close>

theorem peer_up_table_name:
  assumes "length hdr = 42" and "length addrs = 20" and "length o1 < 65000" and "length o2 < 65000"
    and "\<forall>i \<in> set infos. ok_info i"
  shows "peerUpVRF (put_peer_up hdr addrs o1 o2 infos) = Some (table_name infos)"
proof -
  let ?q = "put_open o1 @ put_open o2 @ concat (map put_info infos)"
  have rd: "go_from (hdr @ addrs @ ?q) 42 = Some (addrs @ ?q)" "go_from (addrs @ ?q) 20 = Some ?q"
    using assms by (simp_all add: go_from_def)
  show ?thesis
    unfolding peerUpVRF_def put_peer_up_def
    using assms by (simp add: rd skip_put_open info_vrf_puts)
qed

theorem peer_up_table_name_witness:
  "peerUpVRF (put_peer_up (replicate 42 0) (replicate 20 0) [4] [] [(0, [1, 2]), (3, [99, 117]), (3, [])]) =
     Some ''cu''"
  using peer_up_table_name [of "replicate 42 0" "replicate 20 0" "[4]" "[]" "[(0, [1, 2]), (3, [99, 117]), (3, [])]"]
  by (simp add: ok_info_def table_name_def bytes_string_def char_of_def bit_Suc_0_iff)

text \<open>
  The body of a Peer Up or Peer Down for peer \<open>192.0.2.1\<close> in the VRF of RD \<open>65000:1\<close>,
  with no information TLVs.
\<close>

definition vrf_peer_body :: bytes where
  "vrf_peer_body = [1, 0] @ put_rd (RD0 65000 1) @ replicate 12 0 @ [192, 0, 2, 1] @ replicate 16 0"

lemma vrf_peer_body_peer:
  "perPeer vrf_peer_body = Some (Some ([192, 0, 2, 1], 0, 1, ''65000:1''))"
proof -
  have "formatRD (put_rd (RD0 65000 1)) = Some ''65000:1''"
    by (simp add: formatRD_put udec_def dec.simps digit_def)
  moreover have "\<not> allZero (put_rd (RD0 65000 1))"
    by (simp add: put_rd_def put_be16_def put_be32_def)
  ultimately show ?thesis
    by (simp add: perPeer_def vrf_peer_body_def go_index_def go_range_def nth_append eval_nat_numeral)
qed

lemma vrf_peer_body_state:
  assumes "b_rdVRF b ''65000:1'' = None"
  shows "peerState b env vrf_peer_body up =
    (let (vrf, b') = peer_vrf b env ''65000:1'' [] in
     Some (b', [CacheUpdate ''openconfig''
       [leafUpdate (neighborElems vrf ''192.0.2.1'' ''session-state'') (if up then ''ESTABLISHED'' else ''IDLE'')] []]))"
proof -
  have "ip_string [192, 0, 2, 1] = ''192.0.2.1''"
    by (simp add: ip_string_v4 dotted_def udec_def dec.simps digit_def)
  moreover have "peerUpVRF vrf_peer_body = Some []"
    by (simp add: peerUpVRF_def vrf_peer_body_def go_from_def)
  moreover have "\<not> is_unspecified [192, 0, 2, 1]" by (simp add: is_unspecified_def eval_nat_numeral)
  ultimately show ?thesis
    using assms by (simp add: peerState_def vrf_peer_body_peer Let_def)
qed

text \<open>
  The fallback name is not learned: a peer that comes up before its VRF device is known is
  filed under its distinguisher, and when it goes down after the device has appeared the
  collector writes IDLE under the device's name, so that the first instance shows the dead
  session as ESTABLISHED from then on.
\<close>

theorem fallback_strands_neighbor:
  assumes "b_rdVRF b ''65000:1'' = None" and "n \<noteq> []" and "n \<noteq> ''65000:1''"
    and "env 0 = (links, [])" and "env 1 = (links', [(table, n)])"
  shows "\<exists>b' es. foldM (\<lambda>s (ty, body). bmp_frame env s ty body) (b, 0, [])
      [(3, vrf_peer_body), (2, vrf_peer_body)] = Some (b', 2, es) \<and>
    tree_effects t es (''openconfig'', neighborElems ''65000:1'' ''192.0.2.1'' ''session-state'') =
      Some (StringVal ''ESTABLISHED'') \<and>
    tree_effects t es (''openconfig'', neighborElems n ''192.0.2.1'' ''session-state'') =
      Some (StringVal ''IDLE'')"
proof -
  have "peer_vrf b (links, []) ''65000:1'' [] = (''65000:1'', b\<lparr>b_vrf := Refresh links (b_vrf b)\<rparr>)"
    using assms(1) by (simp add: peer_vrf_def NonDefaultNames_def)
  then have up: "peerState b (env 0) vrf_peer_body True =
      Some (b\<lparr>b_vrf := Refresh links (b_vrf b)\<rparr>, [CacheUpdate ''openconfig''
        [leafUpdate (neighborElems ''65000:1'' ''192.0.2.1'' ''session-state'') ''ESTABLISHED''] []])"
    using assms by (simp add: vrf_peer_body_state)
  let ?b = "b\<lparr>b_vrf := Refresh links (b_vrf b)\<rparr>"
  obtain b' where "peer_vrf ?b (links', [(table, n)]) ''65000:1'' [] = (n, b')"
    using assms(1, 2) by (simp add: peer_vrf_def NonDefaultNames_def)
  then have down: "peerState ?b (env 1) vrf_peer_body False =
      Some (b', [CacheUpdate ''openconfig''
        [leafUpdate (neighborElems n ''192.0.2.1'' ''session-state'') ''IDLE''] []])"
    using assms by (simp add: vrf_peer_body_state)
  show ?thesis
    using up down assms(3) by (simp add: bmp_frame_def put_tree_ups neighborElems_def)
qed

theorem fallback_strands_neighbor_witness:
  "\<exists>b' es. foldM (\<lambda>s (ty, body). bmp_frame
      ((\<lambda>_. (Some [VrfLink 10 ''cust''], [(10, ''cust'')]))(0 := (Some [], []))) s ty body)
      (demo_bmp\<lparr>b_rdVRF := Map.empty\<rparr>, 0, []) [(3, vrf_peer_body), (2, vrf_peer_body)] = Some (b', 2, es) \<and>
    tree_effects Map.empty es (''openconfig'', neighborElems ''65000:1'' ''192.0.2.1'' ''session-state'') =
      Some (StringVal ''ESTABLISHED'') \<and>
    tree_effects Map.empty es (''openconfig'', neighborElems ''cust'' ''192.0.2.1'' ''session-state'') =
      Some (StringVal ''IDLE'')"
  by (rule fallback_strands_neighbor) simp_all

section \<open>EVPN routes\<close>

text \<open>
  The value of an IP-prefix route (type 5): distinguisher, ESI, Ethernet tag, prefix length,
  prefix, gateway and label; and of a MAC/IP advertisement (type 2).
\<close>

definition put_evpn5 :: "rd \<Rightarrow> bytes \<Rightarrow> byte \<Rightarrow> ip \<Rightarrow> ip \<Rightarrow> bytes \<Rightarrow> bytes" where
  "put_evpn5 r esi_tag plen a gw label = put_rd r @ esi_tag @ [plen] @ a @ gw @ label"

definition put_evpn2 :: "rd \<Rightarrow> bytes \<Rightarrow> bytes \<Rightarrow> ip \<Rightarrow> bytes \<Rightarrow> bytes" where
  "put_evpn2 r esi_tag mac a labels =
     put_rd r @ esi_tag @ [48] @ mac @ [word_of_nat (8 * length a)] @ a @ labels"

text \<open>
  An IP-prefix route of EVPN is filed under its prefix in both address families: the
  collector's guess of the family from the length of the route's value is right for every
  well-formed route, including IPv6 prefixes of at most 32 bits.
\<close>

theorem evpn_prefix_route:
  assumes "ok_rd r" and "length esi_tag = 14" and "length label = 3"
    and "(length a = 4 \<and> length gw = 4 \<and> unat plen \<le> 32) \<or> (length a = 16 \<and> length gw = 16)"
  shows "handleEVPN w peer 5 (put_evpn5 r esi_tag plen a gw label) nh rts withdraw =
    Some (writeEVPN w peer ''prefix'' (rd_text r) (cidr a (unat plen)) nh rts withdraw)"
proof -
  let ?v = "put_evpn5 r esi_tag plen a gw label"
  have rd: "go_range ?v 0 8 = Some (put_rd r)" "go_index ?v 22 = Some plen"
    "go_from ?v 23 = Some (a @ gw @ label)" "\<not> length ?v < 23"
    using assms by (auto simp: put_evpn5_def go_range_def go_index_def go_from_def nth_append)
  let ?k = "if 35 \<le> length (a @ gw @ label) \<or> 32 < unat plen then 16 else 4 :: nat"
  have k: "?k = length a" "go_range (a @ gw @ label) 0 ?k = Some a" "\<not> length (a @ gw @ label) < ?k"
    using assms by (auto simp: go_range_def)
  show ?thesis
    unfolding handleEVPN_def if_not_P [OF rd(4)] rd Option.bind.bind_lunit formatRD_put [OF assms(1)] Let_def
      k(1) using k by simp
qed

theorem evpn_prefix_route_witness:
  "handleEVPN all_wired [192, 0, 2, 1] 5 (put_evpn5 (RD0 65000 5) (replicate 14 0) 8 (253 # replicate 15 0) (replicate 16 0)
      [0, 0, 1]) [] [] False =
    Some (writeEVPN all_wired [192, 0, 2, 1] ''prefix'' (rd_text (RD0 65000 5)) (cidr (253 # replicate 15 0) (unat (8 :: byte)))
      [] [] False)"
  by (rule evpn_prefix_route) simp_all

text \<open>
  A MAC/IP advertisement is filed under its MAC address, followed by its IP address when it
  has one, IPv4 or IPv6, whatever labels follow.
\<close>

theorem evpn_mac_route:
  assumes "ok_rd r" and "length esi_tag = 14" and "length mac = 6" and "length a \<in> {0, 4, 16}"
  shows "handleEVPN w peer 2 (put_evpn2 r esi_tag mac a labels) nh rts withdraw =
    Some (writeEVPN w peer ''mac'' (rd_text r)
      (mac_string mac @ (if a = [] then [] else ''/'' @ ip_string a)) nh rts withdraw)"
proof -
  let ?v = "put_evpn2 r esi_tag mac a labels"
  have n: "unat (word_of_nat (8 * length a) :: byte) = 8 * length a"
    using assms by (intro unat_of_small8) auto
  have rd: "go_range ?v 0 8 = Some (put_rd r)" "go_range ?v 23 29 = Some mac"
    "go_index ?v 29 = Some (word_of_nat (8 * length a))" "\<not> length ?v < 30"
    "go_range ?v 30 (30 + length a) = Some a" "30 + length a \<le> length ?v"
    using assms by (auto simp: put_evpn2_def go_range_def go_index_def nth_append)
  show ?thesis
    unfolding handleEVPN_def if_not_P [OF rd(4)] rd(1-3) Option.bind.bind_lunit
      formatRD_put [OF assms(1)] Let_def n
    using assms(3) rd by (auto simp: formatMAC_def)
qed


theorem evpn_mac_route_witness:
  "handleEVPN all_wired [192, 0, 2, 1] 2 (put_evpn2 (RD0 65000 5) (replicate 14 0) [2, 0, 0, 0, 0, 1] [10, 0, 0, 7] [0, 0, 1]) [] [] True =
    Some (writeEVPN all_wired [192, 0, 2, 1] ''mac'' (rd_text (RD0 65000 5))
      (mac_string [2, 0, 0, 0, 0, 1] @ ''/'' @ ip_string [10, 0, 0, 7]) [] [] True)"
  using evpn_mac_route [of "RD0 65000 5" "replicate 14 0" "[2, 0, 0, 0, 0, 1]" "[10, 0, 0, 7]"] by simp

end
