(* ===== verification/ShimBgp.thy ===== *)
theory ShimBgp
  imports Shim BmpRoutes
begin

text \<open>
  bgpd's session inside the running shim: the BMP collector is a second interpretation of the
  contract of a collector, and the L3VPN subtree of the shim's tree is the RIB the session's
  messages describe, whatever the rest of the shim does.
\<close>

section \<open>The BMP collector\<close>

text \<open>The frames BMP connections have sent.\<close>

definition bmp_takes :: "label \<Rightarrow> (nat \<times> vrf_env \<times> byte \<times> bytes) list" where
  "bmp_takes l = (case l of BmpFrame c env ty body \<Rightarrow> [(c, env, ty, body)] | _ \<Rightarrow> [])"

definition bmp_reads :: "bmp \<Rightarrow> vrf_env \<times> byte \<times> bytes \<Rightarrow> (bmp \<times> effect list) option" where
  "bmp_reads b x =
     (case x of (env, ty, body) \<Rightarrow> map_option (\<lambda>(b', n, es). (b', es)) (bmp_frame (\<lambda>_. env) (b, 0, []) ty body))"

lemma bmp_takes_simps [simp]:
  "bmp_takes (Did g now e) = []" "bmp_takes (Accepted g now) = []"
  "bmp_takes (FpmFrame c links ty body) = []" "bmp_takes (BmpFrame c env ty body) = [(c, env, ty, body)]"
  "bmp_takes (RouteRead u) = []" "bmp_takes (DumpRead z) = []" "bmp_takes (OspfRead y) = []" "bmp_takes (Passed now xs) = []" "bmp_takes (Folded x) = []" "bmp_takes Tau = []"
  by (simp_all add: bmp_takes_def)

interpretation bmp_in: collector GBmp nd_bmp bmp_takes bmp_reads
proof
  fix s l s' k x xs
  assume "node_step s l s'" and "bmp_takes l = (k, x) # xs"
  then show "xs = [] \<and> (\<exists>es. nd_todo s (GBmp k) = [] \<and> bmp_reads (nd_bmp s) x = Some (nd_bmp s', es) \<and>
      nd_todo s' = (nd_todo s)(GBmp k := es) \<and> did_by (range GBmp) [l] = [])"
    by (elim step_cases) (auto simp: bmp_reads_def idle_def batch_def)
next
  fix s l s'
  assume "node_step s l s'" and "bmp_takes l = []" and "\<And>g now e. l \<noteq> Did g now e"
  then show "nd_bmp s' = nd_bmp s \<and> (\<forall>k. nd_todo s' (GBmp k) = nd_todo s (GBmp k))"
    by (elim step_cases) auto
qed simp_all

lemma bmp_goroutines: "{g. plane_of g = PBmp} = range GBmp"
proof -
  have "plane_of g = PBmp \<longleftrightarrow> g \<in> range GBmp" for g by (cases g) auto
  then show ?thesis by blast
qed

definition bmp_inputs :: "label list \<Rightarrow> (nat \<times> vrf_env \<times> byte \<times> bytes) list" where
  "bmp_inputs ls = concat (map bmp_takes ls)"

lemma bmp_inputs_simps [simp]:
  "bmp_inputs [] = []" "bmp_inputs (ls @ ks) = bmp_inputs ls @ bmp_inputs ks" "bmp_inputs [l] = bmp_takes l"
  by (simp_all add: bmp_inputs_def)

section \<open>The session\<close>

lemma bmp_next:
  assumes "ok_bmsg m"
  shows "\<exists>b' es. bmp_in.next_frame (b, out) (env, bmsg_type m, bmsg_body m) = Some (b', out @ es) \<and>
    (\<forall>t. rib_of (tree_effects t es) = rib_step (rib_of t) m)"
proof -
  obtain b' es where "bmp_frame (\<lambda>_. env) (b, 0, []) (bmsg_type m) (bmsg_body m) = Some (b', 1, es)"
    and rib: "\<forall>t. rib_of (tree_effects t es) = rib_step (rib_of t) m"
    using bmsg_frame [OF assms, of "\<lambda>_. env" b 0 "[]"] by auto
  then have "bmp_reads b (env, bmsg_type m, bmsg_body m) = Some (b', es)" by (simp add: bmp_reads_def)
  with rib show ?thesis by (auto simp: bmp_in.next_frame_def)
qed

lemma bmp_frames:
  "\<forall>m \<in> set ms. ok_bmsg m \<Longrightarrow>
   \<exists>b' es. foldM bmp_in.next_frame (b, out) (map (\<lambda>(i, m). (env i, bmsg_type m, bmsg_body m)) (enumerate k ms)) =
     Some (b', out @ es) \<and> (\<forall>t. rib_of (tree_effects t es) = foldl rib_step (rib_of t) ms)"
proof (induction ms arbitrary: b k out)
  case (Cons m ms)
  obtain b1 es1 where f: "bmp_in.next_frame (b, out) (env k, bmsg_type m, bmsg_body m) = Some (b1, out @ es1)"
    and r: "\<forall>t. rib_of (tree_effects t es1) = rib_step (rib_of t) m"
    using bmp_next [of m b out "env k"] Cons.prems by auto
  obtain b2 es2 where "foldM bmp_in.next_frame (b1, out @ es1)
      (map (\<lambda>(i, m). (env i, bmsg_type m, bmsg_body m)) (enumerate (Suc k) ms)) = Some (b2, (out @ es1) @ es2)"
    and "\<forall>t. rib_of (tree_effects t es2) = foldl rib_step (rib_of t) ms"
    using Cons.IH [of b1 "out @ es1" "Suc k"] Cons.prems by auto
  with f r show ?case by (intro exI [of _ b2] exI [of _ "es1 @ es2"]) simp
qed simp

lemma rib_plane: "rib_of t = rib_of t'"
  if "\<And>p. owner ''frr'' p = Some PBmp \<Longrightarrow> t (''frr'', p) = t' (''frr'', p)"
  using that by (auto simp: rib_of_def fun_eq_iff)

text \<open>
  C3. A bgpd session ends up in the tree of the running shim: when bgpd's connection has so far
  sent the frames of UPDATE messages with well-formed attributes (as in C9: any peer header, any
  other attributes, multiprotocol attributes of VPN-IPv4 or any other family) and of any other
  type, and its handler has performed what they entail, the L3VPN routes in the tree are exactly
  what the messages in their order make of them: each announcement sets its route's entry, each
  withdrawal with the bottom-of-stack bit removes it, and one without the bit removes nothing,
  or the entry the collector misreads it as, and may hide the rest of its message (C39).  This
  holds whatever zebra, the kernel, LLDP, OSPF, the sampler, the tracker and the
  correlator have been doing in between and whatever they were sent.
\<close>

theorem running_shim_rib:
  assumes "node_run (node_start target t0 fl bl su) ls s" and "\<forall>m \<in> set ms. ok_bmsg m"
    and "bmp_inputs ls = map (\<lambda>(i, m). (c, env i, bmsg_type m, bmsg_body m)) (enumerate 0 ms)"
    and "nd_todo s (GBmp c) = []"
  shows "rib_of (s_tree (nd_shim s)) = foldl rib_step (rib_of Map.empty) ms"
proof -
  let ?s0 = "node_start target t0 fl bl su"
  have start: "nd_todo ?s0 g = []" for g by (simp add: node_start_def)
  have "bmp_in.inputs ls = map (Pair c) (map (\<lambda>(i, m). (env i, bmsg_type m, bmsg_body m)) (enumerate 0 ms))"
    using assms(3) by (simp add: bmp_in.inputs_def bmp_inputs_def comp_def split_beta)
  from bmp_in.session_done [OF assms(1) this start assms(4), unfolded did_by_plane [OF bmp_goroutines]]
    bmp_frames [OF assms(2), of "nd_bmp ?s0" "[]" env 0]
  have "rib_of (tree_effects Map.empty (did PBmp ls)) = foldl rib_step (rib_of Map.empty) ms" by auto
  moreover
  have "rib_of (s_tree (nd_shim s)) = rib_of (tree_effects Map.empty (did PBmp ls))"
    by (rule rib_plane) (rule plane_region [OF assms(1)])
  ultimately show ?thesis by simp
qed

section \<open>Witness\<close>

text \<open>bgpd can connect and send any such session: the shim handles it to the end.\<close>

definition serving_bgpd :: "node \<Rightarrow> nat \<Rightarrow> node \<Rightarrow> label list \<Rightarrow> (nat \<Rightarrow> vrf_env) \<Rightarrow> bmsg list \<Rightarrow> bool" where
  "serving_bgpd s0 c s ls env ms \<longleftrightarrow>
     node_run s0 ls s \<and> idle s (GBmp c) \<and>
     bmp_inputs ls = map (\<lambda>(i, m). (c, env i, bmsg_type m, bmsg_body m)) (enumerate 0 ms)"

lemma bgpd_start: "\<exists>ls s. serving_bgpd (node_start target t0 fl bl su) c s ls env []"
proof -
  let ?s0 = "node_start target t0 fl bl su"
  have "node_step ?s0 (Accepted (GBmp c) t0)
      (on_shim (\<lambda>h. apply_effect t0 h (KickOSPF ''bmp-reconnect'')) (?s0\<lparr>nd_on := insert (GBmp c) (nd_on ?s0)\<rparr>))"
    by (intro node_step.by_bmp bmp_step.bmp_accept) (auto simp: node_start_def start_on_def NewBMP_def all_wired_def)
  from run_snoc [OF run_nil this] show ?thesis
    by (intro exI conjI) (auto simp: serving_bgpd_def idle_def node_start_def)
qed

lemma bgpd_snoc:
  assumes "serving_bgpd s0 c s ls env ms" and "ok_bmsg m"
  shows "\<exists>ks s'. serving_bgpd s0 c s' (ls @ ks) env (ms @ [m])"
proof -
  let ?env = "env (length ms)"
  obtain b es where fr: "bmp_frame (\<lambda>_. ?env) (nd_bmp s, 0, []) (bmsg_type m) (bmsg_body m) = Some (b, 1, es)"
    using bmsg_frame [OF assms(2), of "\<lambda>_. ?env" "nd_bmp s" 0 "[]"] by auto
  have len: "length (bmsg_body m) + 6 < 2 ^ 32" using ok_bmsg_frame [OF assms(2)] by (simp add: ok_bmp_def)
  have idle: "idle s (GBmp c)" and run: "node_run s0 ls s"
    and inputs: "bmp_inputs ls = map (\<lambda>(i, m). (c, env i, bmsg_type m, bmsg_body m)) (enumerate 0 ms)"
    using assms(1) by (simp_all add: serving_bgpd_def)
  let ?ks = "BmpFrame c ?env (bmsg_type m) (bmsg_body m) # map (Did (GBmp c) 0) es"
  obtain s' where s': "node_run s0 (ls @ ?ks) s'" "idle s' (GBmp c)"
    using frame_served [OF run node_step.by_bmp [OF bmp_step.bmp_read [OF idle len fr]]] idle
    by (auto simp: idle_def)
  have "bmp_inputs ?ks = [(c, ?env, bmsg_type m, bmsg_body m)]" by (simp add: bmp_inputs_def comp_def)
  then have "bmp_inputs (ls @ ?ks) = map (\<lambda>(i, m). (c, env i, bmsg_type m, bmsg_body m)) (enumerate 0 (ms @ [m]))"
    unfolding bmp_inputs_simps(2) inputs by (simp add: enumerate_append_eq)
  with s' have "serving_bgpd s0 c s' (ls @ ?ks) env (ms @ [m])" unfolding serving_bgpd_def by blast
  then show ?thesis by blast
qed

lemma bgpd_run:
  "\<forall>m \<in> set ms. ok_bmsg m \<Longrightarrow> \<exists>ls s. serving_bgpd (node_start target t0 fl bl su) c s ls env ms"
proof (induction ms rule: rev_induct)
  case Nil
  show ?case by (rule bgpd_start)
next
  case (snoc m ms)
  then show ?case using bgpd_snoc by fastforce
qed

text \<open>The session that announces one route and keeps it.\<close>

definition demo_announce :: "bmsg list" where
  "demo_announce = [BOther 4 [], announce [192, 0, 2, 9] [demo_vpn]]"

lemma rib_announced:
  "rib_announce peer nh rts rib r (vpn_key r) ''label'' = Some (StringVal (udec (last (vr_labels r))))"
  by (simp add: rib_announce_def)

lemma demo_rib:
  "foldl rib_step (rib_of Map.empty) demo_announce (vpn_key demo_vpn) ''label'' = Some (StringVal (udec (80 :: 32 word)))"
proof -
  have "last (vr_labels demo_vpn) = 80" by (simp add: demo_vpn_def)
  then show ?thesis
    by (simp add: demo_announce_def announce_def rib_reach_def rib_unreach_def rib_announced)
qed

theorem running_shim_rib_witness:
  "\<exists>ls s. node_run demo_node ls s \<and>
     rib_of (s_tree (nd_shim s)) (vpn_key demo_vpn) ''label'' = Some (StringVal (udec (80 :: 32 word)))"
proof -
  have "set demo_announce \<subseteq> set demo_bgp" unfolding demo_announce_def demo_bgp_def by auto
  with demo_bgp_ok have ok: "\<forall>m \<in> set demo_announce. ok_bmsg m" by blast
  obtain ls s where "serving_bgpd demo_node 0 s ls (\<lambda>_. (Some [], [])) demo_announce" using bgpd_run [OF ok] by blast
  then have run: "node_run demo_node ls s" and todo: "nd_todo s (GBmp 0) = []"
    and inputs: "bmp_inputs ls = map (\<lambda>(i, m). (0, (Some [], []), bmsg_type m, bmsg_body m)) (enumerate 0 demo_announce)"
    unfolding serving_bgpd_def idle_def by blast+
  from demo_rib have "rib_of (s_tree (nd_shim s)) (vpn_key demo_vpn) ''label'' = Some (StringVal (udec (80 :: 32 word)))"
    unfolding running_shim_rib [OF run ok inputs todo] .
  with run show ?thesis by blast
qed

end
