(* ===== verification/ShimLoops.thy ===== *)
theory ShimLoops
  imports Shim
begin

text \<open>
  Two single goroutines of the running shim as collectors: the loop over the kernel's route
  updates and the OSPF worker; and the paths of a plane that one of its goroutines alone
  writes.  Whatever the others do, the kernel's FIB in the tree is what the last update about
  each route said, and the OSPF neighbours are those of the last reading.
\<close>

section \<open>The kernel's routes\<close>

definition route_takes :: "label \<Rightarrow> (unit \<times> route_update) list" where
  "route_takes l = (case l of RouteRead u \<Rightarrow> [((), u)] | _ \<Rightarrow> [])"

definition route_reads :: "unit \<Rightarrow> route_update \<Rightarrow> (unit \<times> effect list) option" where
  "route_reads s u = Some ((), route_event netlink_wired u)"

lemma route_takes_simps [simp]:
  "route_takes (Did g now e) = []" "route_takes (Accepted g now) = []" "route_takes (FpmFrame c links ty body) = []"
  "route_takes (BmpFrame c env ty body) = []" "route_takes (RouteRead u) = [((), u)]" "route_takes (DumpRead z) = []" "route_takes (OspfRead y) = []"
  "route_takes (Passed now xs) = []" "route_takes (Folded x) = []" "route_takes Tau = []"
  by (simp_all add: route_takes_def)

interpretation route_in: collector "\<lambda>_. GRoute" "\<lambda>_. ()" route_takes route_reads
proof
  fix s l s' k x xs
  assume "node_step s l s'" and "route_takes l = (k, x) # xs"
  then show "xs = [] \<and> (\<exists>es. nd_todo s GRoute = [] \<and> route_reads () x = Some ((), es) \<and>
      nd_todo s' = (nd_todo s)(GRoute := es) \<and> did_by (range (\<lambda>_ :: unit. GRoute)) [l] = [])"
    by (elim step_cases) (auto simp: route_reads_def idle_def batch_def)
next
  fix s l s'
  assume "node_step s l s'" and "route_takes l = []" and "\<And>g now e. l \<noteq> Did g now e"
  then show "() = () \<and> (\<forall>k :: unit. nd_todo s' GRoute = nd_todo s GRoute)"
    by (elim step_cases) auto
qed simp_all

text \<open>The updates the loop has received.\<close>

definition route_inputs :: "label list \<Rightarrow> route_update list" where
  "route_inputs ls = map snd (concat (map route_takes ls))"

lemma route_frames: "foldM route_in.next_frame ((), out) us = Some ((), out @ routeLoop netlink_wired us)"
proof (induction us arbitrary: out)
  case (Cons u us)
  have "route_in.next_frame ((), out) u = Some ((), out @ route_event netlink_wired u)"
    unfolding route_in.next_frame_def by (simp add: route_reads_def)
  with Cons.IH show ?case by (simp add: routeLoop_def)
qed (simp add: routeLoop_def)

lemma route_loop_did:
  assumes "node_run (node_start target t0 fl bl su) ls s" and "nd_todo s GRoute = []"
  shows "did_by {GRoute} ls = routeLoop netlink_wired (route_inputs ls)"
proof -
  have start: "nd_todo (node_start target t0 fl bl su) g = []" for g by (simp add: node_start_def)
  have "map (Pair ()) (map snd xs) = xs" for xs :: "(unit \<times> route_update) list" by (induction xs) auto
  then have "route_in.inputs ls = map (Pair ()) (route_inputs ls)"
    by (simp only: route_in.inputs_def route_inputs_def)
  from route_in.session_done [OF assms(1) this start assms(2)] show ?thesis by (simp add: route_frames)
qed

text \<open>
  Some paths of the netlink plane have one goroutine that writes them, although the plane has
  four.  The others spare them: no update of theirs has such a path, no delete covers one.
\<close>

fun spares :: "(path_elem list \<Rightarrow> bool) \<Rightarrow> effect \<Rightarrow> bool" where
  "spares R (CacheUpdate org ups dels) \<longleftrightarrow>
     org \<noteq> ''frr'' \<or> (\<forall>u \<in> set ups. \<not> R (gp_elem (u_path u))) \<and> (\<forall>d \<in> set dels. \<forall>p. R p \<longrightarrow> \<not> below (gp_elem d) p)"
| "spares R _ \<longleftrightarrow> True"

lemma spares_keeps:
  assumes "spares R e" and "R p"
  shows "tree_effect t e (''frr'', p) = t (''frr'', p)"
proof (cases e)
  case (CacheUpdate org ups dels)
  show ?thesis
  proof (cases "org = ''frr''")
    case True
    with assms CacheUpdate have "put_tree org ups dels t (''frr'', p) = t (''frr'', p)"
      by (intro put_tree_unchanged) auto
    with CacheUpdate show ?thesis by simp
  next
    case False
    with CacheUpdate show ?thesis by (simp add: put_tree_other_origin)
  qed
qed simp_all

definition todo_spares :: "goroutine \<Rightarrow> (path_elem list \<Rightarrow> bool) \<Rightarrow> node \<Rightarrow> bool" where
  "todo_spares g0 R s \<longleftrightarrow> (\<forall>g. plane_of g = PNetlink \<and> g \<noteq> g0 \<longrightarrow> (\<forall>e \<in> set (nd_todo s g). spares R e))"

locale sole_writer =
  fixes g0 :: goroutine and R :: "path_elem list \<Rightarrow> bool"
  assumes writer_plane: "plane_of g0 = PNetlink"
    and region: "R p \<Longrightarrow> owner ''frr'' p = Some PNetlink"
    and others_spare: "node_step s l s' \<Longrightarrow> todo_spares g0 R s \<Longrightarrow> todo_spares g0 R s'"
begin

lemma effect_region:
  assumes "node_step s (Did g now e) s'" and "todo_typed s" and "todo_spares g0 R s" and "R p" and "g \<noteq> g0"
  shows "tree_effect t e (''frr'', p) = t (''frr'', p)"
proof (cases "plane_of g = PNetlink")
  case True
  from assms(1) obtain es where "nd_todo s g = e # es"
    by (cases rule: node_step.cases) (auto elim: step_cases(2-))
  with True assms(3, 5) have "spares R e" unfolding todo_spares_def by fastforce
  then show ?thesis using assms(4) by (rule spares_keeps)
next
  case False
  show ?thesis by (rule typed_effect_frame [OF did_typed [OF assms(1, 2)]]) (use False region [OF assms(4)] in auto)
qed

lemma writer_region:
  assumes "node_run (node_start target t0 fl bl su) ls s" and "R p"
  shows "s_tree (nd_shim s) (''frr'', p) = tree_effects Map.empty (did_by {g0} ls) (''frr'', p)"
proof -
  have "todo_typed s \<and> todo_spares g0 R s \<and>
      s_tree (nd_shim s) (''frr'', p) = tree_effects Map.empty (did_by {g0} ls) (''frr'', p)"
    using assms(1)
  proof (induction rule: node_run.induct)
    case run_nil
    show ?case using todo_typed_start [of target t0 fl bl su] by (simp add: todo_spares_def node_start_def shim_start_def)
  next
    case (run_snoc ls s l s')
    then have inv: "todo_typed s" "todo_spares g0 R s"
      and IH: "s_tree (nd_shim s) (''frr'', p) = tree_effects Map.empty (did_by {g0} ls) (''frr'', p)" by simp_all
    have "tree_label l (s_tree (nd_shim s)) (''frr'', p) = tree_effects Map.empty (did_by {g0} (ls @ [l])) (''frr'', p)"
    proof (cases l)
      case (Did g now e)
      show ?thesis
      proof (cases "g = g0")
        case True
        have "tree_effect (s_tree (nd_shim s)) e (''frr'', p) = tree_effect (tree_effects Map.empty (did_by {g0} ls)) e (''frr'', p)"
          by (rule tree_effect_local) (rule IH)
        with True show ?thesis by (simp add: Did tree_label_def)
      next
        case False
        with effect_region [OF run_snoc.hyps(2) [unfolded Did] inv assms(2)] IH show ?thesis
          by (simp add: Did tree_label_def)
      qed
    qed (simp_all add: tree_label_def IH)
    with step_tree [OF run_snoc.hyps(2)] todo_typed_step [OF run_snoc.hyps(2) inv(1)]
      others_spare [OF run_snoc.hyps(2) inv(2)] show ?case by simp
  qed
  then show ?thesis by blast
qed

end

text \<open>What the handlers of the netlink plane leave alone.\<close>

lemma spares_elsewhere:
  "e \<in> set (link_event w x) \<Longrightarrow> spares R e"
  "e \<in> set (neigh_event bi y) \<Longrightarrow> spares R e"
  "e \<in> set (sampleCounters links) \<Longrightarrow> spares R e"
  "e \<in> set (snapshotAddrs as links) \<Longrightarrow> spares R e"
  "e \<in> set (snapshotFDB bi ns) \<Longrightarrow> spares R e"
  "e \<in> set (writeLinkState lk) \<Longrightarrow> spares R e"
  by (auto simp: link_event_def writeLinkState_def emit_if_def neigh_event_def fdb_write_def sampleCounters_def
      snapshotAddrs_def addr_write_def snapshotFDB_def Let_def split: prod.splits if_splits option.splits)

lemma spares_mpls:
  assumes "\<And>l leaf. \<not> R (mplsElems l leaf)"
  shows "e \<in> set (snapshotMPLS bi rs) \<Longrightarrow> spares R e"
  using assms by (auto simp: snapshotMPLS_def mpls_write_def Let_def split: option.splits)

lemma spares_dumps:
  assumes "\<And>l leaf. \<not> R (mplsElems l leaf)"
  shows "e \<in> set (counter_tick d) \<Longrightarrow> spares R e" and "e \<in> set (snapshot d) \<Longrightarrow> spares R e"
  using spares_mpls [where R = R, OF assms] spares_elsewhere [where R = R] unfolding counter_tick_def snapshot_def
  by (auto split: option.splits)

definition is_kroute :: "path_elem list \<Rightarrow> bool" where
  "is_kroute p \<longleftrightarrow> (\<exists>pfx tb leaf. p = routeElems pfx tb leaf)"

lemma mpls_not_kroute: "\<not> is_kroute (mplsElems l leaf)"
  by (simp add: is_kroute_def mplsElems_def routeElems_def with_leaf_def)

interpretation kroutes: sole_writer GRoute is_kroute
proof
  show "owner ''frr'' p = Some PNetlink" if "is_kroute p" for p using that by (auto simp: is_kroute_def)
  show "todo_spares GRoute is_kroute s'" if "node_step s l s'" "todo_spares GRoute is_kroute s" for s l s'
    using that by (elim step_cases)
      (auto simp: todo_spares_def spares_elsewhere spares_dumps [where R = is_kroute, OF mpls_not_kroute])
qed simp

text \<open>
  C4. The kernel's routes end up in the tree of the running shim: once the updates the kernel has
  sent so far are handled, the tree holds for each prefix and table what the last update about
  it said, and nothing when there was none or it was a deletion, whatever the link and
  neighbour loops, the samples, zebra, bgpd and the rest of the shim have been doing in between.
\<close>

theorem running_shim_kernel_fib:
  assumes "node_run (node_start target t0 fl bl su) ls s" and "nd_todo s GRoute = []"
    and "l \<in> {''next-hop'', ''protocol''}"
  shows "s_tree (nd_shim s) (''frr'', routeElems p tb l) =
    (case find (about_route p tb) (rev (route_inputs ls)) of None \<Rightarrow> None | Some u \<Rightarrow> route_leaf u l)"
proof -
  have "is_kroute (routeElems p tb l)" by (auto simp: is_kroute_def)
  from kroutes.writer_region [OF assms(1) this] show ?thesis
    by (simp add: route_loop_did [OF assms(1, 2)] kernel_fib_is_last_update [OF assms(3)] split: option.split)
qed

section \<open>OSPF\<close>

definition ospf_takes :: "label \<Rightarrow> (unit \<times> ospf_input) list" where
  "ospf_takes l = (case l of OspfRead x \<Rightarrow> [((), x)] | _ \<Rightarrow> [])"

definition ospf_reads :: "ospf \<Rightarrow> ospf_input \<Rightarrow> (ospf \<times> effect list) option" where
  "ospf_reads s x = Some (ospf_reconcile s x)"

lemma ospf_takes_simps [simp]:
  "ospf_takes (Did g now e) = []" "ospf_takes (Accepted g now) = []" "ospf_takes (FpmFrame c links ty body) = []"
  "ospf_takes (BmpFrame c env ty body) = []" "ospf_takes (RouteRead u) = []" "ospf_takes (DumpRead z) = []" "ospf_takes (OspfRead y) = [((), y)]"
  "ospf_takes (Passed now xs) = []" "ospf_takes (Folded x) = []" "ospf_takes Tau = []"
  by (simp_all add: ospf_takes_def)

interpretation ospf_in: collector "\<lambda>_. GOspf" nd_ospf ospf_takes ospf_reads
proof
  fix s l s' k x xs
  assume "node_step s l s'" and "ospf_takes l = (k, x) # xs"
  then show "xs = [] \<and> (\<exists>es. nd_todo s GOspf = [] \<and> ospf_reads (nd_ospf s) x = Some (nd_ospf s', es) \<and>
      nd_todo s' = (nd_todo s)(GOspf := es) \<and> did_by (range (\<lambda>_ :: unit. GOspf)) [l] = [])"
    by (elim step_cases) (auto simp: ospf_reads_def idle_def batch_def)
next
  fix s l s'
  assume "node_step s l s'" and "ospf_takes l = []" and "\<And>g now e. l \<noteq> Did g now e"
  then show "nd_ospf s' = nd_ospf s \<and> (\<forall>k :: unit. nd_todo s' GOspf = nd_todo s GOspf)"
    by (elim step_cases) auto
qed simp_all

text \<open>The readings the worker has made.\<close>

definition ospf_inputs :: "label list \<Rightarrow> ospf_input list" where
  "ospf_inputs ls = map snd (concat (map ospf_takes ls))"

lemma ospf_frames:
  "foldM ospf_in.next_frame (o0, out) xs = Some (o', out') \<Longrightarrow>
   foldl ospf_round (o0, tree_effects t out) xs = (o', tree_effects t out')"
proof (induction xs arbitrary: o0 out)
  case (Cons x xs)
  obtain o1 es where x: "ospf_reconcile o0 x = (o1, es)" by (rule prod.exhaust)
  have "ospf_in.next_frame (o0, out) x = Some (o1, out @ es)"
    unfolding ospf_in.next_frame_def by (simp add: ospf_reads_def x)
  with Cons.prems have "foldM ospf_in.next_frame (o1, out @ es) xs = Some (o', out')" by simp
  from Cons.IH [OF this] show ?case by (simp add: ospf_round_def round_step_def x)
qed simp

lemma ospf_goroutine: "{g. plane_of g = POspf} = {GOspf}"
proof -
  have "plane_of g = POspf \<longleftrightarrow> g = GOspf" for g by (cases g) simp_all
  then show ?thesis by blast
qed

text \<open>
  C15. The OSPF neighbours in the tree of the running shim are those of the last successful
  reading: once its worker has applied the readings it has made, and no router has changed its
  interface between them, the neighbours and their leaves are exactly those of the last one,
  when it succeeded, whatever triggered the readings and whatever the rest of the shim did.
\<close>

theorem running_shim_ospf:
  assumes "node_run (node_start target t0 fl bl su) ls s" and "nd_todo s GOspf = []"
    and "ospf_inputs ls = xs @ [(Some out, cur, old)]" and "ospf_run_ok (NewOSPF ospf_wired, Map.empty) (ospf_inputs ls)"
  shows "s_tree (nd_shim s) (''openconfig'', ospfNbrElems iface rid l) =
    (case parseOSPFNbrs out rid of
       Some n \<Rightarrow> if on_iface n = iface then adj_leaves n l else None
     | None \<Rightarrow> None)"
proof -
  let ?s0 = "node_start target t0 fl bl su"
  have start: "nd_todo ?s0 g = []" "nd_ospf ?s0 = NewOSPF ospf_wired" for g by (simp_all add: node_start_def)
  have "map (Pair ()) (map snd ys) = ys" for ys :: "(unit \<times> ospf_input) list" by (induction ys) auto
  then have "ospf_in.inputs ls = map (Pair ()) (ospf_inputs ls)" by (simp only: ospf_in.inputs_def ospf_inputs_def)
  from ospf_in.session_done [OF assms(1) this start(1) assms(2)]
  have "foldM ospf_in.next_frame (NewOSPF ospf_wired, []) (ospf_inputs ls) = Some (nd_ospf s, did POspf ls)"
    by (simp add: start(2) did_by_plane [OF ospf_goroutine])
  from ospf_frames [OF this, of Map.empty]
  have "snd (foldl ospf_round (NewOSPF ospf_wired, Map.empty) (ospf_inputs ls)) = tree_effects Map.empty (did POspf ls)"
    by simp
  moreover have "s_tree (nd_shim s) (''openconfig'', ospfNbrElems iface rid l) =
      tree_effects Map.empty (did POspf ls) (''openconfig'', ospfNbrElems iface rid l)"
    by (rule plane_region [OF assms(1)]) simp
  ultimately show ?thesis
    using ospf_tree_is_last_reading [of ospf_wired Map.empty xs "(Some out, cur, old)" out iface rid l] assms(4)
    by (simp add: assms(3))
qed

section \<open>Witnesses\<close>

theorem running_shim_kernel_fib_witness:
  "\<exists>ls s. node_run demo_node ls s \<and>
     s_tree (nd_shim s) (''frr'', routeElems ''0.0.0.0/0'' ''254'' ''protocol'') = Some (StringVal ''zebra'')"
proof -
  let ?u = "demo_kroute 24 254"
  let ?ls = "RouteRead ?u # map (Did GRoute 0) (route_event netlink_wired ?u)"
  obtain s where run: "node_run demo_node ?ls s" and todo: "nd_todo s GRoute = []"
    using kernel_reports unfolding idle_def by blast
  have "route_inputs ?ls = [?u]" by (simp add: route_inputs_def comp_def)
  moreover have "about_route ''0.0.0.0/0'' ''254'' ?u" "route_leaf ?u ''protocol'' = Some (StringVal ''zebra'')"
    by (simp_all add: demo_kroute_def about_route_def routePrefix_def route_leaf_def routeProto_def sdec_def dec.simps digit_def)
  moreover have "s_tree (nd_shim s) (''frr'', routeElems ''0.0.0.0/0'' ''254'' ''protocol'') =
      (case find (about_route ''0.0.0.0/0'' ''254'') (rev (route_inputs ?ls)) of
         None \<Rightarrow> None | Some u \<Rightarrow> route_leaf u ''protocol'')"
    by (rule running_shim_kernel_fib [OF run todo]) simp
  ultimately have "s_tree (nd_shim s) (''frr'', routeElems ''0.0.0.0/0'' ''254'' ''protocol'') = Some (StringVal ''zebra'')"
    by simp
  with run show ?thesis by blast
qed

theorem running_shim_ospf_witness:
  "\<exists>ls s. node_run demo_node ls s \<and>
     s_tree (nd_shim s) (''openconfig'', ospfNbrElems ''eth0'' ''1.1.1.1'' ''adjacency-state'') = Some (StringVal ''FULL'')"
proof -
  let ?x = "ospf_input1 ''1.1.1.1'' ''eth0'' ''Full/DR'' []"
  let ?out = "Some (ospf_doc1 ''1.1.1.1'' ''eth0'' ''Full/DR'')"
  have start: "nd_ospf demo_node = NewOSPF ospf_wired" "nd_worker demo_node = Settling" by (simp_all add: node_start_def)
  have ok: "ospf_ok (NewOSPF ospf_wired) ?x" by (rule ospf_ok_input1) (simp_all add: enumerates_def NewOSPF_def)
  obtain o' es where x: "ospf_reconcile (nd_ospf demo_node) ?x = (o', es)" by (rule prod.exhaust)
  have idle: "idle demo_node GOspf" by (simp add: idle_def node_start_def start_on_def)
  have "ospf_ok (nd_ospf demo_node) ?x" unfolding start by (rule ok)
  from frame_served [OF run_nil by_ospf [OF o_read [OF idle start(2) this x]]] idle
  obtain s where run: "node_run demo_node ([] @ OspfRead ?x # map (Did GOspf 0) es) s" and todo: "nd_todo s GOspf = []"
    unfolding idle_def by auto
  have one: "ospf_inputs ([] @ OspfRead ?x # map (Did GOspf 0) es) = [?x]" by (simp add: ospf_inputs_def comp_def)
  then have inputs: "ospf_inputs ([] @ OspfRead ?x # map (Did GOspf 0) es) =
      [] @ [(Some ?out, [(''1.1.1.1'', \<lparr>on_iface = ''eth0'', on_addr = ''10.0.0.1'', on_state = ''Full/DR''\<rparr>)], [])]"
    by (simp add: ospf_input1_def)
  have stable: "ospf_run_ok (NewOSPF ospf_wired, Map.empty) (ospf_inputs ([] @ OspfRead ?x # map (Did GOspf 0) es))"
    unfolding one ospf_run_ok_def using ok by (simp add: stable_ids_def NewOSPF_def split: option.split)
  have "s_tree (nd_shim s) (''openconfig'', ospfNbrElems ''eth0'' ''1.1.1.1'' ''adjacency-state'') = Some (StringVal ''FULL'')"
    unfolding running_shim_ospf [OF run todo inputs stable]
    by (simp add: parse_ospf_doc1 adj_leaves_def adjState_def split_n2_def)
  with run show ?thesis by blast
qed

end
