(* ===== verification/GnmiServer.thy ===== *)
theory GnmiServer
  imports GnmiTree Wire
begin

text \<open>
  \<^verbatim>\<open>internal/gnmiserver/server.go\<close>: the server over the cache, the target default of
  Subscribe, Capabilities and Get.  The OpenConfig library's subscribe server, its
  \<^verbatim>\<open>path.CompletePath\<close> and its \<^verbatim>\<open>cache.Query\<close> are parameters:
  \<open>complete\<close> returns the query or an error text, \<open>query\<close> the values it visits in
  order and the error it ends with, if any.
\<close>

section \<open>The server\<close>

text \<open>
  \<^verbatim>\<open>subscribe.NewServer\<close> returns the library's server or an error,
  \<^verbatim>\<open>SetClient\<close> hands the cache the consumer of its changes.
\<close>

record ('s, 'c) server =
  sv_Server :: 's
  sv_cache :: "'c cache"

definition server_New ::
  "('c \<Rightarrow> 's + string) \<Rightarrow> ('c \<Rightarrow> 's \<Rightarrow> 'c) \<Rightarrow> 'c cache \<Rightarrow> ('s, 'c) server + string" where
  "server_New new_server set_client c =
     (case new_server (ca_c c) of
        Inr err \<Rightarrow> Inr err
      | Inl sub \<Rightarrow> Inl \<lparr>sv_Server = sub, sv_cache = c\<lparr>ca_c := set_client (ca_c c) sub\<rparr>\<rparr>)"

section \<open>Subscribe\<close>

text \<open>A request's oneof: a subscription list (its prefix and the rest) or another request.\<close>

datatype ('r, 'o) sub_request =
    SubscriptionList "gpath option" 'r
  | OtherRequest 'o

text \<open>\<^verbatim>\<open>Recv\<close> of the wrapped stream: a request or an error, passed through.\<close>

definition Recv_default ::
  "string \<Rightarrow> ('r, 'o) sub_request + 'e \<Rightarrow> ('r, 'o) sub_request + 'e" where
  "Recv_default target res =
     (case res of
        Inr err \<Rightarrow> Inr err
      | Inl (OtherRequest q) \<Rightarrow> Inl (OtherRequest q)
      | Inl (SubscriptionList prefix rest) \<Rightarrow>
          let p = (case prefix of None \<Rightarrow> path_of [] | Some p \<Rightarrow> p) in
          Inl (SubscriptionList (Some (if gp_target p = [] then p\<lparr>gp_target := target\<rparr> else p)) rest))"

text \<open>
  A stream is what its \<^verbatim>\<open>Recv\<close> returns, call by call; the library serves the wrapped
  one.
\<close>

definition Subscribe ::
  "('s \<Rightarrow> (nat \<Rightarrow> ('r, 'o) sub_request + 'e) \<Rightarrow> 'a) \<Rightarrow> ('s, 'c) server \<Rightarrow>
   (nat \<Rightarrow> ('r, 'o) sub_request + 'e) \<Rightarrow> 'a" where
  "Subscribe library s stream = library (sv_Server s) (\<lambda>i. Recv_default (ca_target (sv_cache s)) (stream i))"

section \<open>Capabilities\<close>

record model_data =
  md_name :: string
  md_organization :: string
  md_version :: string

datatype encoding = JSON | BYTES | PROTO | ASCII | JSON_IETF

record capabilities =
  cp_version :: string
  cp_models :: "model_data list"
  cp_encodings :: "encoding list"

definition model :: "string \<Rightarrow> string \<Rightarrow> string \<Rightarrow> model_data" where
  "model n org v = \<lparr>md_name = n, md_organization = org, md_version = v\<rparr>"

definition Capabilities :: capabilities where
  "Capabilities =
     \<lparr>cp_version = ''0.10.0'',
      cp_models =
        [model ''openconfig-interfaces'' ''OpenConfig'' [],
         model ''openconfig-network-instance'' ''OpenConfig'' [],
         model ''openconfig-lldp'' ''OpenConfig'' [],
         model ''frr'' ''frr-visible'' ''0.1.0'',
         model ''host'' ''frr-visible'' ''0.1.0''],
      cp_encodings = [JSON_IETF, PROTO]\<rparr>"

section \<open>Get\<close>

datatype get_error = InvalidArgument string | NotFound string

text \<open>What a query visits: a notification or a value of another type.\<close>

datatype 'v leaf = NotifLeaf notification | OtherLeaf 'v

definition notifs_of :: "'v leaf list \<Rightarrow> notification list" where
  "notifs_of vs = concat (map (\<lambda>v. case v of NotifLeaf n \<Rightarrow> [n] | OtherLeaf _ \<Rightarrow> []) vs)"

fun get_loop ::
  "(gpath option \<Rightarrow> gpath \<Rightarrow> 'q + string) \<Rightarrow> (string \<Rightarrow> 'q \<Rightarrow> 'v leaf list \<times> string option) \<Rightarrow>
   string \<Rightarrow> gpath option \<Rightarrow> gpath list \<Rightarrow> notification list \<Rightarrow> notification list + get_error" where
  "get_loop complete query target prefix [] notifs = Inl notifs"
| "get_loop complete query target prefix (p # ps) notifs =
     (case complete prefix p of
        Inr err \<Rightarrow> Inr (InvalidArgument err)
      | Inl q \<Rightarrow>
          (case query target q of
             (vs, Some err) \<Rightarrow> Inr (NotFound err)
           | (vs, None) \<Rightarrow> get_loop complete query target prefix ps (notifs @ notifs_of vs)))"

definition Get ::
  "(gpath option \<Rightarrow> gpath \<Rightarrow> 'q + string) \<Rightarrow> (string \<Rightarrow> 'q \<Rightarrow> 'v leaf list \<times> string option) \<Rightarrow>
   string \<Rightarrow> gpath option \<Rightarrow> gpath list \<Rightarrow> notification list + get_error" where
  "Get complete query cache_target prefix paths =
     (let target = (case prefix of None \<Rightarrow> [] | Some p \<Rightarrow> gp_target p);
          target = (if target = [] then cache_target else target);
          paths = (if paths = [] then [path_of []] else paths) in
      get_loop complete query target prefix paths [])"

section \<open>Properties\<close>

text \<open>One path's part of the answer, or its error.\<close>

definition get_one ::
  "(gpath option \<Rightarrow> gpath \<Rightarrow> 'q + string) \<Rightarrow> (string \<Rightarrow> 'q \<Rightarrow> 'v leaf list \<times> string option) \<Rightarrow>
   string \<Rightarrow> gpath option \<Rightarrow> gpath \<Rightarrow> notification list + get_error" where
  "get_one complete query target prefix p =
     (case complete prefix p of
        Inr err \<Rightarrow> Inr (InvalidArgument err)
      | Inl q \<Rightarrow> (case query target q of (vs, Some err) \<Rightarrow> Inr (NotFound err) | (vs, None) \<Rightarrow> Inl (notifs_of vs)))"

definition get_target :: "string \<Rightarrow> gpath option \<Rightarrow> string" where
  "get_target cache_target prefix =
     (case prefix of
        Some p \<Rightarrow> if gp_target p = [] then cache_target else gp_target p
      | None \<Rightarrow> cache_target)"

text \<open>All parts in order, or the first error.\<close>

fun gather :: "('a list + 'e) list \<Rightarrow> 'a list + 'e" where
  "gather [] = Inl []"
| "gather (Inr e # xs) = Inr e"
| "gather (Inl a # xs) = (case gather xs of Inr e \<Rightarrow> Inr e | Inl b \<Rightarrow> Inl (a @ b))"

lemma get_loop_gather:
  "get_loop complete query target prefix ps notifs =
     (case gather (map (get_one complete query target prefix) ps) of
        Inr e \<Rightarrow> Inr e | Inl ns \<Rightarrow> Inl (notifs @ ns))"
proof (induction ps arbitrary: notifs)
  case (Cons p ps)
  show ?case
  proof (cases "complete prefix p")
    case (Inl q)
    obtain vs err where q: "query target q = (vs, err)" by fastforce
    show ?thesis
    proof (cases err)
      case None
      with Inl q Cons.IH [of "notifs @ notifs_of vs"] show ?thesis
        by (simp add: get_one_def split: sum.split)
    qed (simp add: Inl q get_one_def)
  qed (simp add: get_one_def)
qed simp

text \<open>
  A Get is all or nothing: it returns the notifications of all its paths, in the order of
  the request (of the whole tree when it names none), or the error of the first path that
  fails and nothing else; a request without a target is answered for the cache's own.
\<close>

theorem get_all_or_first_error:
  "Get complete query cache_target prefix paths =
     gather (map (get_one complete query (get_target cache_target prefix) prefix)
       (if paths = [] then [path_of []] else paths))"
  by (simp add: Get_def get_loop_gather get_target_def Let_def split: sum.split option.split)

text \<open>
  No subscription reaches the library without a target: a subscription list that names one
  keeps its prefix, any other gets the cache's target and keeps the rest of its prefix;
  requests of other kinds and errors pass unchanged.
\<close>

theorem recv_defaults_target:
  "Recv_default target res =
     (case res of
        Inl (SubscriptionList prefix rest) \<Rightarrow>
          Inl (SubscriptionList
            (Some ((case prefix of None \<Rightarrow> path_of [] | Some p \<Rightarrow> p)\<lparr>gp_target := get_target target prefix\<rparr>)) rest)
      | _ \<Rightarrow> res)"
  by (auto simp: Recv_default_def get_target_def path_of_def Let_def split: sum.split sub_request.split option.split)

end
