(* ===== verification/IndexPath.thy ===== *)
theory IndexPath
  imports GnmiTree "HOL-Library.List_Lexorder" "HOL-Library.Char_ord"
begin

text \<open>
  The index strings by which the OpenConfig library files and finds leaves, as its documentation
  has them: the origin unless it is empty, then for each element its name and the values of its
  keys in the alphabetical order of the keys.  A query is a list of such strings, any of which
  may be the wildcard, and finds every leaf at or below it.  Two queries the structured paths
  tell apart, one with a key left open and one with the key a wildcard, are not the same query.
\<close>

definition index_elem :: "path_elem \<Rightarrow> string list" where
  "index_elem e = pe_name e # map snd (sort_key fst (pe_key e))"

definition index_of :: "string \<Rightarrow> path_elem list \<Rightarrow> string list" where
  "index_of org es = (if org = [] then [] else [org]) @ concat (map index_elem es)"

fun glob :: "string list \<Rightarrow> string list \<Rightarrow> bool" where
  "glob [] xs = True"
| "glob (q # qs) [] = False"
| "glob (q # qs) (x # xs) = ((q = ''*'' \<or> q = x) \<and> glob qs xs)"

lemma index_of_simps [simp]:
  "index_of org [] = (if org = [] then [] else [org])"
  "org \<noteq> [] \<Longrightarrow> index_of org es = org # index_of [] es"
  "index_of [] (e # es) = index_elem e @ index_of [] es"
  by (simp_all add: index_of_def)

lemma index_elem_simps [simp]:
  "index_elem (el n) = [n]"
  "index_elem (elk n [(k, v)]) = [n, v]"
  "index_elem (elk n [(k, v), (l, w)]) = (if k \<le> l then [n, v, w] else [n, w, v])"
  by (simp_all add: index_elem_def)

lemma glob_refl [simp]: "glob xs xs"
  by (induction xs) auto

lemma glob_append: "glob q xs \<Longrightarrow> glob q (xs @ ys)"
  by (induction q xs rule: glob.induct) auto

text \<open>A list query finds its keyed list by wildcard, not by leaving the key open.\<close>

lemma open_key_misses:
  "glob (index_of [] [el ''interfaces'', elk ''interface'' [(''name'', ''*'')], el ''state''])
     (index_of [] [el ''interfaces'', elk ''interface'' [(''name'', ''eth0'')], el ''state'', el ''mtu''])"
  "\<not> glob (index_of [] [el ''interfaces'', el ''interface'', el ''state''])
     (index_of [] [el ''interfaces'', elk ''interface'' [(''name'', ''eth0'')], el ''state'', el ''mtu''])"
  by simp_all

end
