(* ===== verification/GnmiClient.thy ===== *)
theory GnmiClient
  imports NetParse GnmiTree
begin

text \<open>
  What the two exporters \<^verbatim>\<open>cmd/pathtrace-exporter\<close> and \<^verbatim>\<open>cmd/topology-exporter\<close>
  share (each has its own copy of these functions; that the copies agree is shown in
  \<open>Exporter\<close>): the inventory, the gNMI client and the
  decoding of what it answers, the map from interface addresses to nodes.  The network is a
  parameter: what a dial and a Get to an address return, \<open>None\<close> when one of them fails.
\<close>

section \<open>Configuration\<close>

type_synonym inventory = "string \<Rightarrow> string option"

definition add_node :: "inventory \<Rightarrow> string \<Rightarrow> inventory" where
  "add_node m kv0 =
     (let kv = trim_space kv0 in
      if kv = [] then m
      else case index_byte kv CHR ''='' of
             Some i \<Rightarrow> if 0 < i then m(take i kv \<mapsto> drop (Suc i) kv) else m
           | None \<Rightarrow> m)"

definition parseInventory :: "string \<Rightarrow> inventory" where
  "parseInventory s = foldl add_node Map.empty (split_on CHR '','' s)"

section \<open>The client\<close>

type_synonym network = "string \<Rightarrow> gpath \<Rightarrow> notification list option"

text \<open>The address \<^verbatim>\<open>client\<close> dials; \<open>None\<close>: the node has none.\<close>

definition client_addr :: "inventory \<Rightarrow> string \<Rightarrow> string option" where
  "client_addr nodes node =
     (let a = (case nodes node of None \<Rightarrow> [] | Some a \<Rightarrow> a) in
      if a = [] then None else Some (if contains_str a '':'' then a else a @ '':9339''))"

definition gnmi_get :: "inventory \<Rightarrow> network \<Rightarrow> string \<Rightarrow> gpath \<Rightarrow> update list" where
  "gnmi_get nodes net node p =
     (case client_addr nodes node of
        None \<Rightarrow> []
      | Some a \<Rightarrow>
          (case net a p of None \<Rightarrow> [] | Some ns \<Rightarrow> concat (map n_update ns)))"

section \<open>Paths and values\<close>

type_synonym keys = "string \<Rightarrow> string option"

definition dissect_elem :: "keys \<times> string \<Rightarrow> path_elem \<Rightarrow> keys \<times> string" where
  "dissect_elem kl e = (foldl (\<lambda>m (k, v). m(k \<mapsto> v)) (fst kl) (pe_key e), pe_name e)"

text \<open>A nil path has the result of the empty one.\<close>

definition dissect :: "gpath \<Rightarrow> keys \<times> string" where
  "dissect p = foldl dissect_elem (Map.empty, []) (gp_elem p)"

text \<open>\<^verbatim>\<open>keys[k]\<close>: the empty string for a missing key.\<close>

definition kget :: "keys \<Rightarrow> string \<Rightarrow> string" where
  "kget m k = (case m k of None \<Rightarrow> [] | Some v \<Rightarrow> v)"

definition unquote :: "string \<Rightarrow> string" where
  "unquote s = trim_right (\<lambda>c. c = CHR 0x22) (trim_left (\<lambda>c. c = CHR 0x22) s)"

definition sval :: "typed_value \<Rightarrow> string" where
  "sval v =
     (case v of
        StringVal s \<Rightarrow> s
      | JsonIetfVal s \<Rightarrow> unquote s
      | JsonVal s \<Rightarrow> unquote s
      | UintVal u \<Rightarrow> udec u
      | _ \<Rightarrow> [])"

definition oc_path :: "string \<Rightarrow> path_elem list \<Rightarrow> gpath" where
  "oc_path org es = \<lparr>gp_target = [], gp_origin = org, gp_elem = es\<rparr>"

definition addrPath :: gpath where
  "addrPath =
     oc_path ''openconfig''
       [el ''interfaces'', elk ''interface'' [(''name'', ''*'')], el ''subinterfaces'',
        elk ''subinterface'' [(''index'', ''0'')], el ''ipv4'', el ''addresses'',
        elk ''address'' [(''ip'', ''*'')], el ''state'', el ''ip'']"

section \<open>Addresses to nodes\<close>

type_synonym ip2node = "string \<Rightarrow> string option"

definition add_addr :: "string \<Rightarrow> ip2node \<Rightarrow> update \<Rightarrow> ip2node" where
  "add_addr node m u =
     (let ip = kget (fst (dissect (u_path u))) ''ip'' in
      if ip = [] \<or> has_prefix ip ''127.'' \<or> has_prefix ip ''172.31.'' then m else m(ip \<mapsto> node))"

text \<open>The loop over the inventory, in the order \<open>xs\<close> of its iteration.\<close>

definition buildIP2Node :: "inventory \<Rightarrow> network \<Rightarrow> (string \<times> string) list \<Rightarrow> ip2node" where
  "buildIP2Node nodes net xs =
     foldl (\<lambda>m (node, a). foldl (add_addr node) m (gnmi_get nodes net node addrPath)) Map.empty xs"

definition nodeOf :: "ip2node \<Rightarrow> string \<Rightarrow> string" where
  "nodeOf m ip = (case m ip of Some n \<Rightarrow> n | None \<Rightarrow> ''?'')"

text \<open>The addresses a node reports, loopback and management networks left out.\<close>

definition node_addrs :: "inventory \<Rightarrow> network \<Rightarrow> string \<Rightarrow> string set" where
  "node_addrs nodes net node =
     {ip. \<exists>u \<in> set (gnmi_get nodes net node addrPath). kget (fst (dissect (u_path u))) ''ip'' = ip \<and>
        ip \<noteq> [] \<and> \<not> has_prefix ip ''127.'' \<and> \<not> has_prefix ip ''172.31.''}"

lemma fold_add_addr:
  "foldl (add_addr node) m us ip =
     (if \<exists>u \<in> set us. kget (fst (dissect (u_path u))) ''ip'' = ip \<and>
        ip \<noteq> [] \<and> \<not> has_prefix ip ''127.'' \<and> \<not> has_prefix ip ''172.31.''
      then Some node else m ip)"
proof (induction us arbitrary: m)
  case (Cons u us)
  then show ?case by (auto simp: add_addr_def Let_def)
qed simp

lemma fold_nodes:
  "foldl (\<lambda>m (node, a). foldl (add_addr node) m (gnmi_get nodes net node addrPath)) m xs ip =
     (case find (\<lambda>(n, a). ip \<in> node_addrs nodes net n) (rev xs) of Some (n, a) \<Rightarrow> Some n | None \<Rightarrow> m ip)"
proof (induction xs rule: rev_induct)
  case (snoc x xs)
  obtain n a where x: "x = (n, a)" by (cases x)
  then show ?case using snoc by (simp add: fold_add_addr node_addrs_def)
qed simp

lemma find_SomeD: "find P xs = Some x \<Longrightarrow> x \<in> set xs \<and> P x"
  by (induction xs) (auto split: if_splits)

text \<open>
  When no address is on two nodes the map is exact, whatever the order of the inventory: an
  address belongs to the node that reports it.
\<close>

lemma ip2node_exact:
  assumes "enumerates xs nodes"
    and "\<And>m n ip. m \<noteq> n \<Longrightarrow> ip \<in> node_addrs nodes net m \<Longrightarrow> ip \<notin> node_addrs nodes net n"
  shows "buildIP2Node nodes net xs ip = Some n \<longleftrightarrow> n \<in> dom nodes \<and> ip \<in> node_addrs nodes net n"
proof -
  have dom: "dom nodes = fst ` set xs" using assms(1) by (rule enumerates_dom)
  have eq: "buildIP2Node nodes net xs ip =
      (case find (\<lambda>(n, a). ip \<in> node_addrs nodes net n) (rev xs) of Some (n, a) \<Rightarrow> Some n | None \<Rightarrow> None)"
    by (simp add: buildIP2Node_def fold_nodes)
  show ?thesis
  proof (cases "find (\<lambda>(n, a). ip \<in> node_addrs nodes net n) (rev xs)")
    case None
    then have "\<forall>(k, a) \<in> set xs. ip \<notin> node_addrs nodes net k" by (auto simp: find_None_iff)
    then have "ip \<notin> node_addrs nodes net n" if "n \<in> dom nodes" using that by (auto simp: dom)
    with None show ?thesis by (auto simp: eq)
  next
    case (Some y)
    obtain k a where y: "y = (k, a)" by (cases y)
    with find_SomeD [OF Some] have "(k, a) \<in> set xs" and k: "ip \<in> node_addrs nodes net k" by auto
    then have "k \<in> dom nodes" unfolding dom by force
    with Some y k assms(2) show ?thesis by (auto simp: eq)
  qed
qed

text \<open>An inventory written as the configuration has it is read back.\<close>

definition put_node :: "string \<times> string \<Rightarrow> string" where
  "put_node na = fst na @ ''='' @ snd na"

definition ok_node :: "string \<times> string \<Rightarrow> bool" where
  "ok_node na \<longleftrightarrow> fst na \<noteq> [] \<and> (\<forall>c \<in> set (fst na). c \<noteq> CHR ''='' \<and> c \<noteq> CHR '','' \<and> \<not> is_space c) \<and>
     (\<forall>c \<in> set (snd na). c \<noteq> CHR '','' \<and> \<not> is_space c)"

lemma trim_space_none: "\<forall>c \<in> set s. \<not> is_space c \<Longrightarrow> trim_space s = s"
proof -
  assume s: "\<forall>c \<in> set s. \<not> is_space c"
  have drop: "dropWhile is_space r = r" if "\<forall>c \<in> set r. \<not> is_space c" for r
    using that by (cases r) auto
  show ?thesis using s by (simp add: trim_space_def trim_left_def trim_right_def drop)
qed

lemma add_node_put:
  assumes "ok_node na"
  shows "add_node m (put_node na) = m(fst na \<mapsto> snd na)"
proof -
  have "\<forall>c \<in> set (put_node na). \<not> is_space c"
    using assms by (auto simp: ok_node_def put_node_def is_space_def)
  moreover have "index_byte (put_node na) CHR ''='' = Some (length (fst na))"
    using assms by (auto simp: ok_node_def put_node_def intro!: index_byte_append)
  ultimately show ?thesis
    using assms by (simp add: add_node_def Let_def trim_space_none put_node_def ok_node_def)
qed

lemma fold_add_node:
  "\<forall>na \<in> set nas. ok_node na \<Longrightarrow> foldl add_node m (map put_node nas) = m ++ map_of (rev nas)"
proof (induction nas rule: rev_induct)
  case (snoc na nas)
  then show ?case by (cases na) (simp add: add_node_put flip: fun_upd_def)
qed simp

lemma parseInventory_put:
  assumes "\<forall>na \<in> set nas. ok_node na" and "nas \<noteq> []"
  shows "parseInventory (join_with '','' (map put_node nas)) = map_of (rev nas)"
proof -
  have comma: "CHR '','' \<notin> set (put_node na)" if "ok_node na" for na
    using that by (auto simp: ok_node_def put_node_def)
  have "split_on CHR '','' (join_with [CHR '',''] (map put_node nas)) = map put_node nas"
    using assms comma by (intro split_join) simp_all
  then show ?thesis by (simp add: parseInventory_def fold_add_node [OF assms(1)])
qed

end
