(* ===== verification/Topology.thy ===== *)
theory Topology
  imports GnmiClient "HOL-Library.List_Lexorder" "HOL-Library.Char_ord"
begin

text \<open>
  \<^verbatim>\<open>cmd/topology-exporter/main.go\<close>: the multi-layer topology, from what each node's
  shim serves to the edges and nodes of the metrics.  Strings are compared bytewise
  (\<^verbatim>\<open>List_Lexorder\<close>, \<^verbatim>\<open>Char_ord\<close>); the text of the rows is in
  \<open>Exposition\<close>.
\<close>

section \<open>Names\<close>

definition role :: "string \<Rightarrow> string" where
  "role name =
     (if has_prefix name ''vlan:'' then ''VLAN''
      else if has_prefix name ''mac:'' then ''MAC''
      else if has_prefix name ''pe'' then ''PE''
      else if has_prefix name ''ce'' then ''CE''
      else if has_prefix name ''p'' then ''P''
      else ''?'')"

text \<open>The ellipsis is U+2026 in UTF-8.\<close>

definition ellipsis :: string where
  "ellipsis = map char_of [226, 128, 166 :: nat]"

definition title :: "string \<Rightarrow> string" where
  "title name =
     (if has_prefix name ''vlan:'' then ''vlan'' @ drop 5 name
      else if has_prefix name ''mac:'' then
        (let s = drop 4 name; p = split_on CHR '':'' s in
         if 2 \<le> length p then ellipsis @ p ! (length p - 2) @ '':'' @ p ! (length p - 1) else s)
      else name)"

definition niName :: "gpath \<Rightarrow> string" where
  "niName p =
     (case find (\<lambda>e. pe_name e = ''network-instance'') (gp_elem p) of
        None \<Rightarrow> []
      | Some e \<Rightarrow> kget (map_of (pe_key e)) ''name'')"

definition ifacePeer :: "string \<Rightarrow> string \<Rightarrow> string" where
  "ifacePeer iface self =
     (case find (\<lambda>part. part \<noteq> [] \<and> part \<noteq> self) (split_on CHR ''-'' iface) of
        None \<Rightarrow> [] | Some part \<Rightarrow> part)"

text \<open>
  \<^verbatim>\<open>strings.EqualFold\<close> against an ASCII text: case-insensitive, and by the simple case
  folding of Unicode the long s (U+017F) and the Kelvin sign (U+212A) equal s and k.
\<close>

fun fold_ascii :: "string \<Rightarrow> string" where
  "fold_ascii [] = []"
| "fold_ascii (a # s) =
     (case s of
        b # c # t \<Rightarrow>
          if of_char a = (226 :: nat) \<and> of_char b = (132 :: nat) \<and> of_char c = (170 :: nat)
          then CHR ''k'' # fold_ascii t
          else if of_char a = (197 :: nat) \<and> of_char b = (191 :: nat) then CHR ''s'' # fold_ascii (c # t)
          else lower a # fold_ascii s
      | [b] \<Rightarrow>
          if of_char a = (197 :: nat) \<and> of_char b = (191 :: nat) then ''s''
          else lower a # fold_ascii s
      | [] \<Rightarrow> [lower a])"

definition equal_fold :: "string \<Rightarrow> string \<Rightarrow> bool" where
  "equal_fold s t \<longleftrightarrow> fold_ascii s = fold_ascii t"

section \<open>Paths\<close>

definition lldpPath :: gpath where
  "lldpPath =
     oc_path ''openconfig''
       [el ''lldp'', el ''interfaces'', elk ''interface'' [(''name'', ''*'')], el ''neighbors'',
        elk ''neighbor'' [(''id'', ''*'')], el ''state'', el ''system-name'']"

definition ospfPath :: gpath where
  "ospfPath =
     oc_path ''openconfig''
       [el ''network-instances'', elk ''network-instance'' [(''name'', ''*'')], el ''protocols'',
        elk ''protocol'' [(''identifier'', ''*''), (''name'', ''*'')], el ''ospfv2'', el ''areas'',
        elk ''area'' [(''identifier'', ''*'')], el ''interfaces'', elk ''interface'' [(''id'', ''*'')],
        el ''neighbors'', elk ''neighbor'' [(''router-id'', ''*'')], el ''state'', el ''adjacency-state'']"

definition bgpPath :: gpath where
  "bgpPath =
     oc_path ''openconfig''
       [el ''network-instances'', elk ''network-instance'' [(''name'', ''*'')], el ''protocols'',
        elk ''protocol'' [(''identifier'', ''*''), (''name'', ''*'')], el ''bgp'', el ''neighbors'',
        elk ''neighbor'' [(''neighbor-address'', ''*'')], el ''state'', el ''session-state'']"

definition topo_lfibPath :: gpath where
  "topo_lfibPath = oc_path ''frr'' [el ''mpls'', el ''lfib'', elk ''entry'' [(''label'', ''*'')], el ''state'']"

definition fdbPath :: gpath where
  "fdbPath =
     oc_path ''openconfig''
       [el ''network-instances'', elk ''network-instance'' [(''name'', ''*'')], el ''fdb'', el ''mac-table'',
        el ''entries'', elk ''entry'' [(''mac-address'', ''*''), (''vlan'', ''*'')], el ''state'']"

section \<open>Edges\<close>

record edge =
  ed_layer :: string
  ed_src :: string
  ed_dst :: string
  ed_detail :: string

type_synonym edges = "string \<Rightarrow> edge option"

definition edge_key :: "string \<Rightarrow> string \<Rightarrow> string \<Rightarrow> string" where
  "edge_key layer x y = layer @ ''|'' @ x @ ''|'' @ y"

definition addEdge :: "inventory \<Rightarrow> edges \<Rightarrow> string \<Rightarrow> string \<Rightarrow> string \<Rightarrow> string \<Rightarrow> edges" where
  "addEdge nodes m layer a b detail =
     (if nodes a = None \<or> nodes b = None \<or> a = b then m
      else
        let (x, y) = (if b < a then (b, a) else (a, b));
            key = edge_key layer x y;
            e = \<lparr>ed_layer = layer, ed_src = x, ed_dst = y, ed_detail = detail\<rparr> in
        case m key of
          Some prev \<Rightarrow> if \<not> has_suffix (ed_detail prev) ''=default'' then m else m(key \<mapsto> e)
        | None \<Rightarrow> m(key \<mapsto> e))"

definition addPseudo :: "edges \<Rightarrow> string \<Rightarrow> string \<Rightarrow> string \<Rightarrow> edges" where
  "addPseudo m a b detail =
     (if a = [] \<or> b = [] \<or> a = b then m
      else
        let (x, y) = (if b < a then (b, a) else (a, b)); key = edge_key ''vlan'' x y in
        case m key of
          Some _ \<Rightarrow> m
        | None \<Rightarrow> m(key \<mapsto> \<lparr>ed_layer = ''vlan'', ed_src = x, ed_dst = y, ed_detail = detail\<rparr>))"

text \<open>A call of one of the two, and the calls a node gives rise to, in program order.\<close>

datatype call = Edge string string string string | Pseudo string string string

fun do_call :: "inventory \<Rightarrow> edges \<Rightarrow> call \<Rightarrow> edges" where
  "do_call nodes m (Edge layer a b detail) = addEdge nodes m layer a b detail"
| "do_call nodes m (Pseudo a b detail) = addPseudo m a b detail"

definition lldp_calls :: "string \<Rightarrow> update list \<Rightarrow> call list" where
  "lldp_calls node us = map (\<lambda>u. Edge ''physical'' node (sval (u_val u)) ''lldp'') us"

definition ospf_calls :: "ip2node \<Rightarrow> string \<Rightarrow> update list \<Rightarrow> call list" where
  "ospf_calls ip2node node us =
     concat (map (\<lambda>u.
       if \<not> equal_fold (sval (u_val u)) ''FULL'' then []
       else
         let keys = fst (dissect (u_path u)); peer = ifacePeer (kget keys ''id'') node;
             peer = (if peer = [] then kget ip2node (kget keys ''router-id'') else peer) in
         [Edge ''ospf'' node peer ''area'']) us)"

definition bgp_calls :: "ip2node \<Rightarrow> string \<Rightarrow> update list \<Rightarrow> call list" where
  "bgp_calls ip2node node us =
     concat (map (\<lambda>u.
       if \<not> equal_fold (sval (u_val u)) ''ESTABLISHED'' then []
       else
         let keys = fst (dissect (u_path u)) in
         [Edge ''bgp'' node (kget ip2node (kget keys ''neighbor-address'')) (''vrf='' @ niName (u_path u))])
       us)"

text \<open>The two maps the LFIB loop fills: label to next hop, label to interface.\<close>

type_synonym labels = "string \<Rightarrow> string option"

definition lfib_maps :: "update list \<Rightarrow> labels \<times> labels" where
  "lfib_maps us =
     foldl (\<lambda>(nh, oif) u.
       let (keys, leaf) = dissect (u_path u) in
       if leaf = ''next-hop'' then (nh(kget keys ''label'' \<mapsto> sval (u_val u)), oif)
       else if leaf = ''interface'' then (nh, oif(kget keys ''label'' \<mapsto> sval (u_val u)))
       else (nh, oif)) (Map.empty, Map.empty) us"

text \<open>\<open>order\<close> gives the iteration order of the next-hop map.\<close>

definition mpls_calls ::
  "ip2node \<Rightarrow> (labels \<Rightarrow> (string \<times> string) list) \<Rightarrow> string \<Rightarrow> update list \<Rightarrow> call list" where
  "mpls_calls ip2node order node us =
     (let (nh, oif) = lfib_maps us in
      map (\<lambda>(lbl, h).
        let peer = kget ip2node h; peer = (if peer = [] then ifacePeer (kget oif lbl) node else peer) in
        Edge ''mpls'' node peer ''lsp'') (order nh))"

definition fdb_calls :: "string \<Rightarrow> update list \<Rightarrow> call list" where
  "fdb_calls node us =
     concat (map (\<lambda>u.
       let (keys, leaf) = dissect (u_path u); vlan = kget keys ''vlan''; mac = kget keys ''mac-address'' in
       if leaf \<noteq> ''mac-address'' then []
       else if vlan = [] \<or> vlan = ''0'' \<or> vlan = ''1'' \<or> mac = [] then []
       else [Pseudo node (''vlan:'' @ vlan) ''member'',
             Pseudo (''vlan:'' @ vlan) (''mac:'' @ mac) ''learned'']) us)"

definition node_calls ::
  "inventory \<Rightarrow> network \<Rightarrow> ip2node \<Rightarrow> (string \<Rightarrow> labels \<Rightarrow> (string \<times> string) list) \<Rightarrow> string \<Rightarrow> call list" where
  "node_calls nodes net ip2node order node =
     lldp_calls node (gnmi_get nodes net node lldpPath) @
     ospf_calls ip2node node (gnmi_get nodes net node ospfPath) @
     bgp_calls ip2node node (gnmi_get nodes net node bgpPath) @
     mpls_calls ip2node (order node) node (gnmi_get nodes net node topo_lfibPath) @
     fdb_calls node (gnmi_get nodes net node fdbPath)"

text \<open>
  The edges of one refresh.  \<open>xs0\<close> and \<open>xs\<close> are the orders in which the inventory is
  iterated for the address map and for the edges; each node is asked once for each path.
\<close>

definition topo_edges ::
  "inventory \<Rightarrow> network \<Rightarrow> (string \<Rightarrow> labels \<Rightarrow> (string \<times> string) list) \<Rightarrow>
   (string \<times> string) list \<Rightarrow> (string \<times> string) list \<Rightarrow> edges" where
  "topo_edges nodes net order xs0 xs =
     foldl (do_call nodes) Map.empty
       (concat (map (\<lambda>(n, a). node_calls nodes net (buildIP2Node nodes net xs0) order n) xs))"

text \<open>The rows of the metrics, from an enumeration of the edges.\<close>

definition layer_nodes :: "(string \<times> edge) list \<Rightarrow> string \<Rightarrow> string list" where
  "layer_nodes es layer =
     sort (remdups (concat (map (\<lambda>(k, e). if ed_layer e = layer then [ed_src e, ed_dst e] else []) es)))"

definition node_rows :: "(string \<times> edge) list \<Rightarrow> (string \<times> string \<times> string \<times> string) list" where
  "node_rows es =
     concat (map (\<lambda>layer. map (\<lambda>n. (layer, n, title n, role n)) (layer_nodes es layer))
       [''physical'', ''vlan'', ''ospf'', ''bgp'', ''mpls''])"

definition edge_rows ::
  "(string \<times> edge) list \<Rightarrow> (string \<times> string \<times> string \<times> string \<times> string) list" where
  "edge_rows es =
     map (\<lambda>k. let e = the (map_of es k) in
         (ed_layer e, ed_src e @ ''|'' @ ed_dst e, ed_src e, ed_dst e, ed_detail e))
       (sort (map fst es))"

section \<open>Merging\<close>

definition e_key :: "edge \<Rightarrow> string" where
  "e_key e = edge_key (ed_layer e) (ed_src e) (ed_dst e)"

definition is_default :: "edge \<Rightarrow> bool" where
  "is_default e = has_suffix (ed_detail e) ''=default''"

text \<open>The edge a call asks for.\<close>

definition mk_edge :: "string \<Rightarrow> string \<Rightarrow> string \<Rightarrow> string \<Rightarrow> edge" where
  "mk_edge layer a b detail = \<lparr>ed_layer = layer, ed_src = min a b, ed_dst = max a b, ed_detail = detail\<rparr>"

fun call_edge :: "inventory \<Rightarrow> call \<Rightarrow> edge list" where
  "call_edge nodes (Edge layer a b detail) =
     (if nodes a = None \<or> nodes b = None \<or> a = b then [] else [mk_edge layer a b detail])"
| "call_edge nodes (Pseudo a b detail) =
     (if a = [] \<or> b = [] \<or> a = b then [] else [mk_edge ''vlan'' a b detail])"

text \<open>The calls \<^verbatim>\<open>render\<close> makes: fabric layers, and details that are no VRF for the others.\<close>

definition fabric :: "string set" where
  "fabric = {''physical'', ''ospf'', ''bgp'', ''mpls''}"

fun ok_call :: "call \<Rightarrow> bool" where
  "ok_call (Edge layer a b detail) = (layer \<in> fabric)"
| "ok_call (Pseudo a b detail) = (detail \<in> {''member'', ''learned''})"

definition put_edge :: "edges \<Rightarrow> edge \<Rightarrow> edges" where
  "put_edge m e =
     (case m (e_key e) of
        Some prev \<Rightarrow> if is_default prev then m(e_key e \<mapsto> e) else m
      | None \<Rightarrow> m(e_key e \<mapsto> e))"

definition edges_inv :: "edges \<Rightarrow> bool" where
  "edges_inv m \<longleftrightarrow>
     (\<forall>k e. m k = Some e \<longrightarrow>
        k = e_key e \<and> (ed_layer e \<in> fabric \<or> (ed_layer e = ''vlan'' \<and> \<not> is_default e)))"

lemma vlan_key: "e_key e = edge_key ''vlan'' x y \<Longrightarrow> ed_layer e \<notin> fabric"
  by (auto simp: e_key_def edge_key_def fabric_def)

lemma do_call_put:
  assumes "edges_inv m" and "ok_call c"
  shows "do_call nodes m c = foldl put_edge m (call_edge nodes c)"
proof (cases c)
  case (Edge layer a b detail)
  have "min a b = (if b < a then b else a)" "max a b = (if b < a then a else b)" by (auto simp: min_def max_def)
  then show ?thesis
    by (simp add: Edge addEdge_def put_edge_def mk_edge_def e_key_def is_default_def Let_def split: option.split)
next
  case (Pseudo a b detail)
  have mm: "min a b = (if b < a then b else a)" "max a b = (if b < a then a else b)" by (auto simp: min_def max_def)
  have "\<not> is_default e" if "m (edge_key ''vlan'' (min a b) (max a b)) = Some e" for e
    using assms(1) that vlan_key [of e] unfolding edges_inv_def by (metis)
  then show ?thesis
    by (simp add: Pseudo addPseudo_def put_edge_def mk_edge_def e_key_def Let_def mm split: option.split)
qed

lemma mk_edge_simps [simp]:
  "ed_layer (mk_edge l a b d) = l" "ed_src (mk_edge l a b d) = min a b" "ed_dst (mk_edge l a b d) = max a b"
  "ed_detail (mk_edge l a b d) = d"
  by (simp_all add: mk_edge_def)

lemma call_edge_ok:
  assumes "ok_call c" and "e \<in> set (call_edge nodes c)"
  shows "(ed_layer e \<in> fabric \<and> ed_src e \<in> dom nodes \<and> ed_dst e \<in> dom nodes \<or> ed_layer e = ''vlan'' \<and> \<not> is_default e) \<and>
    ed_src e < ed_dst e"
  using assms
  by (cases c) (auto simp: is_default_def has_suffix_def min_def max_def split: if_splits)

lemma put_edge_inv:
  assumes "edges_inv m" and "ed_layer e \<in> fabric \<or> ed_layer e = ''vlan'' \<and> \<not> is_default e"
  shows "edges_inv (put_edge m e)"
  using assms by (auto simp: edges_inv_def put_edge_def split: option.split)

lemma do_calls_put:
  assumes "edges_inv m" and "\<forall>c \<in> set cs. ok_call c"
  shows "foldl (do_call nodes) m cs = foldl put_edge m (concat (map (call_edge nodes) cs)) \<and>
    edges_inv (foldl (do_call nodes) m cs)"
  using assms
proof (induction cs arbitrary: m)
  case (Cons c cs)
  then have c: "do_call nodes m c = foldl put_edge m (call_edge nodes c)" by (simp add: do_call_put)
  have "edges_inv (foldl put_edge m es)" if "set es \<subseteq> set (call_edge nodes c)" "edges_inv m" for es m
    using that call_edge_ok [of c] Cons.prems(2)
    by (induction es arbitrary: m) (auto intro!: put_edge_inv)
  then have "edges_inv (do_call nodes m c)" using Cons.prems(1) c by simp
  moreover have "\<forall>c \<in> set cs. ok_call c" using Cons.prems(2) by simp
  ultimately have "foldl (do_call nodes) (do_call nodes m c) cs =
      foldl put_edge (do_call nodes m c) (concat (map (call_edge nodes) cs)) \<and>
    edges_inv (foldl (do_call nodes) (do_call nodes m c) cs)" by (rule Cons.IH)
  then show ?case unfolding foldl_Cons list.map concat.simps foldl_append c .
qed simp

text \<open>
  What the merge keeps under a key: the first edge with a specific detail, else the last one.
\<close>

definition kept_edge :: "edge list \<Rightarrow> string \<Rightarrow> edge option" where
  "kept_edge es k =
     (case find (\<lambda>e. e_key e = k \<and> \<not> is_default e) es of
        Some e \<Rightarrow> Some e
      | None \<Rightarrow> find (\<lambda>e. e_key e = k) (rev es))"

lemma find_snoc: "find P (xs @ [x]) = (case find P xs of Some y \<Rightarrow> Some y | None \<Rightarrow> if P x then Some x else None)"
  by (induction xs) auto

lemma put_edge_lookup:
  "put_edge m e k =
     (if k = e_key e
      then (case m k of Some prev \<Rightarrow> if is_default prev then Some e else Some prev | None \<Rightarrow> Some e)
      else m k)"
  by (auto simp: put_edge_def split: option.split)

lemma put_edges: "foldl put_edge Map.empty es k = kept_edge es k"
proof (induction es arbitrary: k rule: rev_induct)
  case (snoc x es)
  have eq: "foldl put_edge Map.empty (es @ [x]) k = put_edge (kept_edge es) x k"
    by (simp add: put_edge_lookup snoc)
  show ?case
  proof (cases "k = e_key x")
    case False
    then show ?thesis unfolding eq by (simp add: put_edge_lookup kept_edge_def find_snoc split: option.split)
  next
    case True
    show ?thesis
    proof (cases "find (\<lambda>e. e_key e = k \<and> \<not> is_default e) es")
      case (Some y)
      then have "kept_edge es k = Some y" by (simp add: kept_edge_def)
      moreover have "\<not> is_default y" using find_SomeD [OF Some] by simp
      ultimately show ?thesis using Some True unfolding eq
        by (simp add: put_edge_lookup kept_edge_def find_snoc)
    next
      case None
      then have "kept_edge es k = find (\<lambda>e. e_key e = k) (rev es)" by (simp add: kept_edge_def)
      moreover have "is_default y" if "find (\<lambda>e. e_key e = k) (rev es) = Some y" for y
        using None find_SomeD [OF that] by (auto simp: find_None_iff)
      ultimately show ?thesis using None True unfolding eq
        by (simp add: put_edge_lookup kept_edge_def find_snoc split: option.split)
    qed
  qed
qed (simp add: kept_edge_def)

text \<open>Edges agree when any two of a key that are both specific, or both default, are equal.\<close>

definition agreeing :: "edge set \<Rightarrow> bool" where
  "agreeing E \<longleftrightarrow> (\<forall>e \<in> E. \<forall>f \<in> E. e_key e = e_key f \<longrightarrow> is_default e = is_default f \<longrightarrow> e = f)"

lemma kept_edge_set:
  assumes "agreeing (set es)"
  shows "kept_edge es k = Some e \<longleftrightarrow>
    e \<in> set es \<and> e_key e = k \<and> (is_default e \<longrightarrow> (\<forall>f \<in> set es. e_key f = k \<longrightarrow> is_default f))"
proof (cases "find (\<lambda>e. e_key e = k \<and> \<not> is_default e) es")
  case (Some y)
  with find_SomeD [OF Some] assms show ?thesis
    unfolding kept_edge_def agreeing_def by simp metis
next
  case None
  then have all: "\<forall>f \<in> set es. e_key f = k \<longrightarrow> is_default f" by (auto simp: find_None_iff)
  have eq: "kept_edge es k = find (\<lambda>e. e_key e = k) (rev es)" by (simp add: kept_edge_def None)
  show ?thesis
  proof (cases "find (\<lambda>e. e_key e = k) (rev es)")
    case None
    then have "\<forall>f \<in> set es. e_key f \<noteq> k" by (simp add: find_None_iff)
    with None show ?thesis unfolding eq by auto
  next
    case (Some y)
    with find_SomeD [OF Some] all assms show ?thesis
      unfolding eq agreeing_def by simp metis
  qed
qed

lemma kept_edge_cong:
  assumes "set es = set fs" and "agreeing (set es)"
  shows "kept_edge es = kept_edge fs"
proof
  fix k
  have "kept_edge es k = Some e \<longleftrightarrow> kept_edge fs k = Some e" for e
    using assms kept_edge_set [of es k e] kept_edge_set [of fs k e] by simp
  then show "kept_edge es k = kept_edge fs k" by (metis not_None_eq)
qed

section \<open>The topology\<close>

lemma node_calls_ok: "\<forall>c \<in> set (node_calls nodes net ip2node order n). ok_call c"
  by (auto simp: node_calls_def lldp_calls_def ospf_calls_def bgp_calls_def mpls_calls_def fdb_calls_def
      fabric_def Let_def split_beta split: if_splits)

definition all_edges ::
  "inventory \<Rightarrow> network \<Rightarrow> ip2node \<Rightarrow> (string \<Rightarrow> labels \<Rightarrow> (string \<times> string) list) \<Rightarrow>
   (string \<times> string) list \<Rightarrow> edge list" where
  "all_edges nodes net ip2node order xs =
     concat (map (call_edge nodes) (concat (map (\<lambda>(n, a). node_calls nodes net ip2node order n) xs)))"

lemma topo_edges_kept:
  "topo_edges nodes net order xs0 xs = kept_edge (all_edges nodes net (buildIP2Node nodes net xs0) order xs)"
  "edges_inv (topo_edges nodes net order xs0 xs)"
proof -
  let ?cs = "concat (map (\<lambda>(n, a). node_calls nodes net (buildIP2Node nodes net xs0) order n) xs)"
  have "\<forall>c \<in> set ?cs. ok_call c" using node_calls_ok by fastforce
  moreover have "edges_inv Map.empty" by (simp add: edges_inv_def)
  ultimately have "foldl (do_call nodes) Map.empty ?cs = foldl put_edge Map.empty (concat (map (call_edge nodes) ?cs)) \<and>
      edges_inv (foldl (do_call nodes) Map.empty ?cs)" by (intro do_calls_put)
  then show "topo_edges nodes net order xs0 xs = kept_edge (all_edges nodes net (buildIP2Node nodes net xs0) order xs)"
    "edges_inv (topo_edges nodes net order xs0 xs)"
    by (simp_all add: topo_edges_def all_edges_def put_edges fun_eq_iff)
qed

text \<open>
  Every edge of the topology, whatever the nodes answer: it is filed under its own layer and
  endpoints, its endpoints are two different names in order, so that a session reported by both
  ends is one edge, and outside the VLAN layer, in one of the four fabric layers, both are nodes
  of the inventory.
\<close>

theorem topology_edges_sound:
  "ran (topo_edges nodes net order xs0 xs) \<subseteq>
     {e. topo_edges nodes net order xs0 xs (e_key e) = Some e \<and> ed_src e < ed_dst e \<and>
         (ed_layer e \<in> fabric \<and> {ed_src e, ed_dst e} \<subseteq> dom nodes \<or> ed_layer e = ''vlan'')}"
proof
  fix e assume "e \<in> ran (topo_edges nodes net order xs0 xs)"
  then obtain k where k: "topo_edges nodes net order xs0 xs k = Some e" by (auto simp: ran_def)
  with topo_edges_kept(2) [of nodes net order xs0 xs] have "k = e_key e" by (auto simp: edges_inv_def)
  moreover have "e \<in> set (all_edges nodes net (buildIP2Node nodes net xs0) order xs)"
    using k unfolding topo_edges_kept(1)
    by (auto simp: kept_edge_def dest: find_SomeD split: option.splits)
  then obtain c where "ok_call c" "e \<in> set (call_edge nodes c)"
    using node_calls_ok by (fastforce simp: all_edges_def)
  ultimately show "e \<in> {e. topo_edges nodes net order xs0 xs (e_key e) = Some e \<and> ed_src e < ed_dst e \<and>
         (ed_layer e \<in> fabric \<and> {ed_src e, ed_dst e} \<subseteq> dom nodes \<or> ed_layer e = ''vlan'')}"
    using call_edge_ok k by fastforce
qed

text \<open>What the orders of iteration can still change, and what they cannot.\<close>

definition next_hops :: "inventory \<Rightarrow> network \<Rightarrow> string \<Rightarrow> labels" where
  "next_hops nodes net n = fst (lfib_maps (gnmi_get nodes net n topo_lfibPath))"

lemma node_calls_order:
  assumes "enumerates (order n (next_hops nodes net n)) (next_hops nodes net n)"
    and "enumerates (order' n (next_hops nodes net n)) (next_hops nodes net n)"
  shows "set (node_calls nodes net ip2node order n) = set (node_calls nodes net ip2node order' n)"
proof -
  have "set (order n (next_hops nodes net n)) = set (order' n (next_hops nodes net n))"
    using assms by (simp only: enumerates_def map_of_inject_set [symmetric])
  then show ?thesis
    by (auto simp: node_calls_def mpls_calls_def next_hops_def Let_def split_beta)
qed

text \<open>
  C24. The topology does not depend on the order in which Go iterates the inventory, twice, and the
  label maps of the nodes: when every address belongs to one node, and any two reports of an
  adjacency or session agree as soon as both name a VRF other than the default one, or neither
  does.
\<close>

theorem topology_order_independent:
  assumes "enumerates xs nodes" and "enumerates ys nodes" and "enumerates xs0 nodes" and "enumerates ys0 nodes"
    and "\<And>m n ip. m \<noteq> n \<Longrightarrow> ip \<in> node_addrs nodes net m \<Longrightarrow> ip \<notin> node_addrs nodes net n"
    and "\<And>n. n \<in> dom nodes \<Longrightarrow> enumerates (order n (next_hops nodes net n)) (next_hops nodes net n)"
    and "\<And>n. n \<in> dom nodes \<Longrightarrow> enumerates (order' n (next_hops nodes net n)) (next_hops nodes net n)"
    and "agreeing (set (all_edges nodes net (buildIP2Node nodes net xs0) order xs))"
  shows "topo_edges nodes net order xs0 xs = topo_edges nodes net order' ys0 ys"
proof -
  have "buildIP2Node nodes net xs0 ip = Some n \<longleftrightarrow> buildIP2Node nodes net ys0 ip = Some n" for ip n
    by (simp only: ip2node_exact [OF assms(3, 5)] ip2node_exact [OF assms(4, 5)])
  then have ip: "buildIP2Node nodes net xs0 = buildIP2Node nodes net ys0" by (intro ext) (metis not_None_eq)
  have dom: "fst ` set xs = dom nodes" "fst ` set ys = dom nodes"
    by (simp_all only: enumerates_dom [OF assms(1)] enumerates_dom [OF assms(2), symmetric])
  have flat: "set (all_edges nodes net m ord zs) =
      (\<Union>n \<in> fst ` set zs. \<Union>c \<in> set (node_calls nodes net m ord n). set (call_edge nodes c))" for m ord zs
    by (auto simp: all_edges_def split_beta)
  have "set (all_edges nodes net (buildIP2Node nodes net xs0) order xs) =
      set (all_edges nodes net (buildIP2Node nodes net ys0) order' ys)"
    unfolding flat dom ip using node_calls_order [where order = order and order' = order'] assms(6, 7) by simp
  then show ?thesis unfolding topo_edges_kept(1) by (intro kept_edge_cong assms(8))
qed

text \<open>
  Two ends that name different VRFs: the detail of their session is the one of the end that
  happened to be asked first, so that the same network gives one topology or the other,
  although the merge is documented as order-independent.
\<close>

theorem differing_vrfs_first_wins:
  assumes "nodes a \<noteq> None" and "nodes b \<noteq> None" and "a \<noteq> b"
    and "\<not> has_suffix d ''=default''" and "\<not> has_suffix d' ''=default''"
  shows "foldl (do_call nodes) Map.empty [Edge ''bgp'' a b d, Edge ''bgp'' b a d'] =
      [edge_key ''bgp'' (min a b) (max a b) \<mapsto> mk_edge ''bgp'' a b d] \<and>
    foldl (do_call nodes) Map.empty [Edge ''bgp'' b a d', Edge ''bgp'' a b d] =
      [edge_key ''bgp'' (min a b) (max a b) \<mapsto> mk_edge ''bgp'' a b d']"
proof -
  obtain u v where "nodes a = Some u" "nodes b = Some v" using assms(1, 2) by auto
  then show ?thesis
    using assms(3-5) by (cases "a < b") (auto simp: addEdge_def mk_edge_def min_def max_def Let_def)
qed

text \<open>The node rows of a layer are exactly the endpoints of its edges, in order, once each.\<close>

lemma layer_nodes_exact:
  "enumerates es m \<Longrightarrow>
   set (layer_nodes es layer) = (\<Union>e \<in> {e \<in> ran m. ed_layer e = layer}. {ed_src e, ed_dst e}) \<and>
   sorted (layer_nodes es layer) \<and> distinct (layer_nodes es layer)"
proof -
  assume es: "enumerates es m"
  then have "ran m = snd ` set es" by (force simp: ran_def enumerates_lookup image_iff)
  then show ?thesis by (auto simp: layer_nodes_def split: if_splits)
qed

section \<open>Witnesses\<close>

text \<open>A provider edge and its customer, which name the VRF of their session differently.\<close>

definition demo_nodes :: inventory where
  "demo_nodes = [''pe1'' \<mapsto> ''m1'', ''ce1'' \<mapsto> ''m2'']"

definition demo_notif :: "(path_elem list \<times> string) list \<Rightarrow> notification" where
  "demo_notif us =
     \<lparr>n_timestamp = 0, n_prefix = path_of [],
      n_update = map (\<lambda>(p, v). \<lparr>u_path = path_of p, u_val = StringVal v\<rparr>) us, n_delete = []\<rparr>"

definition demo_bgp_leaf :: "string \<Rightarrow> string \<Rightarrow> path_elem list" where
  "demo_bgp_leaf vrf ip =
     [elk ''network-instance'' [(''name'', vrf)], elk ''neighbor'' [(''neighbor-address'', ip)]]"

definition demo_net :: network where
  "demo_net a p =
     (let pe = (a = ''m1:9339'') in
      if p = addrPath
      then Some [demo_notif [([elk ''address'' [(''ip'', if pe then ''10.0.0.1'' else ''10.0.0.2'')]], '''')]]
      else if p = bgpPath
      then Some [demo_notif [(if pe then demo_bgp_leaf ''cust'' ''10.0.0.2''
                              else demo_bgp_leaf ''default'' ''10.0.0.1'', ''ESTABLISHED'')]]
      else Some [])"

lemma demo_addr: "gnmi_get demo_nodes demo_net n addrPath =
    (if n = ''pe1'' then [\<lparr>u_path = path_of [elk ''address'' [(''ip'', ''10.0.0.1'')]], u_val = StringVal []\<rparr>]
     else if n = ''ce1'' then [\<lparr>u_path = path_of [elk ''address'' [(''ip'', ''10.0.0.2'')]], u_val = StringVal []\<rparr>]
     else [])"
  by (simp add: gnmi_get_def client_addr_def demo_nodes_def contains_str_def index_str.simps has_prefix_def
      demo_net_def demo_notif_def Let_def)

lemma demo_addrs:
  "node_addrs demo_nodes demo_net n =
     (if n = ''pe1'' then {''10.0.0.1''} else if n = ''ce1'' then {''10.0.0.2''} else {})"
  by (auto simp: node_addrs_def demo_addr dissect_def dissect_elem_def path_of_def kget_def has_prefix_def)

lemma demo_ip: "buildIP2Node demo_nodes demo_net [(''pe1'', ''m1''), (''ce1'', ''m2'')] =
    [''10.0.0.1'' \<mapsto> ''pe1'', ''10.0.0.2'' \<mapsto> ''ce1'']"
  by (simp add: buildIP2Node_def demo_addr add_addr_def dissect_def dissect_elem_def path_of_def kget_def
      has_prefix_def Let_def)

lemma demo_paths:
  "lldpPath \<noteq> addrPath" "lldpPath \<noteq> bgpPath" "ospfPath \<noteq> addrPath" "ospfPath \<noteq> bgpPath"
  "bgpPath \<noteq> addrPath" "topo_lfibPath \<noteq> addrPath" "topo_lfibPath \<noteq> bgpPath" "fdbPath \<noteq> addrPath" "fdbPath \<noteq> bgpPath"
  by (simp_all add: lldpPath_def ospfPath_def bgpPath_def topo_lfibPath_def fdbPath_def addrPath_def oc_path_def)

lemma demo_get:
  "p \<noteq> addrPath \<Longrightarrow> p \<noteq> bgpPath \<Longrightarrow> gnmi_get demo_nodes demo_net n p = []"
  "gnmi_get demo_nodes demo_net ''pe1'' bgpPath =
     [\<lparr>u_path = path_of (demo_bgp_leaf ''cust'' ''10.0.0.2''), u_val = StringVal ''ESTABLISHED''\<rparr>]"
  "gnmi_get demo_nodes demo_net ''ce1'' bgpPath =
     [\<lparr>u_path = path_of (demo_bgp_leaf ''default'' ''10.0.0.1''), u_val = StringVal ''ESTABLISHED''\<rparr>]"
  by (simp_all add: gnmi_get_def client_addr_def demo_nodes_def contains_str_def index_str.simps has_prefix_def
      demo_net_def demo_notif_def Let_def demo_paths split: option.split)

lemma demo_calls:
  "node_calls demo_nodes demo_net [''10.0.0.1'' \<mapsto> ''pe1'', ''10.0.0.2'' \<mapsto> ''ce1''] (\<lambda>_ _. []) n =
     (if n = ''pe1'' then [Edge ''bgp'' ''pe1'' ''ce1'' ''vrf=cust'']
      else if n = ''ce1'' then [Edge ''bgp'' ''ce1'' ''pe1'' ''vrf=default''] else [])"
proof (cases "n = ''pe1'' \<or> n = ''ce1''")
  case True
  then show ?thesis
    by (auto simp: node_calls_def demo_get demo_paths lldp_calls_def ospf_calls_def bgp_calls_def mpls_calls_def
        fdb_calls_def lfib_maps_def sval_def equal_fold_def dissect_def dissect_elem_def demo_bgp_leaf_def
        path_of_def kget_def niName_def Let_def)
next
  case False
  then have "gnmi_get demo_nodes demo_net n p = []" for p
    by (simp add: gnmi_get_def client_addr_def demo_nodes_def)
  with False show ?thesis
    by (simp add: node_calls_def lldp_calls_def ospf_calls_def bgp_calls_def mpls_calls_def fdb_calls_def
        lfib_maps_def)
qed

theorem topology_order_independent_witness:
  "topo_edges demo_nodes demo_net (\<lambda>_ _. []) [(''pe1'', ''m1''), (''ce1'', ''m2'')] [(''pe1'', ''m1''), (''ce1'', ''m2'')] =
   topo_edges demo_nodes demo_net (\<lambda>_ _. []) [(''ce1'', ''m2''), (''pe1'', ''m1'')] [(''ce1'', ''m2''), (''pe1'', ''m1'')]"
proof (rule topology_order_independent)
  show "enumerates [(''pe1'', ''m1''), (''ce1'', ''m2'')] demo_nodes"
    "enumerates [(''ce1'', ''m2''), (''pe1'', ''m1'')] demo_nodes"
    "enumerates [(''pe1'', ''m1''), (''ce1'', ''m2'')] demo_nodes"
    "enumerates [(''ce1'', ''m2''), (''pe1'', ''m1'')] demo_nodes"
    by (simp_all add: enumerates_def demo_nodes_def fun_eq_iff)
  show "ip \<notin> node_addrs demo_nodes demo_net n" if "m \<noteq> n" "ip \<in> node_addrs demo_nodes demo_net m" for m n ip
    using that by (auto simp: demo_addrs split: if_splits)
  show "enumerates [] (next_hops demo_nodes demo_net n)" "enumerates [] (next_hops demo_nodes demo_net n)" for n
    by (simp_all add: next_hops_def demo_get demo_paths lfib_maps_def enumerates_def)
  have "demo_nodes ''pe1'' = Some ''m1''" "demo_nodes ''ce1'' = Some ''m2''" by (simp_all add: demo_nodes_def)
  then have "all_edges demo_nodes demo_net
      (buildIP2Node demo_nodes demo_net [(''pe1'', ''m1''), (''ce1'', ''m2'')]) (\<lambda>_ _. []) [(''pe1'', ''m1''), (''ce1'', ''m2'')] =
    [mk_edge ''bgp'' ''pe1'' ''ce1'' ''vrf=cust'', mk_edge ''bgp'' ''ce1'' ''pe1'' ''vrf=default'']"
    by (simp add: all_edges_def demo_ip demo_calls)
  then show "agreeing (set (all_edges demo_nodes demo_net
      (buildIP2Node demo_nodes demo_net [(''pe1'', ''m1''), (''ce1'', ''m2'')]) (\<lambda>_ _. []) [(''pe1'', ''m1''), (''ce1'', ''m2'')]))"
    by (auto simp: agreeing_def is_default_def has_suffix_def)
qed

theorem differing_vrfs_first_wins_witness:
  "foldl (do_call demo_nodes) Map.empty [Edge ''bgp'' ''pe1'' ''ce1'' ''vrf=red'', Edge ''bgp'' ''ce1'' ''pe1'' ''vrf=blue''] =
      [edge_key ''bgp'' (min ''pe1'' ''ce1'') (max ''pe1'' ''ce1'') \<mapsto> mk_edge ''bgp'' ''pe1'' ''ce1'' ''vrf=red''] \<and>
   foldl (do_call demo_nodes) Map.empty [Edge ''bgp'' ''ce1'' ''pe1'' ''vrf=blue'', Edge ''bgp'' ''pe1'' ''ce1'' ''vrf=red''] =
      [edge_key ''bgp'' (min ''pe1'' ''ce1'') (max ''pe1'' ''ce1'') \<mapsto> mk_edge ''bgp'' ''pe1'' ''ce1'' ''vrf=blue'']"
  by (rule differing_vrfs_first_wins) (simp_all add: demo_nodes_def has_suffix_def)

end
