(* ===== verification/Pathtrace.thy ===== *)
theory Pathtrace
  imports GnmiClient FpmIngest
begin

text \<open>
  \<^verbatim>\<open>cmd/pathtrace-exporter/main.go\<close>: the walk of a flow through the control planes of
  the nodes, hop by hop over the AFT and LFIB each node's shim serves, with the label stack
  it carries.  The text of the metrics is in \<open>Exposition\<close>.
\<close>

section \<open>Flows\<close>

record flow =
  fl_name :: string
  fl_start :: string
  fl_dst :: string

definition flow_of :: "string \<Rightarrow> flow list" where
  "flow_of spec0 =
     (let spec = trim_space spec0 in
      if spec = [] then []
      else
        let (name, sd) =
              (case index_byte spec CHR '':'' of
                 Some i \<Rightarrow> if 0 < i then (take i spec, drop (Suc i) spec) else (spec, spec)
               | None \<Rightarrow> (spec, spec)) in
        case index_byte sd CHR ''>'' of
          None \<Rightarrow> []
        | Some i \<Rightarrow>
            if i = 0 then [] else [\<lparr>fl_name = name, fl_start = take i sd, fl_dst = drop (Suc i) sd\<rparr>])"

text \<open>\<open>srt\<close> is \<^verbatim>\<open>sort.Slice\<close> by name: any sorted permutation, since it is not stable.\<close>

definition parseFlows :: "(flow list \<Rightarrow> flow list) \<Rightarrow> string \<Rightarrow> flow list" where
  "parseFlows srt s = srt (concat (map flow_of (split_on CHR '','' s)))"

section \<open>Lookups\<close>

definition trace_aftPath :: gpath where
  "trace_aftPath =
     oc_path ''openconfig''
       [el ''network-instances'', elk ''network-instance'' [(''name'', ''*'')], el ''afts'',
        el ''ipv4-unicast'', elk ''ipv4-entry'' [(''prefix'', ''*'')], el ''state'']"

definition lfibPath :: "string \<Rightarrow> gpath" where
  "lfibPath label = oc_path ''frr'' [el ''mpls'', el ''lfib'', elk ''entry'' [(''label'', label)], el ''state'']"

record aft_ent =
  en_vrf :: string
  en_nh :: string
  en_lbl :: string

type_synonym aft_map = "string \<Rightarrow> aft_ent option"

definition add_aft :: "aft_map \<Rightarrow> update \<Rightarrow> aft_map" where
  "add_aft m u =
     (let (keys, leaf) = dissect (u_path u); pfx = kget keys ''prefix'' in
      if pfx = [] then m
      else
        let e = (case m pfx of Some e \<Rightarrow> e | None \<Rightarrow> \<lparr>en_vrf = [], en_nh = [], en_lbl = []\<rparr>) in
        m(pfx \<mapsto>
          (if leaf = ''next-hop'' then e\<lparr>en_nh := sval (u_val u), en_vrf := kget keys ''name''\<rparr>
           else if leaf = ''pushed-mpls-label-stack'' then e\<lparr>en_lbl := sval (u_val u)\<rparr>
           else e)))"

definition byPfx :: "update list \<Rightarrow> aft_map" where
  "byPfx ups = foldl add_aft Map.empty ups"

text \<open>VRF, prefix, next hop and labels; all empty when there is no route.\<close>

type_synonym route_answer = "string \<times> string \<times> string \<times> string"

definition lpm_step :: "ip \<Rightarrow> int \<times> route_answer \<Rightarrow> string \<times> aft_ent \<Rightarrow> int \<times> route_answer" where
  "lpm_step di acc pe =
     (let (best, res) = acc; (pfx, e) = pe in
      if en_nh e = [] \<and> en_lbl e = [] then acc
      else case ParseCIDR pfx of
        None \<Rightarrow> acc
      | Some n \<Rightarrow>
          let ones = mask_ones (net_mask n) in
          if Contains n di \<and> best < int ones then (int ones, (en_vrf e, pfx, en_nh e, en_lbl e)) else acc)"

text \<open>\<open>xs\<close> is the iteration order of \<^verbatim>\<open>byPfx\<close>.\<close>

definition routeLookup :: "(string \<times> aft_ent) list \<Rightarrow> string \<Rightarrow> route_answer" where
  "routeLookup xs dst =
     (let di = to4 (ParseIP dst) in
      if di = [] then ([], [], [], []) else snd (foldl (lpm_step di) (- 1, ([], [], [], [])) xs))"

text \<open>Out-label, next hop and interface.\<close>

type_synonym mpls_answer = "string \<times> string \<times> string"

definition lfib_leaf :: "mpls_answer \<Rightarrow> update \<Rightarrow> mpls_answer" where
  "lfib_leaf r u =
     (let (out, nh, iface) = r; leaf = snd (dissect (u_path u)) in
      if leaf = ''out-label'' then (sval (u_val u), nh, iface)
      else if leaf = ''next-hop'' then (out, sval (u_val u), iface)
      else if leaf = ''interface'' then (out, nh, sval (u_val u))
      else r)"

definition mplsLookup :: "update list \<Rightarrow> mpls_answer" where
  "mplsLookup ups = foldl lfib_leaf ([], [], []) ups"

section \<open>The walk\<close>

record thop =
  th_seq :: nat
  th_node :: string
  th_kind :: string
  th_nexthop :: string
  th_label :: string
  th_detail :: string

text \<open>The local variables of \<^verbatim>\<open>trace\<close>.\<close>

record walk =
  wk_hops :: "thop list"
  wk_node :: string
  wk_stack :: "string list"
  wk_seq :: nat

definition add_hop :: "walk \<Rightarrow> string \<Rightarrow> string \<Rightarrow> string \<Rightarrow> string \<Rightarrow> walk" where
  "add_hop s kind nh label detail =
     s\<lparr>wk_hops := wk_hops s @
        [\<lparr>th_seq = wk_seq s, th_node = wk_node s, th_kind = kind, th_nexthop = nh, th_label = label,
          th_detail = detail\<rparr>]\<rparr>"

text \<open>Going on to another node with another stack, after a hop.\<close>

definition move_to :: "walk \<Rightarrow> string \<Rightarrow> string list \<Rightarrow> walk" where
  "move_to s node stack = s\<lparr>wk_node := node, wk_stack := stack, wk_seq := Suc (wk_seq s)\<rparr>"

text \<open>
  One turn of the loop: the walk goes on (\<open>Inl\<close>) or \<^verbatim>\<open>trace\<close> returns (\<open>Inr\<close>).
  \<open>rl\<close> and \<open>ml\<close> are the two lookups of this turn, a node's answers at that moment.
\<close>

definition trace_ip ::
  "(string \<Rightarrow> route_answer) \<Rightarrow> ip2node \<Rightarrow> string \<Rightarrow> walk \<Rightarrow> walk + thop list \<times> bool" where
  "trace_ip rl m dst s =
     (let (vrf, pfx, nh, labels) = rl (wk_node s) in
      if nh = [] \<and> labels = [] \<and> pfx = []
      then Inr (wk_hops (add_hop s ''drop'' [] [] (''no route to '' @ dst)), False)
      else
        let detail = ''vrf='' @ vrf @ '' '' @ pfx in
        if labels \<noteq> []
        then Inl (move_to (add_hop s ''ip-push'' nh labels detail) (nodeOf m nh) (split_on CHR '','' labels))
        else Inl (move_to (add_hop s ''ip'' nh [] detail) (nodeOf m nh) []))"

definition trace_mpls ::
  "(string \<Rightarrow> string \<Rightarrow> mpls_answer) \<Rightarrow> ip2node \<Rightarrow> walk \<Rightarrow> walk + thop list \<times> bool" where
  "trace_mpls ml m s =
     (case wk_stack s of
        [] \<Rightarrow> Inl s
      | lbl # rest \<Rightarrow>
          let (out, nh, iface) = ml (wk_node s) lbl in
          if out = [] \<and> nh = [] \<and> iface = []
          then Inr (wk_hops (add_hop s ''drop'' [] [] (''no LFIB entry for label '' @ lbl)), False)
          else if out \<noteq> [] then
            let stack = split_on CHR '','' out @ rest in
            Inl (move_to
              (add_hop s ''mpls-swap'' nh (lbl @ ''->'' @ out)
                 (''if='' @ iface @ '' stack['' @ join_with '' '' stack @ '']''))
              (nodeOf m nh) stack)
          else if nh \<noteq> [] then
            Inl (move_to
              (add_hop s ''mpls-pop-php'' nh lbl
                 (''if='' @ iface @ '' stack['' @ join_with '' '' rest @ '']''))
              (nodeOf m nh) rest)
          else Inl (move_to (add_hop s ''mpls-pop-vrf'' [] lbl (''-> VRF '' @ iface)) (wk_node s) rest))"

definition trace_turn ::
  "(string \<Rightarrow> route_answer) \<Rightarrow> (string \<Rightarrow> string \<Rightarrow> mpls_answer) \<Rightarrow> ip2node \<Rightarrow> string \<Rightarrow> walk \<Rightarrow>
   walk + thop list \<times> bool" where
  "trace_turn rl ml m dst s =
     (if (case m dst of Some n \<Rightarrow> n | None \<Rightarrow> []) = wk_node s \<and> wk_stack s = []
      then Inr (wk_hops (add_hop s ''dest'' [] [] (''destination '' @ dst @ '' reached'')), True)
      else
        case (if wk_stack s = [] then trace_ip rl m dst s else trace_mpls ml m s) of
          Inr r \<Rightarrow> Inr r
        | Inl s' \<Rightarrow>
            if wk_node s' = ''?''
            then Inr (wk_hops (add_hop s' ''drop'' [] [] ''next-hop not in inventory''), False)
            else Inl s')"

text \<open>The loop, \<open>k\<close> turns left of the 24; the lookups may answer differently in each turn.\<close>

fun trace_loop ::
  "(nat \<Rightarrow> string \<Rightarrow> route_answer) \<Rightarrow> (nat \<Rightarrow> string \<Rightarrow> string \<Rightarrow> mpls_answer) \<Rightarrow> ip2node \<Rightarrow> string \<Rightarrow>
   nat \<Rightarrow> walk \<Rightarrow> thop list \<times> bool" where
  "trace_loop rl ml m dst 0 s = (wk_hops s, False)"
| "trace_loop rl ml m dst (Suc k) s =
     (case trace_turn (rl (23 - k)) (ml (23 - k)) m dst s of
        Inr r \<Rightarrow> r
      | Inl s' \<Rightarrow> trace_loop rl ml m dst k s')"

definition trace_with ::
  "(nat \<Rightarrow> string \<Rightarrow> route_answer) \<Rightarrow> (nat \<Rightarrow> string \<Rightarrow> string \<Rightarrow> mpls_answer) \<Rightarrow> ip2node \<Rightarrow>
   string \<Rightarrow> string \<Rightarrow> thop list \<times> bool" where
  "trace_with rl ml m start dst =
     trace_loop rl ml m dst 24 \<lparr>wk_hops = [], wk_node = start, wk_stack = [], wk_seq = 1\<rparr>"

text \<open>
  \<^verbatim>\<open>trace\<close> over the inventory: the network in each turn, and the order in which the map
  of a lookup is iterated.
\<close>

definition trace_flow ::
  "inventory \<Rightarrow> (nat \<Rightarrow> network) \<Rightarrow> (nat \<Rightarrow> aft_map \<Rightarrow> (string \<times> aft_ent) list) \<Rightarrow> ip2node \<Rightarrow>
   string \<Rightarrow> string \<Rightarrow> thop list \<times> bool" where
  "trace_flow nodes net order m start dst =
     trace_with
       (\<lambda>i node. routeLookup (order i (byPfx (gnmi_get nodes (net i) node trace_aftPath))) dst)
       (\<lambda>i node label. mplsLookup (gnmi_get nodes (net i) node (lfibPath label)))
       m start dst"

section \<open>The hops are a walk\<close>

text \<open>The node a hop leads to.\<close>

definition hop_target :: "ip2node \<Rightarrow> thop \<Rightarrow> string" where
  "hop_target m h = (if th_kind h = ''mpls-pop-vrf'' then th_node h else nodeOf m (th_nexthop h))"

definition is_walk :: "ip2node \<Rightarrow> string \<Rightarrow> thop list \<Rightarrow> bool" where
  "is_walk m start hs \<longleftrightarrow>
     map th_seq hs = [1 ..< Suc (length hs)] \<and>
     (hs \<noteq> [] \<longrightarrow> th_node (hd hs) = start) \<and>
     (\<forall>i. Suc i < length hs \<longrightarrow> th_node (hs ! Suc i) = hop_target m (hs ! i))"

lemma is_walk_snoc:
  assumes "is_walk m start hs" and "th_seq h = Suc (length hs)"
    and "th_node h = (if hs = [] then start else hop_target m (last hs))"
  shows "is_walk m start (hs @ [h])"
proof -
  have "th_node ((hs @ [h]) ! Suc i) = hop_target m ((hs @ [h]) ! i)" if "Suc i < length (hs @ [h])" for i
  proof (cases "Suc i < length hs")
    case True
    with assms(1) show ?thesis by (simp add: is_walk_def nth_append)
  next
    case False
    with that have i: "Suc i = length hs" by simp
    then have ne: "hs \<noteq> []" by auto
    with i have "hs ! i = last hs" by (simp add: last_conv_nth flip: i)
    with ne i assms(3) show ?thesis by (simp add: nth_append)
  qed
  with assms show ?thesis by (auto simp: is_walk_def hd_append)
qed

text \<open>The loop's state: the hops so far lead to the current node.\<close>

definition walk_inv :: "ip2node \<Rightarrow> string \<Rightarrow> walk \<Rightarrow> bool" where
  "walk_inv m start s \<longleftrightarrow>
     is_walk m start (wk_hops s) \<and> wk_seq s = Suc (length (wk_hops s)) \<and>
     wk_node s = (if wk_hops s = [] then start else hop_target m (last (wk_hops s)))"

lemma add_hop_simps [simp]:
  "wk_node (add_hop s k n l d) = wk_node s" "wk_seq (add_hop s k n l d) = wk_seq s"
  "wk_stack (add_hop s k n l d) = wk_stack s"
  "length (wk_hops (add_hop s k n l d)) = Suc (length (wk_hops s))"
  "wk_hops (add_hop s k n l d) \<noteq> []"
  "th_kind (last (wk_hops (add_hop s k n l d))) = k"
  "th_node (last (wk_hops (add_hop s k n l d))) = wk_node s"
  "th_nexthop (last (wk_hops (add_hop s k n l d))) = n"
  by (simp_all add: add_hop_def)

lemma move_to_simps [simp]:
  "wk_node (move_to s n st) = n" "wk_seq (move_to s n st) = Suc (wk_seq s)"
  "wk_stack (move_to s n st) = st" "wk_hops (move_to s n st) = wk_hops s"
  by (simp_all add: move_to_def)

lemma is_walk_add_hop:
  assumes "walk_inv m start s"
  shows "is_walk m start (wk_hops (add_hop s k n l d))"
proof -
  let ?h = "\<lparr>th_seq = wk_seq s, th_node = wk_node s, th_kind = k, th_nexthop = n, th_label = l, th_detail = d\<rparr>"
  from assms have "is_walk m start (wk_hops s @ [?h])"
    by (intro is_walk_snoc) (simp_all only: walk_inv_def thop.simps)
  then show ?thesis by (simp add: add_hop_def)
qed

lemma walk_inv_move:
  assumes "walk_inv m start s" and "node = (if k = ''mpls-pop-vrf'' then wk_node s else nodeOf m n)"
  shows "walk_inv m start (move_to (add_hop s k n l d) node st)"
  using assms is_walk_add_hop [OF assms(1)] by (simp add: walk_inv_def hop_target_def)

lemma trace_ip_inv:
  assumes "walk_inv m start s"
  shows "case trace_ip rl m dst s of
      Inr (hs, b) \<Rightarrow> is_walk m start hs \<and> length hs = Suc (length (wk_hops s)) \<and> \<not> b
    | Inl s' \<Rightarrow> walk_inv m start s' \<and> length (wk_hops s') = Suc (length (wk_hops s))"
  using assms by (auto simp: trace_ip_def Let_def is_walk_add_hop walk_inv_move split: prod.split)

lemma trace_mpls_inv:
  assumes "walk_inv m start s" and "wk_stack s \<noteq> []"
  shows "case trace_mpls ml m s of
      Inr (hs, b) \<Rightarrow> is_walk m start hs \<and> length hs = Suc (length (wk_hops s)) \<and> \<not> b
    | Inl s' \<Rightarrow> walk_inv m start s' \<and> length (wk_hops s') = Suc (length (wk_hops s))"
  using assms
  by (auto simp: trace_mpls_def Let_def is_walk_add_hop walk_inv_move neq_Nil_conv split: prod.split)

lemma trace_mpls_kind:
  assumes "wk_stack s \<noteq> []"
  shows "case trace_mpls ml m s of
      Inr (hs, b) \<Rightarrow> th_kind (last hs) \<noteq> ''dest''
    | Inl s' \<Rightarrow> th_kind (last (wk_hops s')) \<noteq> ''dest'' \<and> wk_hops s' \<noteq> []"
  using assms by (auto simp: trace_mpls_def Let_def neq_Nil_conv split: prod.split)

lemma trace_ip_kind:
  "case trace_ip rl m dst s of
      Inr (hs, b) \<Rightarrow> th_kind (last hs) \<noteq> ''dest''
    | Inl s' \<Rightarrow> th_kind (last (wk_hops s')) \<noteq> ''dest'' \<and> wk_hops s' \<noteq> []"
  by (auto simp: trace_ip_def Let_def split: prod.split)

definition no_dest :: "thop list \<Rightarrow> bool" where
  "no_dest hs \<longleftrightarrow> hs = [] \<or> th_kind (last hs) \<noteq> ''dest''"

lemma trace_turn_inv:
  assumes "walk_inv m start s"
  shows "case trace_turn rl ml m dst s of
      Inr (hs, b) \<Rightarrow> is_walk m start hs \<and> hs \<noteq> [] \<and> length hs \<le> length (wk_hops s) + 2 \<and>
        b = (th_kind (last hs) = ''dest'')
    | Inl s' \<Rightarrow> walk_inv m start s' \<and> length (wk_hops s') = Suc (length (wk_hops s)) \<and> no_dest (wk_hops s')"
proof (cases "(case m dst of Some n \<Rightarrow> n | None \<Rightarrow> []) = wk_node s \<and> wk_stack s = []")
  case True
  with assms show ?thesis by (simp add: trace_turn_def is_walk_add_hop)
next
  case False
  let ?r = "if wk_stack s = [] then trace_ip rl m dst s else trace_mpls ml m s"
  have turn: "trace_turn rl ml m dst s =
      (case ?r of Inr r \<Rightarrow> Inr r
       | Inl s' \<Rightarrow> if wk_node s' = ''?''
            then Inr (wk_hops (add_hop s' ''drop'' [] [] ''next-hop not in inventory''), False) else Inl s')"
    unfolding trace_turn_def by (simp only: False if_False)
  have inv: "case ?r of
      Inr (hs, b) \<Rightarrow> is_walk m start hs \<and> length hs = Suc (length (wk_hops s)) \<and> \<not> b
    | Inl s' \<Rightarrow> walk_inv m start s' \<and> length (wk_hops s') = Suc (length (wk_hops s))"
    using trace_ip_inv [OF assms] trace_mpls_inv [OF assms] by simp
  have kind: "case ?r of
      Inr (hs, b) \<Rightarrow> th_kind (last hs) \<noteq> ''dest''
    | Inl s' \<Rightarrow> th_kind (last (wk_hops s')) \<noteq> ''dest'' \<and> wk_hops s' \<noteq> []"
    using trace_ip_kind trace_mpls_kind by simp
  show ?thesis
  proof (cases ?r)
    case (Inl s')
    with inv kind show ?thesis by (auto simp: turn is_walk_add_hop no_dest_def)
  next
    case (Inr r)
    with inv kind show ?thesis by (cases r) (auto simp: turn)
  qed
qed

lemma trace_loop_inv:
  assumes "walk_inv m start s" and "no_dest (wk_hops s)" and "wk_hops s \<noteq> [] \<or> 0 < k"
    and "trace_loop rl ml m dst k s = (hs, b)"
  shows "is_walk m start hs \<and> hs \<noteq> [] \<and> length hs \<le> length (wk_hops s) + k + 1 \<and> b = (th_kind (last hs) = ''dest'')"
  using assms
proof (induction k arbitrary: s)
  case 0
  then show ?case by (simp add: walk_inv_def no_dest_def)
next
  case (Suc k)
  show ?case
  proof (cases "trace_turn (rl (23 - k)) (ml (23 - k)) m dst s")
    case (Inl s')
    with trace_turn_inv [OF Suc.prems(1), of "rl (23 - k)" "ml (23 - k)" dst]
    have s': "walk_inv m start s'" "length (wk_hops s') = Suc (length (wk_hops s))" "no_dest (wk_hops s')"
      by simp_all
    then have "wk_hops s' \<noteq> []" by auto
    with Suc.IH [OF s'(1, 3)] Suc.prems(4) Inl s'(2) show ?thesis by simp
  next
    case (Inr r)
    with trace_turn_inv [OF Suc.prems(1), of "rl (23 - k)" "ml (23 - k)" dst] Suc.prems(4)
    show ?thesis by (cases r) auto
  qed
qed

lemma trace_flow_walk:
  assumes "trace_flow nodes net order m start dst = (hs, b)"
  shows "is_walk m start hs \<and> 1 \<le> length hs \<and> length hs \<le> 25 \<and> b = (th_kind (last hs) = ''dest'')"
proof -
  let ?s = "\<lparr>wk_hops = [], wk_node = start, wk_stack = [], wk_seq = 1\<rparr>"
  have "walk_inv m start ?s" "no_dest (wk_hops ?s)" by (simp_all add: walk_inv_def is_walk_def no_dest_def)
  from trace_loop_inv [OF this(1) this(2) _ assms [unfolded trace_flow_def trace_with_def]]
  show ?thesis by (simp add: Suc_le_eq)
qed

text \<open>
  C31. Whatever the nodes answer, and even if they answer differently from one moment to the next,
  a trace is a walk: it has at least one and at most 25 hops, numbered from 1, it starts at the
  flow's start, each hop is at the node the previous one leads to (its next hop's owner, or
  the same node after a pop into a VRF), and it counts as reached exactly when it ends with a
  destination hop.
\<close>

theorem trace_is_walk:
  "let (hs, reached) = trace_flow nodes net order m start dst in
     is_walk m start hs \<and> 1 \<le> length hs \<and> length hs \<le> 25 \<and> reached = (th_kind (last hs) = ''dest'')"
  using trace_flow_walk by (auto split: prod.split)

section \<open>The metrics\<close>

text \<open>A sample: metric, labels, value.  The wall time of the trace is not modelled.\<close>

record metric_sample =
  sa_name :: string
  sa_labels :: "(string \<times> string) list"
  sa_value :: nat

text \<open>\<^verbatim>\<open>%02d\<close>.\<close>

definition dec02 :: "nat \<Rightarrow> string" where
  "dec02 n = (if n < 10 then CHR ''0'' # dec n else dec n)"

definition hop_sample :: "flow \<Rightarrow> thop \<Rightarrow> metric_sample" where
  "hop_sample f h =
     \<lparr>sa_name = ''frr_pathtrace_hop_info'',
      sa_labels = [(''flow'', fl_name f), (''seq'', dec02 (th_seq h)), (''node'', th_node h), (''kind'', th_kind h),
        (''nexthop'', th_nexthop h), (''labels'', th_label h), (''detail'', th_detail h)],
      sa_value = 1\<rparr>"

definition flow_samples :: "flow \<Rightarrow> thop list \<times> bool \<Rightarrow> metric_sample list" where
  "flow_samples f r =
     (let (hops, reached) = r;
          lbl = [(''flow'', fl_name f), (''src'', fl_start f), (''dst'', fl_dst f)] in
      \<lparr>sa_name = ''frr_pathtrace_reachable'', sa_labels = lbl, sa_value = (if reached then 1 else 0)\<rparr> #
      \<lparr>sa_name = ''frr_pathtrace_hops'', sa_labels = lbl, sa_value = length hops\<rparr> #
      map (hop_sample f) hops)"

text \<open>
  One refresh: the address map from the network at its start, then one trace per flow, each
  with the networks and map orders it meets.
\<close>

definition path_render ::
  "inventory \<Rightarrow> network \<Rightarrow> (string \<times> string) list \<Rightarrow> (nat \<Rightarrow> nat \<Rightarrow> network) \<Rightarrow>
   (nat \<Rightarrow> nat \<Rightarrow> aft_map \<Rightarrow> (string \<times> aft_ent) list) \<Rightarrow> flow list \<Rightarrow> metric_sample list" where
  "path_render nodes net0 xs0 net order fs =
     (let m = buildIP2Node nodes net0 xs0 in
      concat (map (\<lambda>i.
        flow_samples (fs ! i) (trace_flow nodes (net i) (order i) m (fl_start (fs ! i)) (fl_dst (fs ! i))))
        [0 ..< length fs]) @
      [\<lparr>sa_name = ''frr_pathtrace_up'', sa_labels = [], sa_value = 1\<rparr>])"

definition series :: "metric_sample \<Rightarrow> string \<times> (string \<times> string) list" where
  "series s = (sa_name s, sa_labels s)"

lemma dec02_inj: "dec02 m = dec02 n \<Longrightarrow> m < 26 \<Longrightarrow> n < 26 \<Longrightarrow> m = n"
proof -
  have "distinct (map dec02 [0 ..< 26])" by code_simp
  then show "dec02 m = dec02 n \<Longrightarrow> m < 26 \<Longrightarrow> n < 26 \<Longrightarrow> m = n"
    by (simp add: distinct_map inj_on_def)
qed

text \<open>The series of a flow are its own: they carry its name.\<close>

lemma flow_samples_flow: "s \<in> set (flow_samples f r) \<Longrightarrow> hd (sa_labels s) = (''flow'', fl_name f)"
  by (auto simp: flow_samples_def hop_sample_def Let_def split: prod.splits)

lemma flow_samples_distinct:
  assumes "is_walk m start hs" and "length hs \<le> 25"
  shows "distinct (map series (flow_samples f (hs, b)))"
proof -
  have "inj_on (\<lambda>h. series (hop_sample f h)) (set hs)"
  proof (rule inj_onI)
    fix h h' assume h: "h \<in> set hs" "h' \<in> set hs" "series (hop_sample f h) = series (hop_sample f h')"
    have seqs: "th_seq ` set hs = {1 ..< Suc (length hs)}" "distinct (map th_seq hs)"
      using assms(1) by (simp_all add: is_walk_def del: upt_Suc flip: list.set_map)
    have "th_seq x < 26" if "x \<in> set hs" for x
      using imageI [OF that, of th_seq] assms(2) unfolding seqs(1) by simp
    then have "th_seq h < 26" "th_seq h' < 26" using h(1,2) by simp_all
    with h(3) have "th_seq h = th_seq h'" by (auto simp: series_def hop_sample_def dest: dec02_inj)
    with seqs(2) h show "h = h'" by (simp add: distinct_map inj_on_def)
  qed
  moreover have "distinct hs" using assms(1) by (metis is_walk_def distinct_map distinct_upt)
  ultimately have "distinct (map (\<lambda>h. series (hop_sample f h)) hs)" by (simp add: distinct_map)
  then show ?thesis by (auto simp: flow_samples_def comp_def series_def hop_sample_def Let_def)
qed

lemma distinct_concat_keyed:
  assumes "\<And>i. i < n \<Longrightarrow> distinct (f i)" and "\<And>i x. i < n \<Longrightarrow> x \<in> set (f i) \<Longrightarrow> key x = k i" and "inj_on k {..< n}"
  shows "distinct (concat (map f [0 ..< n]))"
  using assms
proof (induction n)
  case (Suc n)
  have "x \<notin> set (f n)" if "i < n" "x \<in> set (f i)" for i x
  proof
    assume "x \<in> set (f n)"
    with Suc.prems(2) [of n x] Suc.prems(2) [of i x] that have "k i = k n" by simp
    with inj_onD [OF Suc.prems(3), of i n] that show False by simp
  qed
  moreover have "distinct (concat (map f [0 ..< n]))"
    using Suc.prems by (intro Suc.IH) (auto simp: inj_on_def)
  ultimately show ?case using Suc.prems(1) [of n] by auto
qed simp

text \<open>
  Whatever the nodes answer, a refresh exposes no series twice when the flows have distinct
  names: no two samples agree in metric and labels, which the metrics format requires.
\<close>

theorem path_series_distinct:
  assumes "distinct (map fl_name fs)"
  shows "distinct (map series (path_render nodes net0 xs0 net order fs))"
proof -
  let ?m = "buildIP2Node nodes net0 xs0"
  let ?t = "\<lambda>i. trace_flow nodes (net i) (order i) ?m (fl_start (fs ! i)) (fl_dst (fs ! i))"
  let ?f = "\<lambda>i. map series (flow_samples (fs ! i) (?t i))"
  have "distinct (concat (map ?f [0 ..< length fs]))"
  proof (rule distinct_concat_keyed [where key = "\<lambda>s. snd (hd (snd s))" and k = "\<lambda>i. fl_name (fs ! i)"])
    fix i assume "i < length fs"
    obtain hs b where t: "?t i = (hs, b)" by (rule prod.exhaust)
    show "distinct (?f i)" unfolding t using flow_samples_distinct trace_flow_walk [OF t] by blast
  next
    fix i x assume "x \<in> set (?f i)"
    then show "snd (hd (snd x)) = fl_name (fs ! i)" by (auto simp: series_def dest!: flow_samples_flow)
  next
    show "inj_on (\<lambda>i. fl_name (fs ! i)) {..< length fs}"
      using assms by (auto simp: distinct_conv_nth inj_on_def)
  qed
  moreover have "x \<noteq> (''frr_pathtrace_up'', [])" if "x \<in> set (?f i)" for x i
    using that by (auto simp: series_def flow_samples_def hop_sample_def Let_def split: prod.splits)
  ultimately show ?thesis
    by (auto simp: path_render_def Let_def map_concat comp_def) (auto simp: series_def)
qed

definition ex_flows :: "flow list" where
  "ex_flows = [\<lparr>fl_name = ''a'', fl_start = ''ce1'', fl_dst = ''10.0.0.2''\<rparr>, \<lparr>fl_name = ''b'', fl_start = ''ce2'', fl_dst = ''10.0.0.1''\<rparr>]"

theorem path_series_distinct_witness:
  "distinct (map series (path_render Map.empty (\<lambda>_ _. None) [] (\<lambda>_ _ _ _. None) (\<lambda>_ _ _. []) ex_flows))"
  by (rule path_series_distinct) (simp add: ex_flows_def)

section \<open>When the destination is reached\<close>

text \<open>Forwarding between nodes that answer the same throughout, without the bookkeeping.\<close>

inductive forwards ::
  "(string \<Rightarrow> route_answer) \<Rightarrow> (string \<Rightarrow> string \<Rightarrow> mpls_answer) \<Rightarrow> ip2node \<Rightarrow>
   string \<times> string list \<Rightarrow> string \<times> string list \<Rightarrow> bool"
  for rl ml m where
  fw_ip: "rl n = (vrf, pfx, nh, []) \<Longrightarrow> nh \<noteq> [] \<or> pfx \<noteq> [] \<Longrightarrow> nodeOf m nh \<noteq> ''?'' \<Longrightarrow>
    forwards rl ml m (n, []) (nodeOf m nh, [])"
| fw_push: "rl n = (vrf, pfx, nh, labels) \<Longrightarrow> labels \<noteq> [] \<Longrightarrow> nodeOf m nh \<noteq> ''?'' \<Longrightarrow>
    forwards rl ml m (n, []) (nodeOf m nh, split_on CHR '','' labels)"
| fw_swap: "ml n lbl = (out, nh, iface) \<Longrightarrow> out \<noteq> [] \<Longrightarrow> nodeOf m nh \<noteq> ''?'' \<Longrightarrow>
    forwards rl ml m (n, lbl # rest) (nodeOf m nh, split_on CHR '','' out @ rest)"
| fw_php: "ml n lbl = ([], nh, iface) \<Longrightarrow> nh \<noteq> [] \<Longrightarrow> nodeOf m nh \<noteq> ''?'' \<Longrightarrow>
    forwards rl ml m (n, lbl # rest) (nodeOf m nh, rest)"
| fw_vrf: "ml n lbl = ([], [], iface) \<Longrightarrow> iface \<noteq> [] \<Longrightarrow> n \<noteq> ''?'' \<Longrightarrow>
    forwards rl ml m (n, lbl # rest) (n, rest)"

inductive_cases forwards_ipE: "forwards rl ml m (n, []) c"
inductive_cases forwards_mplsE: "forwards rl ml m (n, lbl # rest) c"

lemma forwards_fun: "forwards rl ml m c d \<Longrightarrow> forwards rl ml m c e \<Longrightarrow> d = e"
  by (induction rule: forwards.induct) (auto elim!: forwards_ipE forwards_mplsE)

definition config :: "walk \<Rightarrow> string \<times> string list" where
  "config s = (wk_node s, wk_stack s)"

lemma config_simps [simp]:
  "config (add_hop s k n l d) = config s" "config (move_to s n st) = (n, st)"
  by (simp_all add: config_def)

definition dest_of :: "ip2node \<Rightarrow> string \<Rightarrow> string \<times> string list" where
  "dest_of m dst = ((case m dst of Some n \<Rightarrow> n | None \<Rightarrow> []), [])"

lemma trace_turn_forwards:
  assumes "config s \<noteq> dest_of m dst"
  shows "case trace_turn rl ml m dst s of
      Inl s' \<Rightarrow> forwards rl ml m (config s) (config s')
    | Inr (hs, b) \<Rightarrow> \<not> b \<and> (\<forall>c. \<not> forwards rl ml m (config s) c)"
proof (cases "wk_stack s")
  case Nil
  with assms have "(case m dst of Some n \<Rightarrow> n | None \<Rightarrow> []) \<noteq> wk_node s"
    by (auto simp: config_def dest_of_def)
  moreover obtain vrf pfx nh labels where "rl (wk_node s) = (vrf, pfx, nh, labels)" by (metis prod.exhaust)
  ultimately show ?thesis using Nil
    by (auto simp: trace_turn_def trace_ip_def config_def Let_def intro: fw_ip fw_push elim!: forwards_ipE)
next
  case (Cons lbl rest)
  obtain out nh iface where "ml (wk_node s) lbl = (out, nh, iface)" by (metis prod.exhaust)
  with Cons show ?thesis
    by (auto simp: trace_turn_def trace_mpls_def config_def Let_def
        intro: fw_swap fw_php fw_vrf elim!: forwards_mplsE)
qed

lemma trace_turn_dest:
  "config s = dest_of m dst \<Longrightarrow> \<exists>hs. trace_turn rl ml m dst s = Inr (hs, True)"
  by (auto simp: trace_turn_def config_def dest_of_def)

lemma trace_loop_reached:
  "snd (trace_loop (\<lambda>_. rl) (\<lambda>_. ml) m dst k s) \<longleftrightarrow>
     (\<exists>j<k. (forwards rl ml m ^^ j) (config s) (dest_of m dst))"
proof (induction k arbitrary: s)
  case (Suc k)
  show ?case
  proof (cases "config s = dest_of m dst")
    case True
    then show ?thesis using trace_turn_dest [OF True, of rl ml] by (auto intro: exI [of _ 0])
  next
    case False
    note turn = trace_turn_forwards [OF False, of rl ml]
    have split: "(\<exists>j<Suc k. (forwards rl ml m ^^ j) (config s) (dest_of m dst)) \<longleftrightarrow>
        (\<exists>j<k. (forwards rl ml m ^^ Suc j) (config s) (dest_of m dst))"
      unfolding Ex_less_Suc2 using False by simp
    show ?thesis
    proof (cases "trace_turn rl ml m dst s")
      case (Inl s')
      with turn have fw: "forwards rl ml m (config s) (config s')" by simp
      have "(forwards rl ml m ^^ Suc j) (config s) c \<longleftrightarrow> (forwards rl ml m ^^ j) (config s') c" for j c
        using fw forwards_fun [OF fw] by (metis relpowp_Suc_D2 relpowp_Suc_I2)
      with Inl Suc.IH [of s'] show ?thesis by (simp only: split trace_loop.simps) simp
    next
      case (Inr r)
      with turn have "\<not> (forwards rl ml m ^^ Suc j) (config s) c" for j c
        by (metis (no_types, lifting) case_prod_beta relpowp_Suc_D2 sum.simps(6))
      with Inr turn show ?thesis by (simp only: split trace_loop.simps) (cases r, simp)
    qed
  qed
qed simp

lemma trace_reached:
  "snd (trace_with (\<lambda>_. rl) (\<lambda>_. ml) m start dst) \<longleftrightarrow>
     (\<exists>j<24. (forwards rl ml m ^^ j) (start, []) (dest_of m dst))"
  by (simp add: trace_with_def trace_loop_reached config_def)

text \<open>
  A flow counts as reached exactly when forwarding gets there: over a network whose nodes
  answer the same throughout, the tracer reports the destination reached if and only if the
  forwarding steps (IP lookup with or without a label push, swap, penultimate-hop pop, pop
  into a VRF) lead from the start with an empty stack to the destination's node with an empty
  stack in at most 23 steps.
\<close>

theorem trace_reached_iff:
  "snd (trace_with (\<lambda>_. rl) (\<lambda>_. ml) m start dst) \<longleftrightarrow>
     (\<exists>j<24. (forwards rl ml m ^^ j) (start, []) (dest_of m dst))"
  by (rule trace_reached)

section \<open>The longest match\<close>

text \<open>An entry's prefix length, when it is usable and contains the destination.\<close>

definition matching :: "ip \<Rightarrow> string \<times> aft_ent \<Rightarrow> nat option" where
  "matching di pe =
     (if en_nh (snd pe) = [] \<and> en_lbl (snd pe) = [] then None
      else case ParseCIDR (fst pe) of
        None \<Rightarrow> None
      | Some n \<Rightarrow> if Contains n di then Some (mask_ones (net_mask n)) else None)"

definition answer_of :: "string \<times> aft_ent \<Rightarrow> route_answer" where
  "answer_of pe = (en_vrf (snd pe), fst pe, en_nh (snd pe), en_lbl (snd pe))"

lemma lpm_step_matching:
  "lpm_step di (best, res) pe =
     (case matching di pe of
        None \<Rightarrow> (best, res)
      | Some k \<Rightarrow> if best < int k then (int k, answer_of pe) else (best, res))"
  by (cases pe) (auto simp: lpm_step_def matching_def answer_of_def Let_def split: option.split)

lemma lpm_fold:
  "case foldl (lpm_step di) (- 1, ([], [], [], [])) xs of (best, res) \<Rightarrow>
     (if \<forall>pe \<in> set xs. matching di pe = None then best = - 1 \<and> res = ([], [], [], [])
      else \<exists>pe \<in> set xs. matching di pe = Some (nat best) \<and> 0 \<le> best \<and> res = answer_of pe) \<and>
     (\<forall>pe \<in> set xs. \<forall>k. matching di pe = Some k \<longrightarrow> int k \<le> best)"
proof (induction xs rule: rev_induct)
  case (snoc x xs)
  obtain best res where r: "foldl (lpm_step di) (- 1, ([], [], [], [])) xs = (best, res)"
    by (rule prod.exhaust)
  with snoc show ?case
  proof (cases "matching di x")
    case None
    with snoc r show ?thesis by (auto simp: lpm_step_matching)
  next
    case (Some k)
    with snoc r show ?thesis
      by (cases "best < int k") (force simp: lpm_step_matching split: if_splits)+
  qed
qed simp

text \<open>A route as the FPM collector writes it into the AFT.\<close>

record aft_route =
  ar_vrf :: string
  ar_addr :: bytes
  ar_len :: nat
  ar_nh :: string
  ar_labels :: string

definition ar_prefix :: "aft_route \<Rightarrow> string" where
  "ar_prefix r = cidr (ar_addr r) (ar_len r)"

definition aft_leaves :: "aft_route \<Rightarrow> update list" where
  "aft_leaves r =
     \<lparr>u_path = aftPath (ar_vrf r) ''ipv4-unicast'' (ar_prefix r) ''next-hop'', u_val = strVal (ar_nh r)\<rparr> #
     (if ar_labels r = [] then []
      else [\<lparr>u_path = aftPath (ar_vrf r) ''ipv4-unicast'' (ar_prefix r) ''pushed-mpls-label-stack'',
             u_val = strVal (ar_labels r)\<rparr>])"

definition ok_aft_route :: "aft_route \<Rightarrow> bool" where
  "ok_aft_route r \<longleftrightarrow> length (ar_addr r) = 4 \<and> ar_len r \<le> 32 \<and> ar_nh r \<noteq> []"

definition covers :: "aft_route \<Rightarrow> ip \<Rightarrow> bool" where
  "covers r d \<longleftrightarrow> take (ar_len r) (addr_bits (ar_addr r)) = take (ar_len r) (addr_bits d)"

definition ent_of :: "aft_route \<Rightarrow> aft_ent" where
  "ent_of r = \<lparr>en_vrf = ar_vrf r, en_nh = ar_nh r, en_lbl = ar_labels r\<rparr>"

lemma dissect_aftPath:
  "dissect (aftPath vrf af p leaf) = ([''name'' \<mapsto> vrf, ''prefix'' \<mapsto> p], leaf)"
  by (simp add: dissect_def aftPath_def path_of_def dissect_elem_def)

lemma add_aft_leaf:
  assumes "p \<noteq> []"
  shows "add_aft m \<lparr>u_path = aftPath vrf af p ''next-hop'', u_val = v\<rparr> =
      m(p \<mapsto> (case m p of Some e \<Rightarrow> e | None \<Rightarrow> \<lparr>en_vrf = [], en_nh = [], en_lbl = []\<rparr>)
        \<lparr>en_nh := sval v, en_vrf := vrf\<rparr>)"
    and "add_aft m \<lparr>u_path = aftPath vrf af p ''pushed-mpls-label-stack'', u_val = v\<rparr> =
      m(p \<mapsto> (case m p of Some e \<Rightarrow> e | None \<Rightarrow> \<lparr>en_vrf = [], en_nh = [], en_lbl = []\<rparr>)\<lparr>en_lbl := sval v\<rparr>)"
  using assms by (simp_all add: add_aft_def dissect_aftPath kget_def Let_def)

lemma ar_prefix_nonempty [simp]: "ar_prefix r \<noteq> []"
  by (simp add: ar_prefix_def)

lemma sval_strVal [simp]: "sval (strVal s) = s"
  by (simp add: sval_def strVal_def)

lemma fold_aft_leaves:
  "m (ar_prefix r) = None \<Longrightarrow> foldl add_aft m (aft_leaves r) = m(ar_prefix r \<mapsto> ent_of r)"
  by (simp add: aft_leaves_def add_aft_leaf ent_of_def)

lemma byPfx_routes:
  "distinct (map ar_prefix rs) \<Longrightarrow>
   byPfx (concat (map aft_leaves rs)) = map_of (map (\<lambda>r. (ar_prefix r, ent_of r)) rs)"
proof -
  have "foldl add_aft m (concat (map aft_leaves rs)) = m ++ map_of (map (\<lambda>r. (ar_prefix r, ent_of r)) rs)"
    if "distinct (map ar_prefix rs)" "\<forall>r \<in> set rs. m (ar_prefix r) = None" for m
    using that
  proof (induction rs arbitrary: m)
    case (Cons r rs)
    let ?g = "map_of (map (\<lambda>r. (ar_prefix r, ent_of r)) rs)"
    from Cons.prems have new: "ar_prefix r \<notin> dom ?g" by (simp add: dom_map_of_conv_image_fst image_image)
    have none: "\<forall>q \<in> set rs. (m(ar_prefix r \<mapsto> ent_of r)) (ar_prefix q) = None"
      using Cons.prems by (auto simp: image_iff)
    have "distinct (map ar_prefix rs)" using Cons.prems(1) by simp
    from Cons.IH [OF this none]
    have "foldl add_aft (m(ar_prefix r \<mapsto> ent_of r)) (concat (map aft_leaves rs)) = m(ar_prefix r \<mapsto> ent_of r) ++ ?g" .
    also have "\<dots> = m ++ ?g(ar_prefix r \<mapsto> ent_of r)"
      by (simp only: map_add_upd map_add_upd_left [OF new])
    finally show ?case using Cons.prems(2) by (simp add: fold_aft_leaves flip: fun_upd_def)
  qed simp
  then show "distinct (map ar_prefix rs) \<Longrightarrow> ?thesis" by (simp add: byPfx_def)
qed

lemma matching_route:
  assumes "ok_aft_route r" and "length d = 4"
  shows "matching d (ar_prefix r, ent_of r) = (if covers r d then Some (ar_len r) else None)"
proof -
  have r: "length (ar_addr r) = 4" "ar_len r \<le> 32" "ar_nh r \<noteq> []" using assms(1) by (simp_all add: ok_aft_route_def)
  let ?net = "\<lparr>net_ip = and_bytes (ar_addr r) (CIDRMask (ar_len r) 32), net_mask = CIDRMask (ar_len r) 32\<rparr>"
  have p: "ParseCIDR (cidr (ar_addr r) (ar_len r)) = Some ?net" using r by (intro ParseCIDR_cidr)
  from Contains_cidr [OF r(1, 2) assms(2) p] p r(3) show ?thesis
    by (simp add: matching_def ar_prefix_def ent_of_def covers_def)
qed

text \<open>
  The tracer's route lookup is longest-prefix match: on a node whose AFT holds the leaves the
  FPM collector writes for IPv4 routes with distinct prefixes, the answer for an IPv4
  destination, whatever order the map is iterated in, is the VRF, prefix, next hop and label
  stack of a route that covers the destination such that no longer one does, and empty when no
  route covers it.
\<close>

theorem route_lookup_longest:
  assumes "\<forall>r \<in> set rs. ok_aft_route r" and "distinct (map ar_prefix rs)" and "length d = 4"
    and "enumerates xs (byPfx (concat (map aft_leaves rs)))"
  shows "if \<exists>r \<in> set rs. covers r d
    then \<exists>r \<in> set rs. covers r d \<and> (\<forall>q \<in> set rs. covers q d \<longrightarrow> ar_len q \<le> ar_len r) \<and>
      routeLookup xs (ip_string d) = (ar_vrf r, ar_prefix r, ar_nh r, ar_labels r)
    else routeLookup xs (ip_string d) = ([], [], [], [])"
proof -
  have "map_of xs = map_of (map (\<lambda>r. (ar_prefix r, ent_of r)) rs)" and "distinct (map fst xs)"
    using assms(4) by (simp_all add: enumerates_def byPfx_routes [OF assms(2)])
  moreover have "distinct (map fst (map (\<lambda>r. (ar_prefix r, ent_of r)) rs))"
    using assms(2) by (simp add: comp_def)
  ultimately have set: "set xs = (\<lambda>r. (ar_prefix r, ent_of r)) ` set rs"
    by (simp only: map_of_inject_set set_map)
  have di: "to4 (ParseIP (ip_string d)) = d" "d \<noteq> []"
    using assms(3) by (auto simp: ParseIP_dotted)
  obtain best res where fold: "foldl (lpm_step d) (- 1, ([], [], [], [])) xs = (best, res)"
    by (rule prod.exhaust)
  have look: "routeLookup xs (ip_string d) = res" by (simp add: routeLookup_def di fold)
  have m: "matching d (ar_prefix r, ent_of r) = (if covers r d then Some (ar_len r) else None)"
    if "r \<in> set rs" for r using that assms(1, 3) by (simp add: matching_route)
  note lpm = lpm_fold [where di = d and xs = xs, unfolded fold prod.case set]
  show ?thesis
  proof (cases "\<exists>r \<in> set rs. covers r d")
    case True
    with lpm m obtain r where r: "r \<in> set rs" "matching d (ar_prefix r, ent_of r) = Some (nat best)"
      "0 \<le> best" "res = answer_of (ar_prefix r, ent_of r)" by (auto split: if_splits)
    then have "covers r d" "ar_len r = nat best" using m by (auto split: if_splits)
    moreover have "ar_len q \<le> ar_len r" if "q \<in> set rs" "covers q d" for q
      using lpm m that calculation(2) r(3) by fastforce
    ultimately show ?thesis using True r look by (auto simp: answer_of_def ent_of_def)
  next
    case False
    with lpm m look show ?thesis by (auto split: if_splits)
  qed
qed

section \<open>Prefixes of several VRFs\<close>

text \<open>
  A prefix that two VRFs of a node share is looked up as a mixture of both routes: the wildcard
  of the request covers all network instances and the tracer files the leaves under the prefix
  alone, so that the VRF and next hop of one route come with the label stack of the other.
\<close>

theorem shared_prefix_mixes_vrfs:
  assumes "ok_aft_route a" and "ok_aft_route b" and "ar_prefix a = ar_prefix b"
    and "ar_labels a \<noteq> []" and "ar_labels b = []" and "length d = 4" and "covers b d"
    and "enumerates xs (byPfx (aft_leaves a @ aft_leaves b))"
  shows "routeLookup xs (ip_string d) = (ar_vrf b, ar_prefix b, ar_nh b, ar_labels a)"
proof -
  let ?e = "\<lparr>en_vrf = ar_vrf b, en_nh = ar_nh b, en_lbl = ar_labels a\<rparr>"
  have "byPfx (aft_leaves a @ aft_leaves b) = [ar_prefix b \<mapsto> ?e]"
    using assms(3-5) fold_aft_leaves [of Map.empty a]
    by (simp add: byPfx_def) (simp add: aft_leaves_def add_aft_leaf ent_of_def)
  then have "map_of xs = map_of [(ar_prefix b, ?e)]" "distinct (map fst xs)"
    using assms(8) by (simp_all add: enumerates_def)
  moreover have "distinct (map fst [(ar_prefix b, ?e)])" by simp
  ultimately have set: "set xs = {(ar_prefix b, ?e)}"
    by (metis empty_set list.simps(15) map_of_inject_set)
  have di: "to4 (ParseIP (ip_string d)) = d" "d \<noteq> []"
    using assms(6) by (auto simp: ParseIP_dotted)
  have "ok_aft_route (b\<lparr>ar_labels := ar_labels a\<rparr>)" using assms(2) by (simp add: ok_aft_route_def)
  from matching_route [OF this assms(6)] assms(7) have m: "matching d (ar_prefix b, ?e) = Some (ar_len b)"
    by (simp add: ent_of_def covers_def ar_prefix_def)
  obtain best res where fold: "foldl (lpm_step d) (- 1, ([], [], [], [])) xs = (best, res)"
    by (rule prod.exhaust)
  from lpm_fold [where di = d and xs = xs, unfolded fold prod.case set] m
  have "res = answer_of (ar_prefix b, ?e)" by auto
  then show ?thesis by (simp add: routeLookup_def di fold answer_of_def)
qed

section \<open>Witnesses\<close>

definition demo_aft :: "aft_route list" where
  "demo_aft =
     [\<lparr>ar_vrf = ''default'', ar_addr = [0, 0, 0, 0], ar_len = 0, ar_nh = ''192.0.2.1'', ar_labels = []\<rparr>,
      \<lparr>ar_vrf = ''cust'', ar_addr = [10, 0, 1, 0], ar_len = 24, ar_nh = ''192.0.2.9'', ar_labels = ''18,80''\<rparr>]"

definition demo_aft_order :: "(string \<times> aft_ent) list" where
  "demo_aft_order = map (\<lambda>r. (ar_prefix r, ent_of r)) demo_aft"

theorem route_lookup_longest_witness:
  "routeLookup demo_aft_order ''10.0.1.7'' = (''cust'', ''10.0.1.0/24'', ''192.0.2.9'', ''18,80'')"
proof -
  have ok: "\<forall>r \<in> set demo_aft. ok_aft_route r" by (simp add: demo_aft_def ok_aft_route_def)
  have dist: "distinct (map ar_prefix demo_aft)" by (simp add: demo_aft_def ar_prefix_def cidr_v4_inject)
  have "enumerates demo_aft_order (byPfx (concat (map aft_leaves demo_aft)))"
    using dist by (simp only: byPfx_routes enumerates_def demo_aft_order_def) (simp add: comp_def)
  from route_lookup_longest [OF ok dist _ this, of "[10, 0, 1, 7]"]
  have "\<exists>r \<in> set demo_aft. covers r [10, 0, 1, 7] \<and>
      (\<forall>q \<in> set demo_aft. covers q [10, 0, 1, 7] \<longrightarrow> ar_len q \<le> ar_len r) \<and>
      routeLookup demo_aft_order (ip_string [10, 0, 1, 7]) = (ar_vrf r, ar_prefix r, ar_nh r, ar_labels r)"
    by (simp add: demo_aft_def covers_def split: if_splits)
  moreover have "covers (demo_aft ! 1) [10, 0, 1, 7]"
    by (simp add: demo_aft_def covers_def bits_of_def upt_rec)
  moreover have "ip_string [10, 0, 1, 7] = ''10.0.1.7''" "ar_prefix (demo_aft ! 1) = ''10.0.1.0/24''"
    by (simp_all add: demo_aft_def ar_prefix_def cidr_def ip_string_v4 dotted_def udec_def dec.simps digit_def)
  ultimately show ?thesis by (auto simp: demo_aft_def)
qed

theorem shared_prefix_mixes_vrfs_witness:
  "routeLookup [(''10.0.1.0/24'', \<lparr>en_vrf = ''cust-b'', en_nh = ''192.0.2.2'', en_lbl = ''18,80''\<rparr>)] ''10.0.1.7'' =
     (''cust-b'', ''10.0.1.0/24'', ''192.0.2.2'', ''18,80'')"
proof -
  let ?a = "\<lparr>ar_vrf = ''cust-a'', ar_addr = [10, 0, 1, 0], ar_len = 24, ar_nh = ''192.0.2.9'', ar_labels = ''18,80''\<rparr>"
  let ?b = "\<lparr>ar_vrf = ''cust-b'', ar_addr = [10, 0, 1, 0], ar_len = 24, ar_nh = ''192.0.2.2'', ar_labels = []\<rparr>"
  have p: "ar_prefix ?a = ''10.0.1.0/24''" "ar_prefix ?b = ''10.0.1.0/24''" "ip_string [10, 0, 1, 7] = ''10.0.1.7''"
    by (simp_all add: ar_prefix_def cidr_def ip_string_v4 dotted_def udec_def dec.simps digit_def)
  have "enumerates [(''10.0.1.0/24'', \<lparr>en_vrf = ''cust-b'', en_nh = ''192.0.2.2'', en_lbl = ''18,80''\<rparr>)]
      (byPfx (aft_leaves ?a @ aft_leaves ?b))"
    using p fold_aft_leaves [of Map.empty ?a]
    by (simp add: byPfx_def enumerates_def) (simp add: aft_leaves_def add_aft_leaf ent_of_def)
  from shared_prefix_mixes_vrfs [OF _ _ _ _ _ _ _ this, of "[10, 0, 1, 7]"] p show ?thesis
    by (simp add: ok_aft_route_def covers_def bits_of_def upt_rec)
qed

end
