(* ===== verification/Serving.thy ===== *)
theory Serving
  imports Topology Pathtrace BmpIngest LldpIngest OspfIngest NetlinkIngest
begin

text \<open>
  The two ends of the gNMI interface together: what the ingesters write into the tree of a
  node is what the exporters' queries select and decode.  That a node answers a query with
  the leaves of its tree it selects is a hypothesis on the network, the contract of the gNMI
  interface; that the shim keeps it is shown where its Get is.
\<close>

section \<open>Queries\<close>

text \<open>A query element selects one of that name whose keys it leaves open or agrees on.\<close>

definition selects_elem :: "path_elem \<Rightarrow> path_elem \<Rightarrow> bool" where
  "selects_elem e f \<longleftrightarrow>
     pe_name e = pe_name f \<and>
     list_all (\<lambda>(k, v). v = ''*'' \<and> map_of (pe_key f) k \<noteq> None \<or> map_of (pe_key f) k = Some v) (pe_key e)"

fun selects :: "path_elem list \<Rightarrow> path_elem list \<Rightarrow> bool" where
  "selects [] p = True"
| "selects (e # q) [] = False"
| "selects (e # q) (f # p) = (selects_elem e f \<and> selects q p)"

text \<open>The queries of the two exporters.\<close>

definition exporter_query :: "gpath \<Rightarrow> bool" where
  "exporter_query q \<longleftrightarrow>
     q \<in> {lldpPath, ospfPath, bgpPath, topo_lfibPath, fdbPath, addrPath, trace_aftPath} \<union> range lfibPath"

lemma exporter_queries [simp]:
  "exporter_query lldpPath" "exporter_query ospfPath" "exporter_query bgpPath" "exporter_query topo_lfibPath"
  "exporter_query fdbPath" "exporter_query addrPath" "exporter_query trace_aftPath" "exporter_query (lfibPath label)"
  by (simp_all add: exporter_query_def)

text \<open>The address answers each of them with the leaves of the tree it selects.\<close>

definition serves :: "network \<Rightarrow> string \<Rightarrow> tree \<Rightarrow> bool" where
  "serves net a t \<longleftrightarrow>
     (\<forall>q. exporter_query q \<longrightarrow> (\<exists>ns. net a q = Some ns \<and>
        (\<lambda>u. (gp_elem (u_path u), u_val u)) ` set (concat (map n_update ns)) =
          {(p, v). selects (gp_elem q) p \<and> t (gp_origin q, p) = Some v}))"

lemma served_set:
  assumes "serves net a t" and "client_addr nodes n = Some a" and "exporter_query q"
  shows "(\<lambda>u. (gp_elem (u_path u), u_val u)) ` set (gnmi_get nodes net n q) =
    {(p, v). selects (gp_elem q) p \<and> t (gp_origin q, p) = Some v}"
proof -
  from assms(1, 3) obtain ns where ns: "net a q = Some ns" and
    us: "(\<lambda>u. (gp_elem (u_path u), u_val u)) ` set (concat (map n_update ns)) =
      {(p, v). selects (gp_elem q) p \<and> t (gp_origin q, p) = Some v}"
    unfolding serves_def by blast
  have "gnmi_get nodes net n q = concat (map n_update ns)" using ns assms(2) by (simp add: gnmi_get_def)
  with us show ?thesis by (simp only:)
qed

lemma served:
  assumes "serves net a t" and "client_addr nodes n = Some a" and "exporter_query q"
    and "selects (gp_elem q) p" and "t (gp_origin q, p) = Some v"
  shows "\<exists>u \<in> set (gnmi_get nodes net n q). gp_elem (u_path u) = p \<and> u_val u = v"
proof -
  have "(p, v) \<in> (\<lambda>u. (gp_elem (u_path u), u_val u)) ` set (gnmi_get nodes net n q)"
    unfolding served_set [OF assms(1-3)] using assms(4, 5) by simp
  then show ?thesis by auto
qed

section \<open>Paths\<close>

lemma origins [simp]:
  "gp_origin lldpPath = ''openconfig''" "gp_origin ospfPath = ''openconfig''"
  "gp_origin bgpPath = ''openconfig''" "gp_origin addrPath = ''openconfig''"
  by (simp_all add: lldpPath_def ospfPath_def bgpPath_def addrPath_def oc_path_def)

lemma lldp_selects: "selects (gp_elem lldpPath) (lldpElems ifn i ''system-name'')"
  by (simp add: lldpPath_def oc_path_def lldpElems_def with_leaf_def selects_elem_def)

lemma ospf_selects: "selects (gp_elem ospfPath) (ospfNbrElems ifn rid ''adjacency-state'')"
  by (simp add: ospfPath_def oc_path_def ospfNbrElems_def with_leaf_def selects_elem_def)

lemma bgp_selects: "selects (gp_elem bgpPath) (neighborElems vrf ip ''session-state'')"
  by (simp add: bgpPath_def oc_path_def neighborElems_def selects_elem_def)

lemma addr_selects: "selects (gp_elem addrPath) (addrElems ifn ip ''ip'')"
  by (simp add: addrPath_def oc_path_def addrElems_def with_leaf_def selects_elem_def)

lemma ospf_keys: "gp_elem p = ospfNbrElems ifn rid ''adjacency-state'' \<Longrightarrow>
    kget (fst (dissect p)) ''id'' = ifn \<and> kget (fst (dissect p)) ''router-id'' = rid"
  by (simp add: dissect_def dissect_elem_def ospfNbrElems_def with_leaf_def kget_def)

lemma bgp_keys: "gp_elem p = neighborElems vrf ip ''session-state'' \<Longrightarrow>
    kget (fst (dissect p)) ''neighbor-address'' = ip"
  by (simp add: dissect_def dissect_elem_def neighborElems_def kget_def)

lemma addr_keys: "gp_elem p = addrElems ifn ip ''ip'' \<Longrightarrow> kget (fst (dissect p)) ''ip'' = ip"
  by (simp add: dissect_def dissect_elem_def addrElems_def with_leaf_def kget_def)

lemma bgp_niName: "gp_elem p = neighborElems vrf ip ''session-state'' \<Longrightarrow> niName p = vrf"
  by (simp add: niName_def neighborElems_def kget_def)

section \<open>Adjacencies\<close>

text \<open>An address the exporters map: the node's tree has it, and it is no loopback or management one.\<close>

definition owns :: "tree \<Rightarrow> string \<Rightarrow> bool" where
  "owns t ip \<longleftrightarrow> (\<exists>ifn v. t (''openconfig'', addrElems ifn ip ''ip'') = Some v) \<and>
     ip \<noteq> [] \<and> \<not> has_prefix ip ''127.'' \<and> \<not> has_prefix ip ''172.31.''"

text \<open>What the trees of two nodes say of them: a neighbour, an adjacency or a session.\<close>

inductive adjacent :: "(string \<Rightarrow> tree) \<Rightarrow> string \<Rightarrow> string \<Rightarrow> string \<Rightarrow> bool" for trees where
  adj_physical: "trees a (''openconfig'', lldpElems ifn i ''system-name'') = Some (StringVal b) \<Longrightarrow>
    adjacent trees ''physical'' a b"
| adj_ospf: "trees a (''openconfig'', ospfNbrElems (a @ ''-'' @ b) rid ''adjacency-state'') = Some (StringVal ''FULL'') \<Longrightarrow>
    b \<noteq> [] \<Longrightarrow> CHR ''-'' \<notin> set a \<Longrightarrow> CHR ''-'' \<notin> set b \<Longrightarrow> adjacent trees ''ospf'' a b"
| adj_bgp: "trees a (''openconfig'', neighborElems vrf ip ''session-state'') = Some (StringVal ''ESTABLISHED'') \<Longrightarrow>
    owns (trees b) ip \<Longrightarrow> adjacent trees ''bgp'' a b"

text \<open>Every node is reachable and serves its tree.\<close>

definition all_served :: "inventory \<Rightarrow> network \<Rightarrow> (string \<Rightarrow> tree) \<Rightarrow> bool" where
  "all_served nodes net trees \<longleftrightarrow>
     (\<forall>n \<in> dom nodes. \<exists>a. client_addr nodes n = Some a \<and> serves net a (trees n))"

lemma served_node:
  assumes "all_served nodes net trees" and "n \<in> dom nodes" and "exporter_query q"
    and "selects (gp_elem q) p" and "trees n (gp_origin q, p) = Some v"
  shows "\<exists>u \<in> set (gnmi_get nodes net n q). gp_elem (u_path u) = p \<and> u_val u = v"
proof -
  from assms(1, 2) obtain a where "client_addr nodes n = Some a" "serves net a (trees n)"
    by (auto simp: all_served_def)
  then show ?thesis using served assms(3-5) by blast
qed

lemma owns_addrs:
  assumes "all_served nodes net trees" and "n \<in> dom nodes" and "owns (trees n) ip"
  shows "ip \<in> node_addrs nodes net n"
proof -
  from assms(3) obtain ifn v where "trees n (gp_origin addrPath, addrElems ifn ip ''ip'') = Some v" by (auto simp: owns_def)
  from served_node [OF assms(1, 2) exporter_queries(6) addr_selects this] obtain u where
    "u \<in> set (gnmi_get nodes net n addrPath)" "gp_elem (u_path u) = addrElems ifn ip ''ip''" by blast
  with addr_keys assms(3) show ?thesis by (auto simp: node_addrs_def owns_def)
qed

lemma ifacePeer_name:
  assumes "CHR ''-'' \<notin> set a" and "CHR ''-'' \<notin> set b" and "a \<noteq> b" and "b \<noteq> []"
  shows "ifacePeer (a @ ''-'' @ b) a = b"
  using assms by (simp add: ifacePeer_def split_on_sep split_on_no_sep)

text \<open>The calls an adjacency gives rise to.\<close>

lemma adjacent_call:
  assumes "adjacent trees layer a b" and "all_served nodes net trees" and "a \<in> dom nodes" and "b \<in> dom nodes"
    and "a \<noteq> b" and "\<And>ip. owns (trees b) ip \<Longrightarrow> kget m ip = b"
  shows "\<exists>d. Edge layer a b d \<in> set (node_calls nodes net m order a)"
  using assms(1)
proof cases
  case (adj_physical ifn i)
  from served_node [OF assms(2, 3) exporter_queries(1) lldp_selects, of ifn i "StringVal b"] adj_physical(2)
  obtain u where "u \<in> set (gnmi_get nodes net a lldpPath)" "u_val u = StringVal b" by auto
  then have "Edge ''physical'' a b ''lldp'' \<in> set (lldp_calls a (gnmi_get nodes net a lldpPath))"
    by (force simp: lldp_calls_def sval_def)
  with adj_physical(1) show ?thesis by (auto simp: node_calls_def)
next
  case (adj_ospf rid)
  from served_node [OF assms(2, 3) exporter_queries(2) ospf_selects, of "a @ ''-'' @ b" rid "StringVal ''FULL''"] adj_ospf(2)
  obtain u where u: "u \<in> set (gnmi_get nodes net a ospfPath)" "u_val u = StringVal ''FULL''"
    "gp_elem (u_path u) = ospfNbrElems (a @ ''-'' @ b) rid ''adjacency-state''" by auto
  have "Edge ''ospf'' a b ''area'' \<in> set (ospf_calls m a (gnmi_get nodes net a ospfPath))"
    using u ospf_keys [OF u(3)] ifacePeer_name [OF adj_ospf(4, 5) assms(5) adj_ospf(3)] adj_ospf(3)
    by (force simp: ospf_calls_def sval_def equal_fold_def Let_def)
  with adj_ospf(1) show ?thesis by (auto simp: node_calls_def)
next
  case (adj_bgp vrf ip)
  from served_node [OF assms(2, 3) exporter_queries(3) bgp_selects, of vrf ip "StringVal ''ESTABLISHED''"] adj_bgp(2)
  obtain u where u: "u \<in> set (gnmi_get nodes net a bgpPath)" "u_val u = StringVal ''ESTABLISHED''"
    "gp_elem (u_path u) = neighborElems vrf ip ''session-state''" by auto
  have "Edge ''bgp'' a b (''vrf='' @ vrf) \<in> set (bgp_calls m a (gnmi_get nodes net a bgpPath))"
    using u bgp_keys [OF u(3)] bgp_niName [OF u(3)] assms(6) [OF adj_bgp(3)]
    by (force simp: bgp_calls_def sval_def equal_fold_def Let_def)
  with adj_bgp(1) show ?thesis by (auto simp: node_calls_def)
qed

lemma kept_edge_exists: "e \<in> set es \<Longrightarrow> kept_edge es (e_key e) \<noteq> None"
proof -
  assume "e \<in> set es"
  then have "find (\<lambda>f. e_key f = e_key e) (rev es) \<noteq> None" by (auto simp: find_None_iff)
  then show ?thesis by (simp add: kept_edge_def split: option.split)
qed


section \<open>Witness\<close>

text \<open>The server over a tree given by the list of its leaves.\<close>

definition serve_list :: "((string \<times> path_elem list) \<times> typed_value) list \<Rightarrow> gpath \<Rightarrow> notification list" where
  "serve_list l q =
     [\<lparr>n_timestamp = 0, n_prefix = path_of [],
       n_update = map (\<lambda>((org, p), v). \<lparr>u_path = path_of p, u_val = v\<rparr>)
         (filter (\<lambda>((org, p), v). org = gp_origin q \<and> selects (gp_elem q) p) l), n_delete = []\<rparr>]"

lemma serves_list:
  assumes "distinct (map fst l)" and "\<And>q. net a q = Some (serve_list l q)"
  shows "serves net a (map_of l)"
  unfolding serves_def assms(2) using map_of_eq_Some_iff [OF assms(1)]
  by (force simp: serve_list_def image_iff)

definition pe1_leaves :: "((string \<times> path_elem list) \<times> typed_value) list" where
  "pe1_leaves =
     [((''openconfig'', neighborElems ''cust'' ''10.0.0.2'' ''session-state''), StringVal ''ESTABLISHED'')]"

definition ce1_leaves :: "((string \<times> path_elem list) \<times> typed_value) list" where
  "ce1_leaves = [((''openconfig'', addrElems ''ce1-pe1'' ''10.0.0.2'' ''ip''), StringVal ''10.0.0.2'')]"

definition served_nodes :: inventory where
  "served_nodes = [''pe1'' \<mapsto> ''m1'', ''ce1'' \<mapsto> ''m2'']"

definition served_net :: network where
  "served_net a q =
     Some (serve_list (if a = ''m1:9339'' then pe1_leaves else if a = ''m2:9339'' then ce1_leaves else []) q)"

definition served_trees :: "string \<Rightarrow> tree" where
  "served_trees n = (if n = ''pe1'' then map_of pe1_leaves else map_of ce1_leaves)"

lemma served_addrs: "node_addrs served_nodes served_net n \<subseteq> (if n = ''ce1'' then {''10.0.0.2''} else {})"
proof -
  have "\<not> selects (gp_elem addrPath) (neighborElems ''cust'' ''10.0.0.2'' ''session-state'')"
    by (simp add: addrPath_def oc_path_def neighborElems_def selects_elem_def)
  then show ?thesis
    using addr_keys [of _ "''ce1-pe1''" "''10.0.0.2''"]
    by (auto simp: node_addrs_def gnmi_get_def client_addr_def served_nodes_def served_net_def serve_list_def
        pe1_leaves_def ce1_leaves_def contains_str_def Let_def split: if_splits option.splits)
qed


end
