(* ===== verification/ServedGet.thy ===== *)
theory ServedGet
  imports GnmiServer IndexPath Serving Shim
begin

text \<open>
  The shim's end of a Get: given what the OpenConfig library documents of
  \<^verbatim>\<open>path.CompletePath\<close> and \<^verbatim>\<open>cache.Query\<close>, the server answers each query
  of the two exporters with exactly the leaves of its tree that the query selects, so that
  the contract \<open>serves\<close> of the exporters' theories is one the program keeps.
\<close>

section \<open>The library\<close>

text \<open>\<^verbatim>\<open>CompletePath\<close> of a path without a prefix: its index strings.\<close>

definition completes :: "(gpath option \<Rightarrow> gpath \<Rightarrow> string list + string) \<Rightarrow> bool" where
  "completes complete \<longleftrightarrow> (\<forall>p. complete None p = Inl (index_of (gp_origin p) (gp_elem p)))"

text \<open>
  \<^verbatim>\<open>Query\<close> visits the notifications of the leaves of the target that match, in any
  order; a query that matches none is no error.
\<close>

definition note_leaves :: "notification list \<Rightarrow> ((string \<times> path_elem list) \<times> typed_value) set" where
  "note_leaves ns =
     {((gp_origin (n_prefix n), gp_elem (u_path u)), u_val u) |n u. n \<in> set ns \<and> u \<in> set (n_update n)}"

definition visits :: "(string \<Rightarrow> string list \<Rightarrow> 'v leaf list \<times> string option) \<Rightarrow> string \<Rightarrow> tree \<Rightarrow> bool" where
  "visits query target t \<longleftrightarrow>
     (\<forall>q. \<exists>vs. query target q = (vs, None) \<and>
        note_leaves (notifs_of vs) = {((org, p), v). t (org, p) = Some v \<and> glob q (index_of org p)})"

section \<open>Index strings and paths\<close>

text \<open>
  For the leaves the planes write and the queries the exporters send, matching index strings
  is selecting paths.
\<close>

lemmas query_defs = lldpPath_def ospfPath_def bgpPath_def topo_lfibPath_def fdbPath_def addrPath_def
  trace_aftPath_def lfibPath_def oc_path_def

lemmas leaf_defs = aftPath_def neighborElems_def vpnRouteElems_def evpnRouteElems_def ospfNbrElems_def
  lldpElems_def ifaceElems_def counterUpdate_def fdbElems_def addrElems_def mplsElems_def routeElems_def
  hostUpdate_def with_leaf_def path_of_def

lemma glob_selects_topology:
  assumes "schema c org p v" and "q \<in> {lldpPath, ospfPath, bgpPath, topo_lfibPath, fdbPath}"
  shows "glob (index_of (gp_origin q) (gp_elem q)) (index_of org p) \<longleftrightarrow> org = gp_origin q \<and> selects (gp_elem q) p"
  using assms(2)
  by (elim insertE emptyE; hypsubst; cases rule: schema.cases [OF assms(1)])
    (simp_all add: query_defs leaf_defs selects_elem_def)

lemma glob_selects_tables:
  assumes "schema c org p v" and "q \<in> {addrPath, trace_aftPath} \<union> range lfibPath"
  shows "glob (index_of (gp_origin q) (gp_elem q)) (index_of org p) \<longleftrightarrow> org = gp_origin q \<and> selects (gp_elem q) p"
  using assms(2)
  by (elim UnE insertE emptyE rangeE; hypsubst; cases rule: schema.cases [OF assms(1)])
    (auto simp: query_defs leaf_defs selects_elem_def)

lemma glob_selects:
  assumes "schema c org p v" and "exporter_query q"
  shows "glob (index_of (gp_origin q) (gp_elem q)) (index_of org p) \<longleftrightarrow> org = gp_origin q \<and> selects (gp_elem q) p"
proof -
  from assms(2) consider "q \<in> {lldpPath, ospfPath, bgpPath, topo_lfibPath, fdbPath}"
    | "q \<in> {addrPath, trace_aftPath} \<union> range lfibPath" unfolding exporter_query_def by blast
  then show ?thesis using glob_selects_topology [OF assms(1)] glob_selects_tables [OF assms(1)] by cases blast+
qed

text \<open>
  The path of a leaf, read off its index strings; whatever follows them does not matter, so
  that no leaf of the schema is filed at or below another.
\<close>

definition unindex :: "string list \<Rightarrow> path_elem list" where
  "unindex xs =
     (let x = nth xs in
      if x 0 = ''host'' then gp_elem (u_path (hostUpdate (x 2) (x 4) 0))
      else if x 0 = ''frr'' then
        (if x 1 = ''mpls'' then [el ''mpls'', el ''lfib'', elk ''entry'' [(''label'', x 4)], el ''state'', el (x 6)]
         else if x 1 = ''kernel-fib'' then routeElems (x 4) (x 5) (x 7)
         else if x 4 = ''l2vpn-evpn'' then evpnRouteElems (x 8) (x 9) (x 7) (x 11)
         else vpnRouteElems (x 8) (x 7) (x 10))
      else if x 1 = ''lldp'' then lldpElems (x 4) (x 7) (x 9)
      else if x 1 = ''interfaces'' then
        (if x 4 = ''subinterfaces'' then addrElems (x 3) (x 10) (x 12)
         else if x 5 = ''counters'' then gp_elem (u_path (counterUpdate (x 3) (x 6) 0))
         else ifaceElems (x 3) (x 5))
      else if x 4 = ''afts'' then gp_elem (aftPath (x 3) (x 5) (x 7) (x 9))
      else if x 4 = ''fdb'' then fdbElems (x 8) (x 9) (x 11)
      else if x 8 = ''bgp'' then neighborElems (x 3) (x 11) (x 13)
      else ospfNbrElems (x 14) (x 17) (x 19))"

lemma unindex_index:
  assumes "schema c org p v"
  shows "unindex (index_of org p @ r) = p"
  using assms
  by (cases rule: schema.cases) (auto simp: unindex_def Let_def leaf_defs lldp_names_def index_elem_def)

lemma index_origin: "schema c org p v \<Longrightarrow> index_of org p \<noteq> [] \<and> hd (index_of org p) = org"
  by (cases rule: schema.cases) auto

lemma index_free:
  assumes "schema c org p v" and "schema c' org' p' v'" and "index_of org' p' = index_of org p @ r"
  shows "org = org' \<and> p = p'"
proof -
  have "unindex (index_of org' p' @ []) = unindex (index_of org p @ r)" using assms(3) by simp
  moreover have "hd (index_of org' p') = hd (index_of org p)" using assms(3) index_origin [OF assms(1)] by simp
  ultimately show ?thesis
    using unindex_index [OF assms(1)] unindex_index [OF assms(2)] index_origin [OF assms(1)] index_origin [OF assms(2)]
    by metis
qed

section \<open>Get\<close>

text \<open>What a Get to the shim returns: a request for one path, without a prefix.\<close>

definition shim_answer ::
  "(gpath option \<Rightarrow> gpath \<Rightarrow> string list + string) \<Rightarrow>
   (string \<Rightarrow> string list \<Rightarrow> 'v leaf list \<times> string option) \<Rightarrow> string \<Rightarrow> gpath \<Rightarrow> notification list option" where
  "shim_answer complete query target q =
     (case Get complete query target None [q] of Inl ns \<Rightarrow> Some ns | Inr _ \<Rightarrow> None)"

lemma shim_answer_leaves:
  assumes "completes complete" and "visits query target t"
  shows "\<exists>ns. shim_answer complete query target q = Some ns \<and>
    note_leaves ns = {((org, p), v). t (org, p) = Some v \<and> glob (index_of (gp_origin q) (gp_elem q)) (index_of org p)}"
proof -
  from assms(2) obtain vs where "query target (index_of (gp_origin q) (gp_elem q)) = (vs, None)"
    "note_leaves (notifs_of vs) = {((org, p), v). t (org, p) = Some v \<and> glob (index_of (gp_origin q) (gp_elem q)) (index_of org p)}"
    unfolding visits_def by blast
  with assms(1) show ?thesis by (simp add: shim_answer_def Get_def completes_def)
qed

lemma get_serves:
  assumes "completes complete" and "visits query target t" and "typed_tree t"
    and "\<And>q. net a q = shim_answer complete query target q"
  shows "serves net a t"
  unfolding serves_def
proof (intro allI impI)
  fix q assume q: "exporter_query q"
  obtain ns where ns: "shim_answer complete query target q = Some ns" and
    leaves: "note_leaves ns = {((org, p), v). t (org, p) = Some v \<and> glob (index_of (gp_origin q) (gp_elem q)) (index_of org p)}"
    using shim_answer_leaves [OF assms(1, 2)] by blast
  have sel: "note_leaves ns = {((org, p), v). org = gp_origin q \<and> t (org, p) = Some v \<and> selects (gp_elem q) p}"
    unfolding leaves using assms(3) glob_selects [OF _ q] unfolding typed_tree_def by blast
  have "(\<lambda>u. (gp_elem (u_path u), u_val u)) ` set (concat (map n_update ns)) = (\<lambda>((org, p), v). (p, v)) ` note_leaves ns"
    by (force simp: note_leaves_def)
  also have "\<dots> = {(p, v). selects (gp_elem q) p \<and> t (gp_origin q, p) = Some v}" unfolding sel by force
  finally show "\<exists>ns. net a q = Some ns \<and> (\<lambda>u. (gp_elem (u_path u), u_val u)) ` set (concat (map n_update ns)) =
      {(p, v). selects (gp_elem q) p \<and> t (gp_origin q, p) = Some v}"
    using ns assms(4) by (intro exI [of _ ns]) simp
qed

text \<open>
  C7. Over a running shim, in whatever state, the shim's Get answers each query of the exporters
  with exactly the leaves of its tree that the query selects, and never with an error.
\<close>

theorem get_serves_tree:
  assumes "node_run (node_start name t0 fl bl su) ls s"
    and "completes complete" and "visits query target (s_tree (nd_shim s))" and "exporter_query q"
  shows "\<exists>ns. Get complete query target None [q] = Inl ns \<and>
    (\<lambda>u. (gp_elem (u_path u), u_val u)) ` set (concat (map n_update ns)) =
      {(p, v). selects (gp_elem q) p \<and> s_tree (nd_shim s) (gp_origin q, p) = Some v}"
proof -
  have "serves (\<lambda>_. shim_answer complete query target) a (s_tree (nd_shim s))" for a
    by (rule get_serves [OF assms(2, 3) run_typed [OF assms(1)]]) (rule refl)
  with assms(4) obtain ns where ns: "shim_answer complete query target q = Some ns"
    "(\<lambda>u. (gp_elem (u_path u), u_val u)) ` set (concat (map n_update ns)) =
      {(p, v). selects (gp_elem q) p \<and> s_tree (nd_shim s) (gp_origin q, p) = Some v}"
    unfolding serves_def by blast
  from ns(1) have "Get complete query target None [q] = Inl ns" by (simp add: shim_answer_def split: sum.splits)
  with ns(2) show ?thesis by blast
qed

text \<open>
  C12. The leaves the planes write never get in each other's way in the cache, which files a leaf
  under its index strings and refuses one at or below another: of any two leaves that shims
  hold, at whatever times, the one's index strings do not begin with the other's.
\<close>

theorem leaves_never_clash:
  assumes "node_run (node_start name t0 fl bl su) ls s" and "node_run (node_start name' t0' fl' bl' su') ls' s'"
    and "s_tree (nd_shim s) (org, p) = Some v" and "s_tree (nd_shim s') (org', p') = Some v'"
    and "index_of org' p' = index_of org p @ r"
  shows "org = org' \<and> p = p'"
  using run_typed [OF assms(1)] run_typed [OF assms(2)] assms(3, 4) index_free [OF _ _ assms(5)]
  unfolding typed_tree_def by blast

section \<open>Nodes\<close>

text \<open>Every node of the inventory is reachable, and its shim answers over its tree.\<close>

definition shims_serve ::
  "(gpath option \<Rightarrow> gpath \<Rightarrow> string list + string) \<Rightarrow>
   (string \<Rightarrow> string \<Rightarrow> string list \<Rightarrow> 'v leaf list \<times> string option) \<Rightarrow> (string \<Rightarrow> string) \<Rightarrow>
   inventory \<Rightarrow> network \<Rightarrow> (string \<Rightarrow> tree) \<Rightarrow> bool" where
  "shims_serve complete query target nodes net trees \<longleftrightarrow>
     (\<forall>n \<in> dom nodes. \<exists>a. client_addr nodes n = Some a \<and> visits (query n) (target n) (trees n) \<and>
        (\<forall>q. net a q = shim_answer complete (query n) (target n) q))"

lemma shims_all_served:
  assumes "completes complete" and "shims_serve complete query target nodes net trees"
    and "\<And>n. n \<in> dom nodes \<Longrightarrow> typed_tree (trees n)"
  shows "all_served nodes net trees"
  unfolding all_served_def
proof
  fix n assume n: "n \<in> dom nodes"
  with assms(2) obtain a where a: "client_addr nodes n = Some a" "visits (query n) (target n) (trees n)"
    "\<forall>q. net a q = shim_answer complete (query n) (target n) q" unfolding shims_serve_def by blast
  from get_serves [OF assms(1) a(2) assms(3) [OF n], of net a] a(3) have "serves net a (trees n)" by simp
  with a(1) show "\<exists>a. client_addr nodes n = Some a \<and> serves net a (trees n)" by blast
qed

section \<open>Witnesses\<close>

text \<open>The tree of a running shim is finite, so a server can list it.\<close>

lemma finite_put_tree: "finite (dom t) \<Longrightarrow> finite (dom (put_tree org us ds t))"
proof -
  assume t: "finite (dom t)"
  have "dom (put_tree org us ds t) \<subseteq> dom t \<union> (\<lambda>u. (org, gp_elem (u_path u))) ` set us"
    by (auto dest!: put_tree_some)
  then show ?thesis by (rule finite_subset) (simp add: t)
qed

lemma run_finite:
  assumes "node_run (node_start target t0 fl bl su) ls s"
  shows "finite (dom (s_tree (nd_shim s)))"
  using assms
proof (induction rule: node_run.induct)
  case run_nil
  show ?case by (simp add: node_start_def shim_start_def)
next
  case (run_snoc ls s l s')
  then show ?case
    by (simp add: step_tree tree_label_def tree_effect_def finite_put_tree split: label.split effect.split)
qed

text \<open>A library over the list of a tree's leaves.\<close>

definition complete_index :: "gpath option \<Rightarrow> gpath \<Rightarrow> string list + string" where
  "complete_index pre p = Inl (index_of (gp_origin p) (gp_elem p))"

definition query_list ::
  "((string \<times> path_elem list) \<times> typed_value) list \<Rightarrow> string \<Rightarrow> string list \<Rightarrow> unit leaf list \<times> string option" where
  "query_list l target q =
     (OtherLeaf () # map (\<lambda>((org, p), v). NotifLeaf (notification_of target 0 org [\<lparr>u_path = path_of p, u_val = v\<rparr>] []))
        (filter (\<lambda>((org, p), v). glob q (index_of org p)) l), None)"

lemma completes_index: "completes complete_index"
  by (simp add: completes_def complete_index_def)

lemma visits_list:
  assumes "enumerates l t"
  shows "visits (query_list l) target t"
  unfolding visits_def
proof
  fix q
  have mem: "((org, p), v) \<in> set l \<longleftrightarrow> t (org, p) = Some v" for org p v
    using enumerates_lookup [OF assms] by simp
  have "note_leaves (notifs_of (fst (query_list l target q))) =
      {((org, p), v). ((org, p), v) \<in> set l \<and> glob q (index_of org p)}"
    by (force simp: query_list_def notifs_of_def note_leaves_def notification_of_def comp_def split_beta)
  then show "\<exists>vs. query_list l target q = (vs, None) \<and>
      note_leaves (notifs_of vs) = {((org, p), v). t (org, p) = Some v \<and> glob q (index_of org p)}"
    unfolding mem by (intro exI [of _ "fst (query_list l target q)"]) (simp add: query_list_def)
qed

theorem get_serves_tree_witness:
  "\<exists>ls s l ns. node_run demo_node ls s \<and> s_tree (nd_shim s) (''openconfig'', demo_path) \<noteq> None \<and>
     Get complete_index (query_list l) ''frr'' None [trace_aftPath] = Inl ns \<and>
     (\<lambda>u. (gp_elem (u_path u), u_val u)) ` set (concat (map n_update ns)) =
       {(p, v). selects (gp_elem trace_aftPath) p \<and> s_tree (nd_shim s) (gp_origin trace_aftPath, p) = Some v}"
proof -
  obtain ls s where run: "node_run demo_node ls s" and leaf: "s_tree (nd_shim s) (''openconfig'', demo_path) \<noteq> None"
    using demo_leaf by force
  obtain l where "enumerates l (s_tree (nd_shim s))" using enumerable [OF run_finite [OF run]] by blast
  from get_serves_tree [OF run completes_index visits_list [OF this] exporter_queries(7)] run leaf show ?thesis by blast
qed

theorem leaves_never_clash_witness:
  "\<exists>ls s. node_run demo_node ls s \<and> s_tree (nd_shim s) (''openconfig'', demo_path) \<noteq> None \<and>
     s_tree (nd_shim s) (''openconfig'', demo_label_path) \<noteq> None \<and>
     (\<nexists>r. index_of ''openconfig'' demo_label_path = index_of ''openconfig'' demo_path @ r)"
proof -
  obtain ls s where run: "node_run demo_node ls s"
    and leaves: "s_tree (nd_shim s) (''openconfig'', demo_path) = Some (StringVal (ip_string [192, 0, 2, 1]))"
      "s_tree (nd_shim s) (''openconfig'', demo_label_path) = Some (StringVal ''18'')"
    using demo_leaves by blast
  have "demo_path \<noteq> demo_label_path" by (simp add: aftPath_def)
  with leaves_never_clash [OF run run leaves] run leaves show ?thesis by blast
qed

end
