(* ===== verification/ServedFib.thy ===== *)
theory ServedFib
  imports Serving Pathtrace FpmSpec
begin

text \<open>
  From zebra's bytes to the path tracer's answer: the forwarding table the FPM collector leaves in
  the tree of a node, served over gNMI, is the table the tracer's route lookup searches.
\<close>

section \<open>The AFT leaves of the tree\<close>

definition aft_leaf :: "path_elem list \<Rightarrow> typed_value \<Rightarrow> bool" where
  "aft_leaf p v \<longleftrightarrow>
     (\<exists>vrf af pfx leaf s. p = gp_elem (aftPath vrf af pfx leaf) \<and> pfx \<noteq> [] \<and>
        leaf \<in> {''next-hop'', ''pushed-mpls-label-stack''} \<and> v = StringVal s)"

text \<open>Nothing but AFT leaves, and no label stack without a next hop.\<close>

definition aft_ok :: "tree \<Rightarrow> bool" where
  "aft_ok t \<longleftrightarrow>
     (\<forall>p v. t (''openconfig'', p) = Some v \<longrightarrow> aft_leaf p v) \<and>
     (\<forall>k. fst (fib_of t k) = None \<longrightarrow> snd (fib_of t k) = None)"

lemma aft_ok_empty: "aft_ok Map.empty"
  by (simp add: aft_ok_def fib_of_def)

lemma aft_leafI:
  "pfx \<noteq> [] \<Longrightarrow> aft_leaf (gp_elem (aftPath vrf af pfx ''next-hop'')) (StringVal s)"
  "pfx \<noteq> [] \<Longrightarrow> aft_leaf (gp_elem (aftPath vrf af pfx ''pushed-mpls-label-stack'')) (StringVal s)"
  unfolding aft_leaf_def by blast+

lemma aft_ok_route_effects:
  assumes "aft_ok t" and "pfx \<noteq> []"
  shows "aft_ok (tree_effects t (route_effects w vrf af pfx nh push del))"
proof -
  have "aft_leaf p v"
    if v: "tree_effects t (route_effects w vrf af pfx nh push del) (''openconfig'', p) = Some v" for p v
  proof (cases "t (''openconfig'', p) = Some v")
    case True
    with assms(1) show ?thesis by (simp add: aft_ok_def)
  next
    case False
    with v show ?thesis
      by (auto simp: route_effects_def Let_def strVal_def assms(2) dest!: put_tree_some split: if_splits
          intro!: aft_leafI)
  qed
  moreover have "fst (fib_entry nh push del) = None \<Longrightarrow> snd (fib_entry nh push del) = None"
    by (simp add: fib_entry_def split: if_splits)
  ultimately show ?thesis using assms(1) by (simp add: aft_ok_def route_effects_fib)
qed

text \<open>The effects of a message: none, or those of one route.\<close>

inductive route_made :: "effect list \<Rightarrow> bool" where
  made_none: "route_made []"
| made_route: "pfx \<noteq> [] \<Longrightarrow> route_made (route_effects w vrf af pfx nh push del)"

lemma handleRoute_made: "handleRoute f links b del = Some (f', es) \<Longrightarrow> route_made es"
  by (auto simp: handleRoute_def bind_eq_Some_conv Let_def split: if_splits prod.splits
      intro: made_none made_route)

lemma handleNetlink_made: "handleNetlink f links b = Some (f', es) \<Longrightarrow> route_made es"
  by (auto simp: handleNetlink_def bind_eq_Some_conv split: if_splits intro: made_none handleRoute_made)

lemma aft_ok_made: "route_made es \<Longrightarrow> aft_ok t \<Longrightarrow> aft_ok (tree_effects t es)"
  by (induction rule: route_made.induct) (simp_all add: aft_ok_route_effects)

lemma fpm_frame_aft:
  assumes "aft_ok (tree_effects t (snd (snd s)))" and "fpm_frame env s ty body = Some s'"
  shows "aft_ok (tree_effects t (snd (snd s')))"
proof -
  obtain f n out where s: "s = (f, n, out)" by (rule prod_cases3)
  obtain f' n' out' where s': "s' = (f', n', out')" by (rule prod_cases3)
  from assms show ?thesis
    unfolding s s'
    by (auto simp: fpm_frame_def split: if_splits dest!: handleNetlink_made intro: aft_ok_made)
qed

lemma fpm_connect_aft:
  assumes "fpm_connect env f str = Some (f', es)"
  shows "aft_ok (tree_effects Map.empty es)"
proof -
  let ?s = "(f, 0, if w_hook (f_w f) then [KickOSPF ''fpm-reconnect''] else [])"
  obtain n where "fpm_handle env ?s str = Some (f', n, es)"
    using assms by (auto simp: fpm_connect_def)
  moreover have "aft_ok (tree_effects Map.empty (snd (snd ?s)))" by (simp add: aft_ok_empty)
  ultimately have "aft_ok (tree_effects Map.empty (snd (snd (f', n, es))))"
    using fpm_handle_invariant [of "\<lambda>s. aft_ok (tree_effects Map.empty (snd (snd s)))"] fpm_frame_aft
    by blast
  then show ?thesis by simp
qed

section \<open>The tracer's table\<close>

text \<open>The leaves the tracer asks for, of one prefix, and what it makes of them.\<close>

definition leaf_text :: "typed_value option \<Rightarrow> string" where
  "leaf_text v = (case v of None \<Rightarrow> [] | Some v \<Rightarrow> sval v)"

definition fib_ent :: "fib \<Rightarrow> string \<Rightarrow> string \<Rightarrow> aft_ent" where
  "fib_ent fib vrf p =
     \<lparr>en_vrf = vrf, en_nh = leaf_text (fst (fib (vrf, ''ipv4-unicast'', p))),
      en_lbl = leaf_text (snd (fib (vrf, ''ipv4-unicast'', p)))\<rparr>"

text \<open>An update as a leaf, its path's target and origin aside.\<close>

definition is_leaf :: "update \<Rightarrow> string \<Rightarrow> string \<Rightarrow> string \<Rightarrow> typed_value \<Rightarrow> bool" where
  "is_leaf u vrf p leaf v \<longleftrightarrow>
     gp_elem (u_path u) = gp_elem (aftPath vrf ''ipv4-unicast'' p leaf) \<and> u_val u = v"

lemma add_aft_is_leaf:
  assumes "p \<noteq> []"
  shows "is_leaf u vrf p ''next-hop'' v \<Longrightarrow> add_aft m u =
      m(p \<mapsto> (case m p of Some e \<Rightarrow> e | None \<Rightarrow> \<lparr>en_vrf = [], en_nh = [], en_lbl = []\<rparr>)
        \<lparr>en_nh := sval v, en_vrf := vrf\<rparr>)"
    and "is_leaf u vrf p ''pushed-mpls-label-stack'' v \<Longrightarrow> add_aft m u =
      m(p \<mapsto> (case m p of Some e \<Rightarrow> e | None \<Rightarrow> \<lparr>en_vrf = [], en_nh = [], en_lbl = []\<rparr>)\<lparr>en_lbl := sval v\<rparr>)"
proof -
  have "dissect (u_path u) = ([''name'' \<mapsto> vrf, ''prefix'' \<mapsto> p], l)" if "is_leaf u vrf p l v" for l
    using that dissect_aftPath [of vrf "''ipv4-unicast''" p l] by (simp add: is_leaf_def dissect_def)
  then show "is_leaf u vrf p ''next-hop'' v \<Longrightarrow> add_aft m u =
      m(p \<mapsto> (case m p of Some e \<Rightarrow> e | None \<Rightarrow> \<lparr>en_vrf = [], en_nh = [], en_lbl = []\<rparr>)
        \<lparr>en_nh := sval v, en_vrf := vrf\<rparr>)"
    "is_leaf u vrf p ''pushed-mpls-label-stack'' v \<Longrightarrow> add_aft m u =
      m(p \<mapsto> (case m p of Some e \<Rightarrow> e | None \<Rightarrow> \<lparr>en_vrf = [], en_nh = [], en_lbl = []\<rparr>)\<lparr>en_lbl := sval v\<rparr>)"
    using assms by (auto simp: add_aft_def kget_def Let_def is_leaf_def)
qed

text \<open>
  The entries the tracer has filed after some of the leaves of a table with one VRF per prefix:
  each field is set exactly when its leaf was among them.
\<close>

definition seen_leaf :: "update list \<Rightarrow> string \<Rightarrow> string \<Rightarrow> string \<Rightarrow> bool" where
  "seen_leaf us vrf p leaf \<longleftrightarrow> (\<exists>u \<in> set us. gp_elem (u_path u) = gp_elem (aftPath vrf ''ipv4-unicast'' p leaf))"

definition table_leaf :: "fib \<Rightarrow> update \<Rightarrow> bool" where
  "table_leaf fib u \<longleftrightarrow>
     (\<exists>vrf p v. p \<noteq> [] \<and> fst (fib (vrf, ''ipv4-unicast'', p)) \<noteq> None \<and>
        (is_leaf u vrf p ''next-hop'' v \<and> fst (fib (vrf, ''ipv4-unicast'', p)) = Some v \<or>
         is_leaf u vrf p ''pushed-mpls-label-stack'' v \<and> snd (fib (vrf, ''ipv4-unicast'', p)) = Some v))"

definition one_vrf :: "fib \<Rightarrow> bool" where
  "one_vrf fib \<longleftrightarrow>
     (\<forall>v w p. fst (fib (v, ''ipv4-unicast'', p)) \<noteq> None \<longrightarrow> fst (fib (w, ''ipv4-unicast'', p)) \<noteq> None \<longrightarrow> v = w)"

lemma byPfx_partial:
  assumes "one_vrf fib" and "\<forall>u \<in> set us. table_leaf fib u" and "fst (fib (vrf, ''ipv4-unicast'', p)) \<noteq> None"
  shows "byPfx us p =
    (if seen_leaf us vrf p ''next-hop'' \<or> seen_leaf us vrf p ''pushed-mpls-label-stack''
     then Some \<lparr>en_vrf = (if seen_leaf us vrf p ''next-hop'' then vrf else []),
       en_nh = (if seen_leaf us vrf p ''next-hop'' then en_nh (fib_ent fib vrf p) else []),
       en_lbl = (if seen_leaf us vrf p ''pushed-mpls-label-stack'' then en_lbl (fib_ent fib vrf p) else [])\<rparr>
     else None)"
  using assms(2)
proof (induction us rule: rev_induct)
  case Nil
  then show ?case by (simp add: byPfx_def seen_leaf_def)
next
  case (snoc u us)
  then have IH: "byPfx us p =
    (if seen_leaf us vrf p ''next-hop'' \<or> seen_leaf us vrf p ''pushed-mpls-label-stack''
     then Some \<lparr>en_vrf = (if seen_leaf us vrf p ''next-hop'' then vrf else []),
       en_nh = (if seen_leaf us vrf p ''next-hop'' then en_nh (fib_ent fib vrf p) else []),
       en_lbl = (if seen_leaf us vrf p ''pushed-mpls-label-stack'' then en_lbl (fib_ent fib vrf p) else [])\<rparr>
     else None)" by simp
  have step: "byPfx (us @ [u]) = add_aft (byPfx us) u" by (simp add: byPfx_def)
  have seen: "seen_leaf (us @ [u]) vrf p l \<longleftrightarrow>
      seen_leaf us vrf p l \<or> gp_elem (u_path u) = gp_elem (aftPath vrf ''ipv4-unicast'' p l)" for l
    by (auto simp: seen_leaf_def)
  from snoc.prems have "table_leaf fib u" by simp
  then obtain vrf' p' v l where l: "p' \<noteq> []" "fst (fib (vrf', ''ipv4-unicast'', p')) \<noteq> None" "is_leaf u vrf' p' l v"
    "l = ''next-hop'' \<and> fst (fib (vrf', ''ipv4-unicast'', p')) = Some v \<or>
     l = ''pushed-mpls-label-stack'' \<and> snd (fib (vrf', ''ipv4-unicast'', p')) = Some v"
    unfolding table_leaf_def by blast
  have path: "gp_elem (u_path u) = gp_elem (aftPath vrf' ''ipv4-unicast'' p' l)" using l(3) by (simp add: is_leaf_def)
  show ?case
  proof (cases "p' = p")
    case False
    then show ?thesis
      using l(3, 4) add_aft_is_leaf [OF l(1)] unfolding step seen path by (auto simp: IH)
  next
    case True
    with l(2) assms(1, 3) have vrf: "vrf' = vrf" unfolding one_vrf_def by blast
    have ent: "en_nh (fib_ent fib vrf p) = leaf_text (fst (fib (vrf, ''ipv4-unicast'', p)))"
      "en_lbl (fib_ent fib vrf p) = leaf_text (snd (fib (vrf, ''ipv4-unicast'', p)))"
      by (simp_all add: fib_ent_def)
    from l(4) show ?thesis
    proof (elim disjE conjE)
      assume "l = ''next-hop''" "fst (fib (vrf', ''ipv4-unicast'', p')) = Some v"
      then show ?thesis
        using add_aft_is_leaf(1) [of p u vrf v] l(1, 3) unfolding step seen path
        by (simp add: IH ent True vrf leaf_text_def)
    next
      assume "l = ''pushed-mpls-label-stack''" "snd (fib (vrf', ''ipv4-unicast'', p')) = Some v"
      then show ?thesis
        using add_aft_is_leaf(2) [of p u vrf v] l(1, 3) unfolding step seen path
        by (simp add: IH ent True vrf leaf_text_def)
    qed
  qed
qed

lemma byPfx_other:
  assumes "\<forall>u \<in> set us. table_leaf fib u" and "\<And>vrf. fst (fib (vrf, ''ipv4-unicast'', p)) = None"
  shows "byPfx us p = None"
  using assms(1)
proof (induction us rule: rev_induct)
  case (snoc u us)
  then have "table_leaf fib u" "byPfx us p = None" by simp_all
  then obtain vrf' p' v l where l: "p' \<noteq> []" "fst (fib (vrf', ''ipv4-unicast'', p')) \<noteq> None" "is_leaf u vrf' p' l v"
    "l = ''next-hop'' \<or> l = ''pushed-mpls-label-stack''"
    unfolding table_leaf_def by blast
  with assms(2) have "p' \<noteq> p" by auto
  then show ?case
    using l(3, 4) add_aft_is_leaf [OF l(1)] \<open>byPfx us p = None\<close> by (auto simp: byPfx_def)
qed (simp add: byPfx_def)

lemma aft_selects: "selects (gp_elem trace_aftPath) (gp_elem (aftPath vrf af p leaf)) \<longleftrightarrow> af = ''ipv4-unicast''"
  by (auto simp: trace_aftPath_def oc_path_def aftPath_def selects_elem_def)

lemma trace_origin [simp]: "gp_origin trace_aftPath = ''openconfig''"
  by (simp add: trace_aftPath_def oc_path_def)

text \<open>What a node that serves the collector's leaves answers the tracer's query with.\<close>

lemma served_table:
  assumes "serves net a t" and "client_addr nodes n = Some a" and "aft_ok t0"
    and "\<And>p. selects (gp_elem trace_aftPath) p \<Longrightarrow> t (''openconfig'', p) = t0 (''openconfig'', p)"
  shows "\<forall>u \<in> set (gnmi_get nodes net n trace_aftPath). table_leaf (fib_of t0) u"
    and "fst (fib_of t0 (vrf, ''ipv4-unicast'', p)) \<noteq> None \<Longrightarrow>
      seen_leaf (gnmi_get nodes net n trace_aftPath) vrf p ''next-hop''"
    and "snd (fib_of t0 (vrf, ''ipv4-unicast'', p)) \<noteq> None \<Longrightarrow>
      seen_leaf (gnmi_get nodes net n trace_aftPath) vrf p ''pushed-mpls-label-stack''"
proof -
  let ?us = "gnmi_get nodes net n trace_aftPath"
  have us: "(\<lambda>u. (gp_elem (u_path u), u_val u)) ` set ?us =
      {(p, v). selects (gp_elem trace_aftPath) p \<and> t (''openconfig'', p) = Some v}"
    using served_set [OF assms(1, 2), of trace_aftPath] by simp
  show "\<forall>u \<in> set ?us. table_leaf (fib_of t0) u"
  proof
    fix u assume "u \<in> set ?us"
    then have "(gp_elem (u_path u), u_val u) \<in> (\<lambda>u. (gp_elem (u_path u), u_val u)) ` set ?us" by blast
    then have sel: "selects (gp_elem trace_aftPath) (gp_elem (u_path u))" and
      leaf: "t0 (''openconfig'', gp_elem (u_path u)) = Some (u_val u)"
      unfolding us using assms(4) by auto
    with assms(3) obtain vrf af p l s where p: "gp_elem (u_path u) = gp_elem (aftPath vrf af p l)" "p \<noteq> []"
      "l \<in> {''next-hop'', ''pushed-mpls-label-stack''}" "u_val u = StringVal s"
      unfolding aft_ok_def aft_leaf_def by blast
    have af: "af = ''ipv4-unicast''" using sel unfolding p(1) aft_selects .
    have lbl: "snd (fib_of t0 k) = Some v \<Longrightarrow> fst (fib_of t0 k) \<noteq> None" for k v
      using assms(3) unfolding aft_ok_def by (metis option.distinct(1))
    from p(3) show "table_leaf (fib_of t0) u"
    proof (elim insertE emptyE)
      assume "l = ''next-hop''"
      then show ?thesis using p(1, 2) leaf unfolding table_leaf_def
        by (intro exI [of _ vrf] exI [of _ p] exI [of _ "u_val u"]) (simp add: is_leaf_def af fib_of_def)
    next
      assume "l = ''pushed-mpls-label-stack''"
      then have "snd (fib_of t0 (vrf, ''ipv4-unicast'', p)) = Some (u_val u)"
        "is_leaf u vrf p ''pushed-mpls-label-stack'' (u_val u)"
        using p(1) leaf by (simp_all add: is_leaf_def af fib_of_def)
      with lbl p(2) show ?thesis unfolding table_leaf_def by blast
    qed
  qed
  have seen: "seen_leaf ?us vrf p l"
    if "t0 (''openconfig'', gp_elem (aftPath vrf ''ipv4-unicast'' p l)) = Some v" for l v
  proof -
    have "(gp_elem (aftPath vrf ''ipv4-unicast'' p l), v) \<in> (\<lambda>u. (gp_elem (u_path u), u_val u)) ` set ?us"
      unfolding us using that assms(4) [of "gp_elem (aftPath vrf ''ipv4-unicast'' p l)"] by (simp add: aft_selects)
    then show ?thesis unfolding seen_leaf_def by force
  qed
  show "fst (fib_of t0 (vrf, ''ipv4-unicast'', p)) \<noteq> None \<Longrightarrow> seen_leaf ?us vrf p ''next-hop''"
    "snd (fib_of t0 (vrf, ''ipv4-unicast'', p)) \<noteq> None \<Longrightarrow> seen_leaf ?us vrf p ''pushed-mpls-label-stack''"
    using seen by (auto simp: fib_of_def)
qed

lemma byPfx_served:
  assumes "one_vrf fib" and "\<forall>u \<in> set us. table_leaf fib u"
    and "\<And>vrf p. fst (fib (vrf, ''ipv4-unicast'', p)) \<noteq> None \<Longrightarrow> seen_leaf us vrf p ''next-hop''"
    and "\<And>vrf p. snd (fib (vrf, ''ipv4-unicast'', p)) \<noteq> None \<Longrightarrow> seen_leaf us vrf p ''pushed-mpls-label-stack''"
  shows "byPfx us p = Some e \<longleftrightarrow>
    (\<exists>vrf. fst (fib (vrf, ''ipv4-unicast'', p)) \<noteq> None \<and> e = fib_ent fib vrf p)"
proof (cases "\<exists>vrf. fst (fib (vrf, ''ipv4-unicast'', p)) \<noteq> None")
  case False
  with byPfx_other [OF assms(2), of p] show ?thesis by auto
next
  case True
  then obtain vrf where vrf: "fst (fib (vrf, ''ipv4-unicast'', p)) \<noteq> None" by blast
  have lbl: "(if seen_leaf us vrf p ''pushed-mpls-label-stack'' then en_lbl (fib_ent fib vrf p) else []) =
      en_lbl (fib_ent fib vrf p)"
  proof (cases "seen_leaf us vrf p ''pushed-mpls-label-stack''")
    case False
    with assms(4) have "snd (fib (vrf, ''ipv4-unicast'', p)) = None" by blast
    then show ?thesis by (simp add: fib_ent_def leaf_text_def)
  qed simp
  have ent: "\<lparr>en_vrf = vrf, en_nh = en_nh (fib_ent fib vrf p), en_lbl = en_lbl (fib_ent fib vrf p)\<rparr> = fib_ent fib vrf p"
    by (simp add: fib_ent_def)
  have "byPfx us p = Some (fib_ent fib vrf p)"
    unfolding byPfx_partial [OF assms(1, 2) vrf] lbl using assms(3) [OF vrf] ent by (simp only: if_True simp_thms)
  moreover have "w = vrf" if "fst (fib (w, ''ipv4-unicast'', p)) \<noteq> None" for w
    using that vrf assms(1) unfolding one_vrf_def by blast
  ultimately show ?thesis using vrf by (metis option.inject)
qed

section \<open>From the wire to the trace\<close>

text \<open>A route of the table that covers a destination, with the length of its prefix.\<close>

definition fib_match :: "fib \<Rightarrow> ip \<Rightarrow> string \<Rightarrow> string \<Rightarrow> nat \<Rightarrow> bool" where
  "fib_match fib d vrf p k \<longleftrightarrow>
     fst (fib (vrf, ''ipv4-unicast'', p)) \<noteq> None \<and> matching d (p, fib_ent fib vrf p) = Some k"

text \<open>The lookup of the tracer over any entries: a longest match.\<close>

lemma routeLookup_best:
  assumes "length d = 4"
  shows "if \<exists>p e k. (p, e) \<in> set xs \<and> matching d (p, e) = Some k
    then \<exists>p e k. (p, e) \<in> set xs \<and> matching d (p, e) = Some k \<and>
      (\<forall>q f j. (q, f) \<in> set xs \<and> matching d (q, f) = Some j \<longrightarrow> j \<le> k) \<and>
      routeLookup xs (ip_string d) = (en_vrf e, p, en_nh e, en_lbl e)
    else routeLookup xs (ip_string d) = ([], [], [], [])"
proof -
  have di: "to4 (ParseIP (ip_string d)) = d" "d \<noteq> []"
    using assms by (auto simp: ParseIP_dotted)
  obtain best res where fold: "foldl (lpm_step d) (- 1, ([], [], [], [])) xs = (best, res)" by (rule prod.exhaust)
  have look: "routeLookup xs (ip_string d) = res" using di fold by (simp add: routeLookup_def Let_def)
  note best = lpm_fold [where di = d and xs = xs, unfolded fold prod.case]
  show ?thesis
  proof (cases "\<forall>pe \<in> set xs. matching d pe = None")
    case True
    then have none: "\<not> (\<exists>p e k. (p, e) \<in> set xs \<and> matching d (p, e) = Some k)" by force
    have "res = ([], [], [], [])" using best True by simp
    then show ?thesis unfolding if_not_P [OF none] look .
  next
    case False
    with best obtain pe where pe: "pe \<in> set xs" "matching d pe = Some (nat best)" "0 \<le> best" "res = answer_of pe"
      by (simp only: if_False) blast
    obtain p e where e: "pe = (p, e)" by (rule prod.exhaust)
    have some: "\<exists>p e k. (p, e) \<in> set xs \<and> matching d (p, e) = Some k" using pe(1, 2) unfolding e by blast
    have "j \<le> nat best" if "(q, f) \<in> set xs" "matching d (q, f) = Some j" for q f j
    proof -
      from that best have "int j \<le> best" by blast
      then show ?thesis by simp
    qed
    then show ?thesis
      unfolding if_P [OF some] look using pe
      by (intro exI [of _ p] exI [of _ e] exI [of _ "nat best"]) (auto simp: e answer_of_def)
  qed
qed

text \<open>The lookup over a node whose tree has an AFT in order.\<close>

lemma table_lookup:
  assumes "aft_ok t0" and "fib = fib_of t0"
    and "serves net a t" and "client_addr nodes n = Some a"
    and "\<And>p. selects (gp_elem trace_aftPath) p \<Longrightarrow> t (''openconfig'', p) = t0 (''openconfig'', p)"
    and "one_vrf fib" and "length d = 4"
    and "enumerates xs (byPfx (gnmi_get nodes net n trace_aftPath))"
  shows "if \<exists>vrf p k. fib_match fib d vrf p k
    then \<exists>vrf p k. fib_match fib d vrf p k \<and> (\<forall>w q j. fib_match fib d w q j \<longrightarrow> j \<le> k) \<and>
      routeLookup xs (ip_string d) =
        (vrf, p, leaf_text (fst (fib (vrf, ''ipv4-unicast'', p))), leaf_text (snd (fib (vrf, ''ipv4-unicast'', p))))
    else routeLookup xs (ip_string d) = ([], [], [], [])"
proof -
  note tab = served_table [OF assms(3, 4, 1, 5)]
  have set: "(p, e) \<in> set xs \<longleftrightarrow> (\<exists>vrf. fst (fib (vrf, ''ipv4-unicast'', p)) \<noteq> None \<and> e = fib_ent fib vrf p)" for p e
    using byPfx_served [of fib "gnmi_get nodes net n trace_aftPath" p e] assms(6) tab
    by (simp add: enumerates_lookup [OF assms(8)] assms(2))
  have match: "(p, e) \<in> set xs \<and> matching d (p, e) = Some k \<longleftrightarrow> (\<exists>vrf. fib_match fib d vrf p k \<and> e = fib_ent fib vrf p)"
    for p e k unfolding set fib_match_def by blast
  show ?thesis
  proof (cases "\<exists>vrf p k. fib_match fib d vrf p k")
    case False
    then have "\<not> (\<exists>p e k. (p, e) \<in> set xs \<and> matching d (p, e) = Some k)" unfolding match by blast
    from routeLookup_best [OF assms(7), of xs, unfolded if_not_P [OF this]] show ?thesis
      unfolding if_not_P [OF False] .
  next
    case True
    then have "\<exists>p e k. (p, e) \<in> set xs \<and> matching d (p, e) = Some k" unfolding match by blast
    from routeLookup_best [OF assms(7), of xs, unfolded if_P [OF this]] obtain p e k
      where pe: "(p, e) \<in> set xs \<and> matching d (p, e) = Some k"
        "\<forall>q f j. (q, f) \<in> set xs \<and> matching d (q, f) = Some j \<longrightarrow> j \<le> k"
        "routeLookup xs (ip_string d) = (en_vrf e, p, en_nh e, en_lbl e)" by blast
    from pe(1) obtain vrf where vrf: "fib_match fib d vrf p k" "e = fib_ent fib vrf p" unfolding match by blast
    have "\<forall>w q j. fib_match fib d w q j \<longrightarrow> j \<le> k" using pe(2) unfolding match by blast
    moreover have "routeLookup xs (ip_string d) =
        (vrf, p, leaf_text (fst (fib (vrf, ''ipv4-unicast'', p))), leaf_text (snd (fib (vrf, ''ipv4-unicast'', p))))"
      unfolding pe(3) vrf(2) by (simp add: fib_ent_def)
    ultimately show ?thesis unfolding if_P [OF True] using vrf(1) by blast
  qed
qed

text \<open>
  The tracer sees the forwarding table: when the AFT a node serves is what the FPM collector
  made of a zebra session, of whatever bytes, and no prefix is in two VRFs, then the route
  lookup of the tracer for an IPv4 destination answers with the VRF, prefix, next hop and labels
  of a route in that table that covers the destination such that no longer one does, and with
  nothing when none does.
\<close>

theorem trace_sees_fib:
  assumes "fpm_connect env f str = Some (f', es)" and "fib = fib_of (tree_effects Map.empty es)"
    and "serves net a t" and "client_addr nodes n = Some a"
    and "\<And>p. selects (gp_elem trace_aftPath) p \<Longrightarrow> t (''openconfig'', p) = tree_effects Map.empty es (''openconfig'', p)"
    and "one_vrf fib" and "length d = 4"
    and "enumerates xs (byPfx (gnmi_get nodes net n trace_aftPath))"
  shows "if \<exists>vrf p k. fib_match fib d vrf p k
    then \<exists>vrf p k. fib_match fib d vrf p k \<and> (\<forall>w q j. fib_match fib d w q j \<longrightarrow> j \<le> k) \<and>
      routeLookup xs (ip_string d) =
        (vrf, p, leaf_text (fst (fib (vrf, ''ipv4-unicast'', p))), leaf_text (snd (fib (vrf, ''ipv4-unicast'', p))))
    else routeLookup xs (ip_string d) = ([], [], [], [])"
  by (rule table_lookup [OF fpm_connect_aft [OF assms(1)] assms(2-8)])

section \<open>Witness\<close>

text \<open>A session of one route with a gateway and a label, and the node that serves it.\<close>

definition sf_route :: kmsg where
  "sf_route = route_msg False (v4route [10, 0, 1, 0] 24 254 [192, 0, 2, 1] 0 [18])"

definition unwired :: wiring where
  "unwired = \<lparr>w_cor = False, w_lin = False, w_hook = False\<rparr>"

definition sf_prefix :: string where
  "sf_prefix = cidr [10, 0, 1, 0] 24"

definition sf_effects :: "effect list" where
  "sf_effects = route_effects unwired ''default'' ''ipv4-unicast'' sf_prefix (ip_string [192, 0, 2, 1]) [18] False"

definition sf_leaves :: "((string \<times> path_elem list) \<times> typed_value) list" where
  "sf_leaves =
     [((''openconfig'', gp_elem (aftPath ''default'' ''ipv4-unicast'' sf_prefix ''next-hop'')), StringVal (ip_string [192, 0, 2, 1])),
      ((''openconfig'', gp_elem (aftPath ''default'' ''ipv4-unicast'' sf_prefix ''pushed-mpls-label-stack'')),
        StringVal (labelsCSV [18]))]"

definition sf_net :: network where
  "sf_net a q = Some (serve_list (if a = ''m1:9339'' then sf_leaves else []) q)"

definition sf_entries :: "(string \<times> aft_ent) list" where
  "sf_entries = [(sf_prefix, \<lparr>en_vrf = ''default'', en_nh = ip_string [192, 0, 2, 1], en_lbl = labelsCSV [18]\<rparr>)]"

lemma sf_connect:
  "fpm_connect (\<lambda>_. Some []) (NewFPM (Some []) unwired) (put_session [sf_route]) =
     Some (NewFPM (Some []) unwired, sf_effects)"
proof -
  have ok: "ok_kmsg (sf_route)" by (simp add: sf_route_def ok_route_msg take_bit_word_eq_self)
  have r: "handleNetlink (NewFPM (Some []) unwired) (Some []) (put_kmsg sf_route) =
      Some (NewFPM (Some []) unwired, sf_effects)"
    by (simp add: sf_route_def handle_route_msg take_bit_word_eq_self Name_def NewFPM_def hop_text_def
        sf_effects_def sf_prefix_def)
  have "fpm_handle (\<lambda>_. Some []) s (put_session [sf_route]) =
      foldM (\<lambda>s (ver, ty, body). fpm_frame (\<lambda>_. Some []) s ty body) s [(1, 1, put_kmsg (sf_route))]" for s
    using fpm_conn.run_all [of "[(1, 1, put_kmsg (sf_route))]" "\<lambda>_. Some []" s] ok_frame [OF ok]
    by (simp add: put_session_def)
  then show ?thesis using r by (simp add: fpm_connect_def fpm_frame_def unwired_def NewFPM_def)
qed

lemma sf_tree: "tree_effects Map.empty sf_effects = map_of sf_leaves"
  by (rule ext) (auto simp: sf_effects_def route_effects_def sf_leaves_def unwired_def emit_if_def observe_if_def
      put_tree_ups strVal_def Let_def)

lemma sf_fib:
  "fib_of (map_of sf_leaves) (vrf, af, p) =
     (if vrf = ''default'' \<and> af = ''ipv4-unicast'' \<and> p = sf_prefix
      then (Some (StringVal (ip_string [192, 0, 2, 1])), Some (StringVal (labelsCSV [18]))) else (None, None))"
  by (auto simp: fib_of_def sf_leaves_def)

lemma sf_match: "fib_match (fib_of (map_of sf_leaves)) [10, 0, 1, 7] ''default'' sf_prefix 24"
proof -
  let ?r = "\<lparr>ar_vrf = ''default'', ar_addr = [10, 0, 1, 0], ar_len = 24, ar_nh = ip_string [192, 0, 2, 1],
    ar_labels = labelsCSV [18]\<rparr>"
  have "ip_string [192, 0, 2, 1] \<noteq> []" by code_simp
  then have "ok_aft_route ?r" by (simp add: ok_aft_route_def)
  moreover have "covers ?r [10, 0, 1, 7]" by code_simp
  ultimately have "matching [10, 0, 1, 7] (ar_prefix ?r, ent_of ?r) = Some 24"
    by (simp add: matching_route)
  then show ?thesis
    by (simp add: fib_match_def sf_fib fib_ent_def leaf_text_def sval_def ent_of_def ar_prefix_def sf_prefix_def)
qed

abbreviation sf_nodes :: inventory where
  "sf_nodes \<equiv> [''pe1'' \<mapsto> ''m1'']"

lemma sf_served: "serves sf_net ''m1:9339'' (map_of sf_leaves)"
  by (rule serves_list) (simp_all add: sf_leaves_def sf_net_def)

lemma sf_addr: "client_addr sf_nodes ''pe1'' = Some ''m1:9339''"
  by code_simp

lemma sf_one_vrf: "one_vrf (fib_of (map_of sf_leaves))"
  by (simp add: one_vrf_def sf_fib)

lemma sf_aft_ok: "aft_ok (map_of sf_leaves)"
  using fpm_connect_aft [OF sf_connect] by (simp only: sf_tree)

lemma sf_byPfx:
  "byPfx (gnmi_get sf_nodes sf_net ''pe1'' trace_aftPath) p = Some e \<longleftrightarrow>
     (\<exists>vrf. fst (fib_of (map_of sf_leaves) (vrf, ''ipv4-unicast'', p)) \<noteq> None \<and> e = fib_ent (fib_of (map_of sf_leaves)) vrf p)"
proof -
  note tab = served_table [OF sf_served sf_addr sf_aft_ok refl]
  show ?thesis by (rule byPfx_served [OF sf_one_vrf tab(1)]) (rule tab(2, 3), assumption)+
qed

lemma sf_routes:
  "fst (fib_of (map_of sf_leaves) (vrf, ''ipv4-unicast'', p)) \<noteq> None \<longleftrightarrow> vrf = ''default'' \<and> p = sf_prefix"
  unfolding sf_fib by simp

lemma sf_ent:
  "fib_ent (fib_of (map_of sf_leaves)) ''default'' sf_prefix =
     \<lparr>en_vrf = ''default'', en_nh = ip_string [192, 0, 2, 1], en_lbl = labelsCSV [18]\<rparr>"
  unfolding fib_ent_def sf_fib by (simp add: leaf_text_def sval_def)

lemma sf_enumerates: "enumerates sf_entries (byPfx (gnmi_get sf_nodes sf_net ''pe1'' trace_aftPath))"
proof -
  let ?m = "byPfx (gnmi_get sf_nodes sf_net ''pe1'' trace_aftPath)"
  have some: "?m p = Some e \<longleftrightarrow> p = sf_prefix \<and> e = fib_ent (fib_of (map_of sf_leaves)) ''default'' sf_prefix" for p e
    unfolding sf_byPfx sf_routes by blast
  have "map_of sf_entries p = ?m p" for p
  proof (cases "?m p")
    case None
    then have "p \<noteq> sf_prefix" using some [of p] by (metis option.distinct(1))
    then show ?thesis unfolding None by (simp add: sf_entries_def)
  next
    case (Some e)
    with some [of p e] have "p = sf_prefix" "e = fib_ent (fib_of (map_of sf_leaves)) ''default'' sf_prefix"
      by blast+
    then show ?thesis unfolding Some sf_ent by (simp add: sf_entries_def)
  qed
  then have "map_of sf_entries = ?m" by (rule ext)
  moreover have "distinct (map fst sf_entries)" by (simp add: sf_entries_def)
  ultimately show ?thesis unfolding enumerates_def by (intro conjI)
qed

lemma sf_unique: "fib_match (fib_of (map_of sf_leaves)) d vrf p k \<Longrightarrow> vrf = ''default'' \<and> p = sf_prefix"
  unfolding fib_match_def sf_routes by blast

theorem trace_sees_fib_witness:
  "routeLookup sf_entries (ip_string [10, 0, 1, 7]) =
     (''default'', sf_prefix, ip_string [192, 0, 2, 1], labelsCSV [18])"
proof -
  let ?fib = "fib_of (map_of sf_leaves)"
  have ex: "\<exists>vrf p k. fib_match ?fib [10, 0, 1, 7] vrf p k" using sf_match by blast
  have "if \<exists>vrf p k. fib_match ?fib [10, 0, 1, 7] vrf p k
    then \<exists>vrf p k. fib_match ?fib [10, 0, 1, 7] vrf p k \<and> (\<forall>w q j. fib_match ?fib [10, 0, 1, 7] w q j \<longrightarrow> j \<le> k) \<and>
      routeLookup sf_entries (ip_string [10, 0, 1, 7]) =
        (vrf, p, leaf_text (fst (?fib (vrf, ''ipv4-unicast'', p))), leaf_text (snd (?fib (vrf, ''ipv4-unicast'', p))))
    else routeLookup sf_entries (ip_string [10, 0, 1, 7]) = ([], [], [], [])"
    by (rule trace_sees_fib [OF sf_connect _ sf_served sf_addr _ sf_one_vrf _ sf_enumerates]) (simp_all only: sf_tree length_Cons list.size)
  from this [unfolded if_P [OF ex]] obtain vrf p k where "fib_match ?fib [10, 0, 1, 7] vrf p k" and
    r: "routeLookup sf_entries (ip_string [10, 0, 1, 7]) =
        (vrf, p, leaf_text (fst (?fib (vrf, ''ipv4-unicast'', p))), leaf_text (snd (?fib (vrf, ''ipv4-unicast'', p))))"
    by blast
  from sf_unique [OF this(1)] show ?thesis unfolding r by (simp add: sf_fib leaf_text_def sval_def)
qed

end
