(* ===== verification/ServedLfib.thy ===== *)
theory ServedLfib
  imports Serving Pathtrace
begin

text \<open>
  From the kernel's MPLS table to the path tracer's answer: what a snapshot of the netlink
  ingester writes, served over gNMI, is what the tracer's label lookup reads.
\<close>

section \<open>The snapshot\<close>

definition mpls_leaves :: "string list" where
  "mpls_leaves = [''in-label'', ''out-label'', ''next-hop'', ''interface'']"

text \<open>The text of each leaf of a route.\<close>

definition mpls_text :: "by_index \<Rightarrow> mpls_route \<Rightarrow> string \<Rightarrow> string" where
  "mpls_text bi r leaf =
     (if leaf = ''in-label'' then (case mpls_label r of Some l \<Rightarrow> udec l | None \<Rightarrow> [])
      else if leaf = ''out-label'' then (case mr_newdst r of Some ls \<Rightarrow> intsCSV ls | None \<Rightarrow> [])
      else if leaf = ''next-hop'' then
        (case mr_via r of Some (b # bs) \<Rightarrow> ip_string (b # bs) | _ \<Rightarrow> if mr_gw r \<noteq> [] then ip_string (mr_gw r) else [])
      else if 0 < mr_link r then (case bi (mr_link r) of Some n \<Rightarrow> n | None \<Rightarrow> []) else [])"

lemma mpls_write_text:
  "mpls_write bi r =
     (case mpls_label r of
        None \<Rightarrow> []
      | Some l \<Rightarrow> [CacheUpdate ''frr'' (map (\<lambda>leaf. leafUpdate (mplsElems l leaf) (mpls_text bi r leaf)) mpls_leaves) []])"
  by (simp add: mpls_write_def mpls_label_def mpls_leaves_def mpls_text_def Let_def split: option.split)

lemma mpls_write_new:
  "mpls_label r = Some l \<Longrightarrow> leaf \<in> set mpls_leaves \<Longrightarrow>
   tree_effects t (mpls_write bi r) (''frr'', mplsElems l leaf) = Some (StringVal (mpls_text bi r leaf))"
  by (auto simp: mpls_write_text mpls_leaves_def put_tree_ups)

lemma mpls_write_old:
  "mpls_label r \<noteq> Some l \<Longrightarrow>
   tree_effects t (mpls_write bi r) (''frr'', mplsElems l leaf) = t (''frr'', mplsElems l leaf)"
  by (auto simp: mpls_write_text mpls_leaves_def put_tree_ups split: option.split)

lemma mpls_write_some:
  assumes "tree_effects t (mpls_write bi r) (''frr'', p) = Some v"
  shows "t (''frr'', p) = Some v \<or>
    (\<exists>l leaf. mpls_label r = Some l \<and> leaf \<in> set mpls_leaves \<and> p = mplsElems l leaf \<and> v = StringVal (mpls_text bi r leaf))"
proof (cases "mpls_label r")
  case None
  with assms show ?thesis by (simp add: mpls_write_text)
next
  case (Some l)
  with assms have "put_tree ''frr'' (map (\<lambda>leaf. leafUpdate (mplsElems l leaf) (mpls_text bi r leaf)) mpls_leaves) [] t
      (''frr'', p) = Some v" by (simp add: mpls_write_text)
  from put_tree_some [OF this] Some show ?thesis by auto
qed

lemma udec_star: "udec l \<noteq> ''*''"
proof
  assume "udec l = ''*''"
  with dec_digits [of "unat l"] show False by (simp add: udec_def is_digit_def)
qed

lemma lfib_selects:
  "leaf \<noteq> [] \<Longrightarrow> selects (gp_elem (lfibPath (udec l))) (mplsElems m leaf) \<longleftrightarrow> l = m"
  by (auto simp: lfibPath_def oc_path_def mplsElems_def with_leaf_def selects_elem_def udec_star)

lemma lfib_origin [simp]: "gp_origin (lfibPath x) = ''frr''"
  by (simp add: lfibPath_def oc_path_def)

lemma mpls_leaves_nonempty: "leaf \<in> set mpls_leaves \<Longrightarrow> leaf \<noteq> []"
  by (auto simp: mpls_leaves_def)

text \<open>The route of a label: the last one of the snapshot, whose leaves overwrite the others'.\<close>

definition lfib_route :: "mpls_route list \<Rightarrow> 32 word \<Rightarrow> mpls_route option" where
  "lfib_route rs l = find (\<lambda>r. mpls_label r = Some l) (rev rs)"

lemma lfib_snoc: "lfib_route (rs @ [r]) l = (if mpls_label r = Some l then Some r else lfib_route rs l)"
  by (simp add: lfib_route_def)

lemma snapshot_lookup:
  assumes "selects (gp_elem (lfibPath (udec l))) p"
  shows "tree_effects Map.empty (snapshotMPLS bi (Some rs)) (''frr'', p) = Some v \<longleftrightarrow>
    (\<exists>r leaf. lfib_route rs l = Some r \<and> leaf \<in> set mpls_leaves \<and> p = mplsElems l leaf \<and> v = StringVal (mpls_text bi r leaf))"
proof (induction rs arbitrary: v rule: rev_induct)
  case Nil
  then show ?case by (simp add: snapshotMPLS_def lfib_route_def)
next
  case (snoc x rs)
  let ?t = "tree_effects Map.empty (snapshotMPLS bi (Some rs))"
  have step: "tree_effects Map.empty (snapshotMPLS bi (Some (rs @ [x]))) = tree_effects ?t (mpls_write bi x)"
    by (simp add: snapshotMPLS_def)
  show ?case
  proof (cases "mpls_label x = Some l")
    case True
    have "\<exists>leaf. leaf \<in> set mpls_leaves \<and> p = mplsElems l leaf"
      if "tree_effects ?t (mpls_write bi x) (''frr'', p) = Some v"
      using mpls_write_some [OF that] snoc.IH [of v] True by auto
    then show ?thesis unfolding step lfib_snoc using True mpls_write_new [OF True] by fastforce
  next
    case False
    have "?t (''frr'', p) = Some v" if v: "tree_effects ?t (mpls_write bi x) (''frr'', p) = Some v"
      using mpls_write_some [OF v]
    proof (elim disjE exE conjE)
      fix m leaf assume m: "mpls_label x = Some m" "leaf \<in> set mpls_leaves" "p = mplsElems m leaf"
      with assms lfib_selects [OF mpls_leaves_nonempty] have "l = m" by simp
      with m(1) False show ?thesis by simp
    qed
    moreover have "tree_effects ?t (mpls_write bi x) (''frr'', p) = Some v" if "?t (''frr'', p) = Some v"
      using that snoc.IH [of v] mpls_write_old [OF False, of ?t bi] by auto
    ultimately show ?thesis unfolding step lfib_snoc if_not_P [OF False] snoc.IH [symmetric] by blast
  qed
qed

section \<open>The lookup\<close>

lemma lfib_leaf_of:
  assumes "gp_elem (u_path u) = mplsElems l leaf" and "leaf \<noteq> []" and "u_val u = StringVal s"
  shows "lfib_leaf (out, nh, iface) u =
    (if leaf = ''out-label'' then s else out, if leaf = ''next-hop'' then s else nh, if leaf = ''interface'' then s else iface)"
proof -
  have "snd (dissect (u_path u)) = leaf"
    using assms(1, 2) by (simp add: dissect_def dissect_elem_def mplsElems_def with_leaf_def)
  then show ?thesis using assms(3) by (auto simp: lfib_leaf_def Let_def sval_def)
qed

definition seen_mpls :: "update list \<Rightarrow> 32 word \<Rightarrow> string \<Rightarrow> bool" where
  "seen_mpls us l leaf \<longleftrightarrow> (\<exists>u \<in> set us. gp_elem (u_path u) = mplsElems l leaf)"

lemma mplsLookup_partial:
  assumes "\<forall>u \<in> set us. \<exists>leaf \<in> set mpls_leaves. gp_elem (u_path u) = mplsElems l leaf \<and> u_val u = StringVal (V leaf)"
  shows "mplsLookup us =
    (if seen_mpls us l ''out-label'' then V ''out-label'' else [],
     if seen_mpls us l ''next-hop'' then V ''next-hop'' else [],
     if seen_mpls us l ''interface'' then V ''interface'' else [])"
  using assms
proof (induction us rule: rev_induct)
  case Nil
  then show ?case by (simp add: mplsLookup_def seen_mpls_def)
next
  case (snoc u us)
  then obtain leaf where u: "gp_elem (u_path u) = mplsElems l leaf" "leaf \<in> set mpls_leaves" "u_val u = StringVal (V leaf)"
    by auto
  have seen: "seen_mpls (us @ [u]) l k \<longleftrightarrow> seen_mpls us l k \<or> leaf = k" for k
    using u(1) by (auto simp: seen_mpls_def)
  have "mplsLookup (us @ [u]) = lfib_leaf (mplsLookup us) u" by (simp add: mplsLookup_def)
  with snoc lfib_leaf_of [OF u(1) mpls_leaves_nonempty [OF u(2)] u(3)] show ?case
    by (simp add: seen)
qed

text \<open>
  The tracer sees the label table: when the LFIB a node serves is what a snapshot of the kernel's
  MPLS routes wrote, the tracer's lookup of a label answers with the out-labels, next hop and
  interface of the last route of the snapshot with that label, and with nothing when there is
  none.
\<close>

theorem trace_sees_lfib:
  assumes "serves net a t" and "client_addr nodes n = Some a"
    and "\<And>p. selects (gp_elem (lfibPath (udec l))) p \<Longrightarrow>
      t (''frr'', p) = tree_effects Map.empty (snapshotMPLS bi (Some rs)) (''frr'', p)"
  shows "mplsLookup (gnmi_get nodes net n (lfibPath (udec l))) =
    (case lfib_route rs l of
       None \<Rightarrow> ([], [], [])
     | Some r \<Rightarrow> (mpls_text bi r ''out-label'', mpls_text bi r ''next-hop'', mpls_text bi r ''interface''))"
proof -
  let ?us = "gnmi_get nodes net n (lfibPath (udec l))"
  have us: "(p, v) \<in> (\<lambda>u. (gp_elem (u_path u), u_val u)) ` set ?us \<longleftrightarrow>
      selects (gp_elem (lfibPath (udec l))) p \<and>
      (\<exists>r leaf. lfib_route rs l = Some r \<and> leaf \<in> set mpls_leaves \<and> p = mplsElems l leaf \<and> v = StringVal (mpls_text bi r leaf))"
    for p v
    unfolding served_set [OF assms(1, 2) exporter_queries(8)] using assms(3) snapshot_lookup by auto
  show ?thesis
  proof (cases "lfib_route rs l")
    case None
    then have "?us = []" using us by (cases ?us) auto
    then show ?thesis using None by (simp add: mplsLookup_def)
  next
    case (Some r)
    have "\<forall>u \<in> set ?us. \<exists>leaf \<in> set mpls_leaves. gp_elem (u_path u) = mplsElems l leaf \<and> u_val u = StringVal (mpls_text bi r leaf)"
    proof
      fix u assume "u \<in> set ?us"
      then have "(gp_elem (u_path u), u_val u) \<in> (\<lambda>u. (gp_elem (u_path u), u_val u)) ` set ?us" by blast
      with Some show "\<exists>leaf \<in> set mpls_leaves. gp_elem (u_path u) = mplsElems l leaf \<and> u_val u = StringVal (mpls_text bi r leaf)"
        unfolding us by auto
    qed
    note look = mplsLookup_partial [OF this]
    have "seen_mpls ?us l leaf" if "leaf \<in> set mpls_leaves" for leaf
    proof -
      have "(mplsElems l leaf, StringVal (mpls_text bi r leaf)) \<in> (\<lambda>u. (gp_elem (u_path u), u_val u)) ` set ?us"
        unfolding us using that Some lfib_selects [OF mpls_leaves_nonempty [OF that], of l l] by auto
      then show ?thesis unfolding seen_mpls_def by force
    qed
    then show ?thesis unfolding look by (simp add: Some mpls_leaves_def)
  qed
qed

section \<open>Witness\<close>

definition sl_route :: mpls_route where
  "sl_route = \<lparr>mr_dst = Some 16, mr_newdst = Some [18, 19], mr_via = None, mr_gw = [10, 0, 0, 2], mr_link = 3\<rparr>"

definition sl_by_index :: by_index where
  "sl_by_index i = (if i = 3 then Some ''eth0'' else None)"

definition sl_leaves :: "((string \<times> path_elem list) \<times> typed_value) list" where
  "sl_leaves = map (\<lambda>leaf. ((''frr'', mplsElems 16 leaf), StringVal (mpls_text sl_by_index sl_route leaf))) mpls_leaves"

definition sl_net :: network where
  "sl_net a q = Some (serve_list (if a = ''m1:9339'' then sl_leaves else []) q)"

lemma sl_label: "mpls_label sl_route = Some 16"
  by (simp add: mpls_label_def sl_route_def)

lemma sl_tree: "tree_effects Map.empty (snapshotMPLS sl_by_index (Some [sl_route])) = map_of sl_leaves"
  by (rule ext) (auto simp: snapshotMPLS_def mpls_write_text sl_label put_tree_ups sl_leaves_def mpls_leaves_def)

theorem trace_sees_lfib_witness:
  "mplsLookup (gnmi_get [''p1'' \<mapsto> ''m1''] sl_net ''p1'' (lfibPath (udec (16 :: 32 word)))) =
     (''18,19'', ''10.0.0.2'', ''eth0'')"
proof -
  have served: "serves sl_net ''m1:9339'' (map_of sl_leaves)"
    by (rule serves_list) (simp_all add: sl_leaves_def mpls_leaves_def sl_net_def)
  have addr: "client_addr [''p1'' \<mapsto> ''m1''] ''p1'' = Some ''m1:9339''" by code_simp
  have route: "lfib_route [sl_route] 16 = Some sl_route" by (simp add: lfib_route_def sl_label)
  have texts: "mpls_text sl_by_index sl_route ''out-label'' = ''18,19''"
    "mpls_text sl_by_index sl_route ''next-hop'' = ''10.0.0.2''" "mpls_text sl_by_index sl_route ''interface'' = ''eth0''"
    by code_simp+
  have "mplsLookup (gnmi_get [''p1'' \<mapsto> ''m1''] sl_net ''p1'' (lfibPath (udec (16 :: 32 word)))) =
    (case lfib_route [sl_route] 16 of
       None \<Rightarrow> ([], [], [])
     | Some r \<Rightarrow> (mpls_text sl_by_index r ''out-label'', mpls_text sl_by_index r ''next-hop'',
         mpls_text sl_by_index r ''interface''))"
    by (rule trace_sees_lfib [OF served addr]) (simp only: sl_tree)
  then show ?thesis by (simp only: route option.case texts)
qed

end
