(* ===== verification/ServedNodes.thy ===== *)
theory ServedNodes
  imports ServedGet ServedFib ServedLfib
begin

text \<open>
  The path tracer over running shims: whatever a node's goroutines have been doing, the tables
  its tree serves are in order, the tracer's lookups search them, and a flow is reported as
  reached exactly when forwarding by the tables of the nodes gets there.
\<close>

section \<open>The AFT of a running shim\<close>

text \<open>The effects of the FPM handlers one by one: each keeps the AFT in order.\<close>

inductive fib_effect :: "effect \<Rightarrow> bool" where
  fe_emit: "fib_effect (EmitEvent bus kind key detail root)"
| fe_observe: "fib_effect (ObserveRoute p st b d)"
| fe_withdraw: "fib_effect (CacheUpdate ''openconfig'' []
    [aftPath vrf af pfx ''next-hop'', aftPath vrf af pfx ''pushed-mpls-label-stack''])"
| fe_push: "pfx \<noteq> [] \<Longrightarrow> fib_effect (CacheUpdate ''openconfig''
    [\<lparr>u_path = aftPath vrf af pfx ''next-hop'', u_val = StringVal nh\<rparr>,
     \<lparr>u_path = aftPath vrf af pfx ''pushed-mpls-label-stack'', u_val = StringVal ls\<rparr>] [])"
| fe_unlabel: "fib_effect (CacheUpdate ''openconfig'' [] [aftPath vrf af pfx ''pushed-mpls-label-stack''])"
| fe_plain: "pfx \<noteq> [] \<Longrightarrow> fib_effect (CacheUpdate ''openconfig''
    [\<lparr>u_path = aftPath vrf af pfx ''next-hop'', u_val = StringVal nh\<rparr>] [])"

lemma route_effects_fib_effect:
  assumes "pfx \<noteq> []" and "e \<in> set (route_effects w vrf af pfx nh push del)"
  shows "fib_effect e"
  using assms
  by (auto simp: route_effects_def Let_def emit_if_def observe_if_def strVal_def intro: fib_effect.intros split: if_splits)

lemma made_fib_effect: "route_made es \<Longrightarrow> e \<in> set es \<Longrightarrow> fib_effect e"
  by (induction rule: route_made.induct) (auto intro: route_effects_fib_effect)

lemma fpm_read_fib_effect:
  "fpm_frame env (f, n, []) ty body = Some (f', n', es) \<Longrightarrow> e \<in> set es \<Longrightarrow> fib_effect e"
  by (auto simp: fpm_frame_def split: if_splits dest: handleNetlink_made made_fib_effect)

text \<open>Every leaf is an AFT leaf.\<close>

definition aft_leaves_only :: "tree \<Rightarrow> bool" where
  "aft_leaves_only t \<longleftrightarrow> (\<forall>p v. t (''openconfig'', p) = Some v \<longrightarrow> aft_leaf p v)"

lemma fib_effect_leaves:
  assumes "fib_effect e" and "aft_leaves_only t"
  shows "aft_leaves_only (tree_effect t e)"
  unfolding aft_leaves_only_def
proof (intro allI impI)
  fix p v assume "tree_effect t e (''openconfig'', p) = Some v"
  with assms(1) have "t (''openconfig'', p) = Some v \<or> aft_leaf p v"
    by (cases rule: fib_effect.cases) (auto dest!: put_tree_some intro!: aft_leafI)
  with assms(2) show "aft_leaf p v" unfolding aft_leaves_only_def by blast
qed

lemma fib_of_updates:
  "fib_of (put_tree ''openconfig'' [] [aftPath vrf af pfx ''next-hop'', aftPath vrf af pfx ''pushed-mpls-label-stack''] t) =
     (fib_of t)((vrf, af, pfx) := (None, None))"
  "fib_of (put_tree ''openconfig'' [\<lparr>u_path = aftPath vrf af pfx ''next-hop'', u_val = x\<rparr>,
     \<lparr>u_path = aftPath vrf af pfx ''pushed-mpls-label-stack'', u_val = y\<rparr>] [] t) =
     (fib_of t)((vrf, af, pfx) := (Some x, Some y))"
  "fib_of (put_tree ''openconfig'' [] [aftPath vrf af pfx ''pushed-mpls-label-stack''] t) =
     (fib_of t)((vrf, af, pfx) := (fst (fib_of t (vrf, af, pfx)), None))"
  "fib_of (put_tree ''openconfig'' [\<lparr>u_path = aftPath vrf af pfx ''next-hop'', u_val = x\<rparr>] [] t) =
     (fib_of t)((vrf, af, pfx) := (Some x, snd (fib_of t (vrf, af, pfx))))"
  by (rule ext, auto simp: fib_of_def put_tree_def del_paths_lookup split: prod.splits)+

lemma fib_effect_fib:
  assumes "fib_effect e" and "\<forall>k. fst (fib_of t k) = None \<longrightarrow> snd (fib_of t k) = None"
  shows "\<forall>k. fst (fib_of (tree_effect t e) k) = None \<longrightarrow> snd (fib_of (tree_effect t e) k) = None"
  using assms(1)
  by (cases rule: fib_effect.cases) (use assms(2) in \<open>simp_all add: fib_of_updates\<close>)

lemma fib_effect_aft_ok: "fib_effect e \<Longrightarrow> aft_ok t \<Longrightarrow> aft_ok (tree_effect t e)"
  using fib_effect_leaves [of e t] fib_effect_fib [of e t] by (simp add: aft_ok_def aft_leaves_only_def)

definition fib_todo :: "node \<Rightarrow> bool" where
  "fib_todo s \<longleftrightarrow> (\<forall>c. \<forall>e \<in> set (nd_todo s (GFpm c)). fib_effect e)"

lemma fib_todo_step:
  assumes "node_step s l s'" and "fib_todo s"
  shows "fib_todo s'"
  using assms(1)
proof cases
  case (perform g e es now)
  with assms(2) have "\<forall>x \<in> set (e # es). fib_effect x" if "g = GFpm c" for c
    using that unfolding fib_todo_def by metis
  with perform assms(2) show ?thesis by (auto simp: fib_todo_def)
next
  case by_fpm
  then show ?thesis
    by cases (use assms(2) in \<open>auto simp: fib_todo_def dest: fpm_read_fib_effect\<close>)
next
  case by_bmp
  then show ?thesis by cases (use assms(2) in \<open>auto simp: fib_todo_def\<close>)
next
  case by_kernel
  then show ?thesis by cases (use assms(2) in \<open>auto simp: fib_todo_def batch_def\<close>)
next
  case by_lldp
  then show ?thesis by cases (use assms(2) in \<open>auto simp: fib_todo_def\<close>)
next
  case by_ospf
  then show ?thesis by cases (use assms(2) in \<open>auto simp: fib_todo_def\<close>)
next
  case by_sampler
  then show ?thesis by cases (use assms(2) in \<open>auto simp: fib_todo_def\<close>)
next
  case by_pass
  then show ?thesis by cases (use assms(2) in \<open>auto simp: fib_todo_def\<close>)
next
  case by_core
  then show ?thesis by cases (use assms(2) in \<open>auto simp: fib_todo_def\<close>)
qed

lemma did_fib_effect:
  assumes "node_step s (Did g now e) s'" and "fib_todo s" and "plane_of g = PFpm"
  shows "fib_effect e"
proof -
  from assms(1) obtain es where "nd_todo s g = e # es"
    by (cases rule: node_step.cases) (auto elim: step_cases(2-))
  moreover obtain c where "g = GFpm c" using assms(3) by (cases g) simp_all
  ultimately have "\<forall>x \<in> set (e # es). fib_effect x" using assms(2) unfolding fib_todo_def by metis
  then show ?thesis by simp
qed

lemma run_aft_ok:
  assumes "node_run (node_start target t0 fl bl su) ls s"
  shows "aft_ok (tree_effects Map.empty (did PFpm ls))"
proof -
  have "fib_todo s \<and> aft_ok (tree_effects Map.empty (did PFpm ls))"
    using assms
  proof (induction rule: node_run.induct)
    case run_nil
    show ?case by (simp add: fib_todo_def node_start_def aft_ok_empty)
  next
    case (run_snoc ls s l s')
    then have inv: "fib_todo s" "aft_ok (tree_effects Map.empty (did PFpm ls))" by simp_all
    have "aft_ok (tree_effects Map.empty (did PFpm (ls @ [l])))"
    proof (cases l)
      case (Did g now e)
      with inv did_fib_effect run_snoc.hyps(2) show ?thesis by (auto intro: fib_effect_aft_ok)
    qed (use inv in simp_all)
    with fib_todo_step [OF run_snoc.hyps(2) inv(1)] show ?case by blast
  qed
  then show ?thesis by blast
qed

lemma aft_query_owner: "selects (gp_elem trace_aftPath) p \<Longrightarrow> owner ''openconfig'' p = Some PFpm"
proof -
  assume "selects (gp_elem trace_aftPath) p"
  then obtain a b c r where p: "p = a # b # c # r" "selects_elem (el ''network-instances'') a" "selects_elem (el ''afts'') c"
    by (cases p; cases "tl p"; cases "tl (tl p)") (auto simp: trace_aftPath_def oc_path_def)
  then have "pe_name a = ''network-instances''" "pe_name c = ''afts''" by (simp_all add: selects_elem_def)
  with p(1) show ?thesis by (simp add: owner_def openconfig_owner_def instance_owner_def)
qed

lemma run_lookup:
  assumes "node_run (node_start target t0 fl bl su) ls s" and "fib = fib_of (s_tree (nd_shim s))"
    and "serves net a (s_tree (nd_shim s))" and "client_addr nodes n = Some a" and "one_vrf fib" and "length d = 4"
    and "enumerates xs (byPfx (gnmi_get nodes net n trace_aftPath))"
  shows "if \<exists>vrf p k. fib_match fib d vrf p k
    then \<exists>vrf p k. fib_match fib d vrf p k \<and> (\<forall>w q j. fib_match fib d w q j \<longrightarrow> j \<le> k) \<and>
      routeLookup xs (ip_string d) =
        (vrf, p, leaf_text (fst (fib (vrf, ''ipv4-unicast'', p))), leaf_text (snd (fib (vrf, ''ipv4-unicast'', p))))
    else routeLookup xs (ip_string d) = ([], [], [], [])"
proof -
  have "fib_of (s_tree (nd_shim s)) = fib_of (tree_effects Map.empty (did PFpm ls))"
    by (rule aft_plane) (rule plane_region [OF assms(1)])
  with assms(2) have fib: "fib = fib_of (tree_effects Map.empty (did PFpm ls))" by simp
  show ?thesis
    by (rule table_lookup [OF run_aft_ok [OF assms(1)] fib assms(3, 4) _ assms(5-7)])
      (rule plane_region [OF assms(1) aft_query_owner])
qed

section \<open>The LFIB of a running shim\<close>

definition lfibElems :: "string \<Rightarrow> string \<Rightarrow> path_elem list" where
  "lfibElems label leaf = [el ''mpls'', el ''lfib'', elk ''entry'' [(''label'', label)], el ''state'', el leaf]"

text \<open>What a tree says of a label: out-labels, next hop, interface.\<close>

definition lfib_text :: "tree \<Rightarrow> string \<Rightarrow> string \<Rightarrow> string" where
  "lfib_text t label leaf = leaf_text (t (''frr'', lfibElems label leaf))"

lemma mplsElems_lfib: "leaf \<noteq> [] \<Longrightarrow> mplsElems l leaf = lfibElems (udec l) leaf"
  by (simp add: mplsElems_def lfibElems_def with_leaf_def)

text \<open>The labels of a stack are texts of numbers, and no wildcard.\<close>

lemma no_star_dec: "CHR ''*'' \<notin> set (dec n)"
  using dec_digits [of n] by (auto simp: is_digit_def)

lemma no_star_csv: "CHR ''*'' \<notin> set (labelsCSV ls)" "CHR ''*'' \<notin> set (intsCSV ns)"
proof -
  have "CHR ''*'' \<notin> set (foldl (\<lambda>s (i, x). (if 0 < i then s @ '','' else s) @ udec x) s xs)"
    if "CHR ''*'' \<notin> set s" for s and xs :: "(nat \<times> 32 word) list"
    using that by (induction xs arbitrary: s) (auto simp: udec_def no_star_dec)
  then show "CHR ''*'' \<notin> set (labelsCSV ls)" by (simp add: labelsCSV_def)
  have "CHR ''*'' \<notin> set (foldl (\<lambda>s (i, x). (if 0 < i then s @ '','' else s) @ sdec x) s xs)"
    if "CHR ''*'' \<notin> set s" for s and xs :: "(nat \<times> int) list"
    using that by (induction xs arbitrary: s) (auto simp: sdec_def no_star_dec)
  then show "CHR ''*'' \<notin> set (intsCSV ns)" by (simp add: intsCSV_def)
qed

lemma split_on_set: "x \<in> set (split_on c s) \<Longrightarrow> set x \<subseteq> set s"
  by (induction c s arbitrary: x rule: split_on.induct) (fastforce split: if_splits list.splits)+

definition no_star :: "string list \<Rightarrow> bool" where
  "no_star stack \<longleftrightarrow> (\<forall>l \<in> set stack. CHR ''*'' \<notin> set l)"

lemma no_star_split: "CHR ''*'' \<notin> set s \<Longrightarrow> no_star (split_on c s)"
  using split_on_set by (fastforce simp: no_star_def)

text \<open>In a typed tree, what a query for a label selects.\<close>

lemma typed_mpls:
  assumes "typed_tree t" and "t (''frr'', p) = Some v" and "selects (gp_elem (lfibPath label)) p" and "label \<noteq> ''*''"
  shows "\<exists>l leaf s. p = mplsElems l leaf \<and> leaf \<in> set mpls_leaves \<and> v = StringVal s \<and> udec l = label"
proof -
  from assms(1, 2) obtain c where "schema c ''frr'' p v" unfolding typed_tree_def by blast
  then have "\<exists>l leaf s. p = mplsElems l leaf \<and> leaf \<in> set mpls_leaves \<and> v = StringVal s"
    by (cases rule: schema.cases)
      (use assms(3) in \<open>auto simp: mpls_leaves_def lfibPath_def oc_path_def selects_elem_def vpnRouteElems_def
        evpnRouteElems_def routeElems_def with_leaf_def\<close>)
  then obtain l leaf s where p: "p = mplsElems l leaf" "leaf \<in> set mpls_leaves" "v = StringVal s" by blast
  have "udec l = label"
    using assms(3, 4) mpls_leaves_nonempty [OF p(2)]
    by (simp add: p(1) lfibPath_def oc_path_def mplsElems_def with_leaf_def selects_elem_def)
  with p show ?thesis by blast
qed

lemma typed_mpls_lookup:
  assumes "typed_tree t" and "serves net a t" and "client_addr nodes n = Some a" and "label \<noteq> ''*''"
  shows "mplsLookup (gnmi_get nodes net n (lfibPath label)) =
    (lfib_text t label ''out-label'', lfib_text t label ''next-hop'', lfib_text t label ''interface'')"
proof -
  let ?us = "gnmi_get nodes net n (lfibPath label)"
  have us: "(p, v) \<in> (\<lambda>u. (gp_elem (u_path u), u_val u)) ` set ?us \<longleftrightarrow>
      selects (gp_elem (lfibPath label)) p \<and> t (''frr'', p) = Some v" for p v
    unfolding served_set [OF assms(2, 3) exporter_queries(8)] by simp
  have read: "\<exists>leaf. gp_elem (u_path u) = lfibElems label leaf \<and> leaf \<in> set mpls_leaves \<and>
      u_val u = StringVal (lfib_text t label leaf) \<and> (\<exists>l. udec (l :: 32 word) = label)" if "u \<in> set ?us" for u
  proof -
    from that have "(gp_elem (u_path u), u_val u) \<in> (\<lambda>u. (gp_elem (u_path u), u_val u)) ` set ?us" by blast
    then have sel: "selects (gp_elem (lfibPath label)) (gp_elem (u_path u))"
      and leaf: "t (''frr'', gp_elem (u_path u)) = Some (u_val u)" unfolding us by simp_all
    from typed_mpls [OF assms(1) leaf sel assms(4)] obtain l leaf s where
      p: "gp_elem (u_path u) = mplsElems l leaf" "leaf \<in> set mpls_leaves" "u_val u = StringVal s" "udec l = label" by blast
    have path: "gp_elem (u_path u) = lfibElems label leaf"
      using p(1, 4) mplsElems_lfib [OF mpls_leaves_nonempty [OF p(2)]] by simp
    with leaf p(3) have "lfib_text t label leaf = s" by (simp add: lfib_text_def leaf_text_def sval_def)
    with path p show ?thesis by blast
  qed
  show ?thesis
  proof (cases "\<exists>l. udec (l :: 32 word) = label")
    case True
    then obtain l where l: "udec (l :: 32 word) = label" by blast
    have "\<forall>u \<in> set ?us. \<exists>leaf \<in> set mpls_leaves. gp_elem (u_path u) = mplsElems l leaf \<and>
        u_val u = StringVal (lfib_text t label leaf)"
      using read l mplsElems_lfib mpls_leaves_nonempty by metis
    note look = mplsLookup_partial [OF this]
    have "(if seen_mpls ?us l leaf then lfib_text t label leaf else []) = lfib_text t label leaf"
      if "leaf \<in> set mpls_leaves" for leaf
    proof (cases "t (''frr'', lfibElems label leaf)")
      case None
      then show ?thesis by (simp add: lfib_text_def leaf_text_def)
    next
      case (Some v)
      have path: "mplsElems l leaf = lfibElems label leaf"
        using l mplsElems_lfib [OF mpls_leaves_nonempty [OF that], of l] by simp
      have "selects (gp_elem (lfibPath label)) (lfibElems label leaf)"
        by (simp add: lfibPath_def oc_path_def lfibElems_def selects_elem_def)
      with Some have "(lfibElems label leaf, v) \<in> (\<lambda>u. (gp_elem (u_path u), u_val u)) ` set ?us" unfolding us by blast
      then have "seen_mpls ?us l leaf" unfolding seen_mpls_def path by force
      then show ?thesis by simp
    qed
    then show ?thesis unfolding look by (simp add: mpls_leaves_def)
  next
    case False
    with read have none: "?us = []" by (cases ?us) auto
    have "t (''frr'', lfibElems label leaf) = None" for leaf
    proof (rule ccontr)
      assume "t (''frr'', lfibElems label leaf) \<noteq> None"
      then obtain v where "t (''frr'', lfibElems label leaf) = Some v" by blast
      moreover have "selects (gp_elem (lfibPath label)) (lfibElems label leaf)"
        by (simp add: lfibPath_def oc_path_def lfibElems_def selects_elem_def)
      ultimately show False using us [of "lfibElems label leaf" v] unfolding none by simp
    qed
    then show ?thesis by (simp add: none mplsLookup_def lfib_text_def leaf_text_def)
  qed
qed

text \<open>Neither table holds a wildcard for a label.\<close>

lemma typed_no_star:
  assumes "typed_tree t"
  shows "CHR ''*'' \<notin> set (lfib_text t label ''out-label'')"
    and "CHR ''*'' \<notin> set (leaf_text (snd (fib_of t (vrf, ''ipv4-unicast'', p))))"
proof -
  show "CHR ''*'' \<notin> set (lfib_text t label ''out-label'')"
  proof (cases "t (''frr'', lfibElems label ''out-label'')")
    case None
    then show ?thesis by (simp add: lfib_text_def leaf_text_def)
  next
    case (Some v)
    with assms obtain c where "schema c ''frr'' (lfibElems label ''out-label'') v" unfolding typed_tree_def by blast
    then have "\<exists>ls. v = StringVal (intsCSV ls)"
      by (cases rule: schema.cases)
        (auto simp: lfibElems_def vpnRouteElems_def evpnRouteElems_def routeElems_def mplsElems_def with_leaf_def split: if_splits)
    with Some no_star_csv(2) show ?thesis by (auto simp: lfib_text_def leaf_text_def sval_def)
  qed
  show "CHR ''*'' \<notin> set (leaf_text (snd (fib_of t (vrf, ''ipv4-unicast'', p))))"
  proof (cases "t (''openconfig'', gp_elem (aftPath vrf ''ipv4-unicast'' p ''pushed-mpls-label-stack''))")
    case None
    then show ?thesis by (simp add: fib_of_def leaf_text_def)
  next
    case (Some v)
    with assms obtain c where c: "schema c ''openconfig'' (gp_elem (aftPath vrf ''ipv4-unicast'' p ''pushed-mpls-label-stack'')) v"
      unfolding typed_tree_def by blast
    from schema_owner [OF c] have "c = PFpm" by simp
    with c have "\<exists>ls. v = StringVal (labelsCSV ls)" by (cases rule: schema.cases) auto
    with Some no_star_csv(1) show ?thesis by (auto simp: fib_of_def leaf_text_def sval_def)
  qed
qed

lemma no_star_simps:
  "no_star []" "no_star (x # xs) \<longleftrightarrow> CHR ''*'' \<notin> set x \<and> no_star xs"
  "no_star (xs @ ys) \<longleftrightarrow> no_star xs \<and> no_star ys"
  by (auto simp: no_star_def)

section \<open>Forwarding by the tables\<close>

text \<open>A route of the table that covers the destination such that no longer one does.\<close>

definition fib_best :: "fib \<Rightarrow> ip \<Rightarrow> string \<Rightarrow> string \<Rightarrow> bool" where
  "fib_best fib d vrf p \<longleftrightarrow> (\<exists>k. fib_match fib d vrf p k \<and> (\<forall>w q j. fib_match fib d w q j \<longrightarrow> j \<le> k))"

definition no_ties :: "fib \<Rightarrow> ip \<Rightarrow> bool" where
  "no_ties fib d \<longleftrightarrow> (\<forall>v p w q. fib_best fib d v p \<longrightarrow> fib_best fib d w q \<longrightarrow> p = q)"

definition fib_nh :: "tree \<Rightarrow> string \<Rightarrow> string \<Rightarrow> string" where
  "fib_nh t vrf p = leaf_text (fst (fib_of t (vrf, ''ipv4-unicast'', p)))"

definition fib_labels :: "tree \<Rightarrow> string \<Rightarrow> string \<Rightarrow> string" where
  "fib_labels t vrf p = leaf_text (snd (fib_of t (vrf, ''ipv4-unicast'', p)))"

text \<open>
  One step of a packet for \<open>d\<close> between the nodes, by the tables in their trees: a route
  without or with labels to push, a label to swap, to pop, or to pop into a VRF.
\<close>

inductive table_forwards ::
  "inventory \<Rightarrow> (string \<Rightarrow> tree) \<Rightarrow> ip2node \<Rightarrow> ip \<Rightarrow> string \<times> string list \<Rightarrow> string \<times> string list \<Rightarrow> bool"
  for nodes trees m d where
  tf_ip: "n \<in> dom nodes \<Longrightarrow> fib_best (fib_of (trees n)) d vrf p \<Longrightarrow> fib_labels (trees n) vrf p = [] \<Longrightarrow>
    nodeOf m (fib_nh (trees n) vrf p) \<noteq> ''?'' \<Longrightarrow>
    table_forwards nodes trees m d (n, []) (nodeOf m (fib_nh (trees n) vrf p), [])"
| tf_push: "n \<in> dom nodes \<Longrightarrow> fib_best (fib_of (trees n)) d vrf p \<Longrightarrow> fib_labels (trees n) vrf p \<noteq> [] \<Longrightarrow>
    nodeOf m (fib_nh (trees n) vrf p) \<noteq> ''?'' \<Longrightarrow>
    table_forwards nodes trees m d (n, [])
      (nodeOf m (fib_nh (trees n) vrf p), split_on CHR '','' (fib_labels (trees n) vrf p))"
| tf_swap: "n \<in> dom nodes \<Longrightarrow> lfib_text (trees n) l ''out-label'' \<noteq> [] \<Longrightarrow>
    nodeOf m (lfib_text (trees n) l ''next-hop'') \<noteq> ''?'' \<Longrightarrow>
    table_forwards nodes trees m d (n, l # rest)
      (nodeOf m (lfib_text (trees n) l ''next-hop''), split_on CHR '','' (lfib_text (trees n) l ''out-label'') @ rest)"
| tf_pop: "n \<in> dom nodes \<Longrightarrow> lfib_text (trees n) l ''out-label'' = [] \<Longrightarrow> lfib_text (trees n) l ''next-hop'' \<noteq> [] \<Longrightarrow>
    nodeOf m (lfib_text (trees n) l ''next-hop'') \<noteq> ''?'' \<Longrightarrow>
    table_forwards nodes trees m d (n, l # rest) (nodeOf m (lfib_text (trees n) l ''next-hop''), rest)"
| tf_vrf: "n \<in> dom nodes \<Longrightarrow> lfib_text (trees n) l ''out-label'' = [] \<Longrightarrow> lfib_text (trees n) l ''next-hop'' = [] \<Longrightarrow>
    lfib_text (trees n) l ''interface'' \<noteq> [] \<Longrightarrow> n \<noteq> ''?'' \<Longrightarrow>
    table_forwards nodes trees m d (n, l # rest) (n, rest)"

inductive_cases table_ipE: "table_forwards nodes trees m d (n, []) c"
inductive_cases table_mplsE: "table_forwards nodes trees m d (n, l # rest) c"

text \<open>
  What the lookups of a network answer, when every node's tree is in order: the contract under
  which the walk of the tracer is forwarding by the tables.
\<close>

definition answers_by_tables ::
  "inventory \<Rightarrow> (string \<Rightarrow> tree) \<Rightarrow> ip \<Rightarrow> (string \<Rightarrow> route_answer) \<Rightarrow> (string \<Rightarrow> string \<Rightarrow> mpls_answer) \<Rightarrow> bool" where
  "answers_by_tables nodes trees d rl ml \<longleftrightarrow>
     (\<forall>n. n \<notin> dom nodes \<longrightarrow> rl n = ([], [], [], []) \<and> (\<forall>l. ml n l = ([], [], []))) \<and>
     (\<forall>n \<in> dom nodes.
        (\<forall>vrf p. fib_best (fib_of (trees n)) d vrf p \<longrightarrow>
           p \<noteq> [] \<and> rl n = (vrf, p, fib_nh (trees n) vrf p, fib_labels (trees n) vrf p)) \<and>
        ((\<nexists>vrf p. fib_best (fib_of (trees n)) d vrf p) \<longrightarrow> rl n = ([], [], [], [])) \<and>
        (\<forall>l. l \<noteq> ''*'' \<longrightarrow> ml n l =
           (lfib_text (trees n) l ''out-label'', lfib_text (trees n) l ''next-hop'', lfib_text (trees n) l ''interface'')) \<and>
        (\<forall>vrf p. CHR ''*'' \<notin> set (fib_labels (trees n) vrf p)) \<and>
        (\<forall>l. CHR ''*'' \<notin> set (lfib_text (trees n) l ''out-label'')))"

lemma tables_answer:
  assumes "answers_by_tables nodes trees d rl ml"
  shows "n \<notin> dom nodes \<Longrightarrow> rl n = ([], [], [], [])" "n \<notin> dom nodes \<Longrightarrow> ml n l = ([], [], [])"
    and "n \<in> dom nodes \<Longrightarrow> fib_best (fib_of (trees n)) d vrf p \<Longrightarrow>
      rl n = (vrf, p, fib_nh (trees n) vrf p, fib_labels (trees n) vrf p) \<and> p \<noteq> []"
    and "n \<in> dom nodes \<Longrightarrow> (\<nexists>vrf p. fib_best (fib_of (trees n)) d vrf p) \<Longrightarrow> rl n = ([], [], [], [])"
    and "n \<in> dom nodes \<Longrightarrow> l \<noteq> ''*'' \<Longrightarrow> ml n l =
      (lfib_text (trees n) l ''out-label'', lfib_text (trees n) l ''next-hop'', lfib_text (trees n) l ''interface'')"
    and "n \<in> dom nodes \<Longrightarrow> no_star (split_on CHR '','' (fib_labels (trees n) vrf p))"
    and "n \<in> dom nodes \<Longrightarrow> no_star (split_on CHR '','' (lfib_text (trees n) l ''out-label''))"
  using assms unfolding answers_by_tables_def by (blast intro: no_star_split)+

lemma ip_step:
  assumes "answers_by_tables nodes trees d rl ml"
  shows "forwards rl ml m (n, []) c \<longleftrightarrow> table_forwards nodes trees m d (n, []) c"
proof (cases "n \<in> dom nodes \<and> (\<exists>vrf p. fib_best (fib_of (trees n)) d vrf p)")
  case True
  then have n: "n \<in> dom nodes" by simp
  note rl = tables_answer(3) [OF assms n]
  show ?thesis
  proof
    assume "forwards rl ml m (n, []) c"
    moreover from True obtain vrf p where "fib_best (fib_of (trees n)) d vrf p" by blast
    ultimately show "table_forwards nodes trees m d (n, []) c"
      using rl n by (elim forwards_ipE) (force intro: tf_ip tf_push)+
  next
    assume "table_forwards nodes trees m d (n, []) c"
    then show "forwards rl ml m (n, []) c"
      by (elim table_ipE) (use rl in \<open>force intro: fw_ip fw_push\<close>)+
  qed
next
  case False
  then have "rl n = ([], [], [], [])" using tables_answer(1, 4) [OF assms] by blast
  then have "\<not> forwards rl ml m (n, []) c" by (auto elim: forwards_ipE)
  moreover have "\<not> table_forwards nodes trees m d (n, []) c" using False by (auto elim: table_ipE)
  ultimately show ?thesis by blast
qed

lemma mpls_step:
  assumes "answers_by_tables nodes trees d rl ml" and "l \<noteq> ''*''"
  shows "forwards rl ml m (n, l # rest) c \<longleftrightarrow> table_forwards nodes trees m d (n, l # rest) c"
proof (cases "n \<in> dom nodes")
  case True
  note ml = tables_answer(5) [OF assms(1) True assms(2)]
  show ?thesis
  proof
    assume "forwards rl ml m (n, l # rest) c"
    then show "table_forwards nodes trees m d (n, l # rest) c"
      by (elim forwards_mplsE) (use ml True in \<open>auto intro: tf_swap tf_pop tf_vrf\<close>)
  next
    assume "table_forwards nodes trees m d (n, l # rest) c"
    then show "forwards rl ml m (n, l # rest) c"
      by (elim table_mplsE) (use ml in \<open>auto intro: fw_swap fw_php fw_vrf\<close>)
  qed
next
  case False
  then have "\<not> forwards rl ml m (n, l # rest) c" using tables_answer(2) [OF assms(1) False, of l] by (auto elim: forwards_mplsE)
  moreover have "\<not> table_forwards nodes trees m d (n, l # rest) c" using False by (auto elim: table_mplsE)
  ultimately show ?thesis by blast
qed

lemma step_iff:
  assumes "answers_by_tables nodes trees d rl ml" and "no_star (snd c)"
  shows "forwards rl ml m c c' \<longleftrightarrow> table_forwards nodes trees m d c c'"
proof (cases c)
  case (Pair n stack)
  show ?thesis
  proof (cases stack)
    case Nil
    then show ?thesis unfolding Pair by (simp add: ip_step [OF assms(1)])
  next
    case (Cons l rest)
    with assms(2) Pair have "l \<noteq> ''*''" by (auto simp: no_star_def)
    then show ?thesis unfolding Pair Cons by (rule mpls_step [OF assms(1)])
  qed
qed

lemma stack_plain:
  assumes "answers_by_tables nodes trees d rl ml" and "table_forwards nodes trees m d c c'" and "no_star (snd c)"
  shows "no_star (snd c')"
  using assms(2)
  by cases (use assms(3) in \<open>simp_all add: tables_answer(6, 7) [OF assms(1)] no_star_simps\<close>)

lemma steps_iff:
  assumes "answers_by_tables nodes trees d rl ml"
  shows "no_star (snd c) \<Longrightarrow> (forwards rl ml m ^^ j) c c' \<longleftrightarrow> (table_forwards nodes trees m d ^^ j) c c'"
proof (induction j arbitrary: c)
  case (Suc j)
  note one = step_iff [OF assms Suc.prems] stack_plain [OF assms _ Suc.prems]
  show ?case
  proof
    assume "(forwards rl ml m ^^ Suc j) c c'"
    then obtain b where "forwards rl ml m c b" "(forwards rl ml m ^^ j) b c'" by (meson relpowp_Suc_D2)
    with Suc.IH one show "(table_forwards nodes trees m d ^^ Suc j) c c'" by (meson relpowp_Suc_I2)
  next
    assume "(table_forwards nodes trees m d ^^ Suc j) c c'"
    then obtain b where "table_forwards nodes trees m d c b" "(table_forwards nodes trees m d ^^ j) b c'"
      by (meson relpowp_Suc_D2)
    with Suc.IH one show "(forwards rl ml m ^^ Suc j) c c'" by (meson relpowp_Suc_I2)
  qed
qed simp

lemma trace_by_tables:
  assumes "answers_by_tables nodes trees d rl ml"
  shows "snd (trace_with (\<lambda>_. rl) (\<lambda>_. ml) m start dst) \<longleftrightarrow>
     (\<exists>j<24. (table_forwards nodes trees m d ^^ j) (start, []) (dest_of m dst))"
  using steps_iff [OF assms, of "(start, [])"] by (simp add: trace_reached no_star_def)

text \<open>The nodes run: every tree is the tree of a shim in some state it can reach.\<close>

definition running :: "inventory \<Rightarrow> (string \<Rightarrow> tree) \<Rightarrow> bool" where
  "running nodes trees \<longleftrightarrow>
     (\<forall>n \<in> dom nodes. \<exists>target t0 fl bl su ls s.
        node_run (node_start target t0 fl bl su) ls s \<and> trees n = s_tree (nd_shim s))"

lemma fib_prefix_nonempty:
  assumes "typed_tree t" and "fst (fib_of t (vrf, ''ipv4-unicast'', p)) \<noteq> None"
  shows "p \<noteq> []"
proof -
  from assms(2) obtain v where "t (''openconfig'', gp_elem (aftPath vrf ''ipv4-unicast'' p ''next-hop'')) = Some v"
    by (auto simp: fib_of_def)
  with assms(1) obtain c where c: "schema c ''openconfig'' (gp_elem (aftPath vrf ''ipv4-unicast'' p ''next-hop'')) v"
    unfolding typed_tree_def by blast
  from schema_owner [OF c] have "c = PFpm" by simp
  with c show ?thesis by (cases rule: schema.cases) auto
qed

lemma lookups_by_tables:
  assumes "running nodes trees" and "all_served nodes net trees" and "length d = 4"
    and "\<forall>n \<in> dom nodes. one_vrf (fib_of (trees n)) \<and> no_ties (fib_of (trees n)) d"
    and "\<forall>n. enumerates (order (byPfx (gnmi_get nodes net n trace_aftPath))) (byPfx (gnmi_get nodes net n trace_aftPath))"
  shows "answers_by_tables nodes trees d
    (\<lambda>n. routeLookup (order (byPfx (gnmi_get nodes net n trace_aftPath))) (ip_string d))
    (\<lambda>n label. mplsLookup (gnmi_get nodes net n (lfibPath label)))"
proof -
  let ?rl = "\<lambda>n. routeLookup (order (byPfx (gnmi_get nodes net n trace_aftPath))) (ip_string d)"
  have out: "?rl n = ([], [], [], []) \<and> (\<forall>l. mplsLookup (gnmi_get nodes net n (lfibPath l)) = ([], [], []))"
    if "n \<notin> dom nodes" for n
  proof -
    have none: "gnmi_get nodes net n q = []" for q using that by (simp add: gnmi_get_def client_addr_def domIff)
    have "byPfx [] = Map.empty" by (simp add: byPfx_def)
    with assms(5) [rule_format, of n] have "order Map.empty = []" by (simp add: none enumerates_def)
    then show ?thesis by (simp add: none byPfx_def routeLookup_def mplsLookup_def Let_def)
  qed
  have "(\<forall>vrf p. fib_best (fib_of (trees n)) d vrf p \<longrightarrow>
           p \<noteq> [] \<and> ?rl n = (vrf, p, fib_nh (trees n) vrf p, fib_labels (trees n) vrf p)) \<and>
        ((\<nexists>vrf p. fib_best (fib_of (trees n)) d vrf p) \<longrightarrow> ?rl n = ([], [], [], [])) \<and>
        (\<forall>l. l \<noteq> ''*'' \<longrightarrow> mplsLookup (gnmi_get nodes net n (lfibPath l)) =
           (lfib_text (trees n) l ''out-label'', lfib_text (trees n) l ''next-hop'', lfib_text (trees n) l ''interface'')) \<and>
        (\<forall>vrf p. CHR ''*'' \<notin> set (fib_labels (trees n) vrf p)) \<and>
        (\<forall>l. CHR ''*'' \<notin> set (lfib_text (trees n) l ''out-label''))" if n: "n \<in> dom nodes" for n
  proof -
    let ?fib = "fib_of (trees n)"
    from assms(1) n obtain target t0 fl bl su ls s where run: "node_run (node_start target t0 fl bl su) ls s"
      and tree: "trees n = s_tree (nd_shim s)" unfolding running_def by blast
    from assms(2) n obtain a where a: "client_addr nodes n = Some a" "serves net a (trees n)"
      unfolding all_served_def by blast
    have vrf1: "one_vrf ?fib" and ties: "no_ties ?fib d" using assms(4) n by simp_all
    have ty: "typed_tree (trees n)" unfolding tree by (rule run_typed [OF run])
    have look: "if \<exists>vrf p k. fib_match ?fib d vrf p k
      then \<exists>vrf p k. fib_match ?fib d vrf p k \<and> (\<forall>w q j. fib_match ?fib d w q j \<longrightarrow> j \<le> k) \<and>
        ?rl n = (vrf, p, fib_nh (trees n) vrf p, fib_labels (trees n) vrf p)
      else ?rl n = ([], [], [], [])"
      unfolding fib_nh_def fib_labels_def
      by (rule run_lookup [OF run _ a(2) [unfolded tree] a(1) vrf1 assms(3) assms(5) [rule_format]]) (simp add: tree)
    have same: "v = w \<and> p = q" if "fib_best ?fib d v p" "fib_best ?fib d w q" for v w p q
    proof -
      have pq: "p = q" using ties that unfolding no_ties_def by blast
      have "fst (?fib (v, ''ipv4-unicast'', p)) \<noteq> None" "fst (?fib (w, ''ipv4-unicast'', q)) \<noteq> None"
        using that unfolding fib_best_def fib_match_def by blast+
      with vrf1 pq show ?thesis unfolding one_vrf_def by blast
    qed
    have best: "p \<noteq> [] \<and> ?rl n = (vrf, p, fib_nh (trees n) vrf p, fib_labels (trees n) vrf p)"
      if b: "fib_best ?fib d vrf p" for vrf p
    proof -
      have "\<exists>vrf p k. fib_match ?fib d vrf p k" using b unfolding fib_best_def by blast
      from look [unfolded if_P [OF this]] obtain w q where "fib_best ?fib d w q"
        "?rl n = (w, q, fib_nh (trees n) w q, fib_labels (trees n) w q)" unfolding fib_best_def by blast
      with same [OF b] have "?rl n = (vrf, p, fib_nh (trees n) vrf p, fib_labels (trees n) vrf p)" by metis
      moreover have "fst (?fib (vrf, ''ipv4-unicast'', p)) \<noteq> None" using b unfolding fib_best_def fib_match_def by blast
      ultimately show ?thesis using fib_prefix_nonempty [OF ty] by blast
    qed
    have drop: "?rl n = ([], [], [], [])" if "\<nexists>vrf p. fib_best ?fib d vrf p"
    proof -
      have "\<not> (\<exists>vrf p k. fib_match ?fib d vrf p k)"
      proof
        assume "\<exists>vrf p k. fib_match ?fib d vrf p k"
        from look [unfolded if_P [OF this]] that show False unfolding fib_best_def by blast
      qed
      from look [unfolded if_not_P [OF this]] show ?thesis .
    qed
    show ?thesis
      using best drop typed_mpls_lookup [OF ty a(2, 1)] typed_no_star [OF ty] unfolding fib_labels_def by blast
  qed
  with out show ?thesis unfolding answers_by_tables_def by blast
qed

lemma shims_answer:
  assumes "running nodes trees" and "completes complete" and "shims_serve complete query target nodes net trees"
  shows "all_served nodes net trees"
proof (rule shims_all_served [OF assms(2, 3)])
  fix n assume "n \<in> dom nodes"
  with assms(1) show "typed_tree (trees n)" unfolding running_def using run_typed by metis
qed

text \<open>
  C1. The path trace tells the truth about the network: when every node of the inventory runs a
  shim, in whatever state, that answers Gets over its tree, and its IPv4 table has no prefix in
  two VRFs and no two longest matches for the destination, then a flow to an IPv4 destination
  is reported as reached exactly when forwarding by the tables in those trees (IP lookup with
  or without a label push, swap, pop, pop into a VRF) leads from the start to the node of the
  destination with an empty stack in at most 23 steps.
\<close>

theorem trace_is_forwarding:
  assumes "running nodes trees" and "completes complete" and "shims_serve complete query target nodes net trees"
    and "length d = 4"
    and "\<forall>n \<in> dom nodes. one_vrf (fib_of (trees n)) \<and> no_ties (fib_of (trees n)) d"
    and "\<forall>n. enumerates (order (byPfx (gnmi_get nodes net n trace_aftPath))) (byPfx (gnmi_get nodes net n trace_aftPath))"
  shows "snd (trace_flow nodes (\<lambda>_. net) (\<lambda>_. order) m start (ip_string d)) \<longleftrightarrow>
    (\<exists>j<24. (table_forwards nodes trees m d ^^ j) (start, []) (dest_of m (ip_string d)))"
  using trace_by_tables [OF lookups_by_tables [OF assms(1) shims_answer [OF assms(1-3)] assms(4-6)]]
  by (simp add: trace_flow_def)

section \<open>A network to trace\<close>

lemma finite_byPfx: "finite (dom (byPfx us))"
  by (induction us rule: rev_induct)
    (auto simp: byPfx_def add_aft_def Let_def split: prod.split intro: finite_subset)

text \<open>A session of one route without labels, by a gateway or connected.\<close>

definition tn_route :: "ip \<Rightarrow> kmsg" where
  "tn_route gw = route_msg False (v4route [10, 0, 1, 0] 24 254 gw 0 [])"

definition tn_table :: "string \<Rightarrow> fib" where
  "tn_table nh = (fib_of Map.empty)((''default'', ''ipv4-unicast'', sf_prefix) := (Some (StringVal nh), None))"

lemma tn_ok: "gw = [] \<or> length gw = 4 \<Longrightarrow> \<forall>m \<in> set [tn_route gw]. ok_kmsg m"
  by (auto simp: tn_route_def ok_route_msg)

lemma tn_fib:
  "snd (snd (foldl (fib_step (\<lambda>_. Some [])) (NewFPM (Some []) all_wired, 0, fib_of Map.empty) [tn_route gw])) =
     tn_table (if gw = [] then ''-'' else ip_string gw)"
  by (simp add: tn_route_def fib_step_route_msg Name_def NewFPM_def hop_text_def fib_entry_def sf_prefix_def tn_table_def)

lemma tn_run:
  assumes "gw = [] \<or> length gw = 4"
  shows "\<exists>ls s. node_run demo_node ls s \<and> fib_of (s_tree (nd_shim s)) = tn_table (if gw = [] then ''-'' else ip_string gw)"
proof -
  note ok = tn_ok [OF assms]
  obtain ls s where s: "serving_zebra demo_node 0 s ls (\<lambda>_. Some []) [tn_route gw]"
    using session_run [OF ok] by blast
  have "fib_of (s_tree (nd_shim s)) =
      snd (snd (foldl (fib_step (\<lambda>_. Some [])) (NewFPM (Some []) all_wired, 0, fib_of Map.empty) [tn_route gw]))"
    by (rule session_in_tree [OF _ ok]) (use s in \<open>auto simp: serving_zebra_def idle_def\<close>)
  with s show ?thesis unfolding tn_fib serving_zebra_def by blast
qed

lemma enumerable_maps:
  "\<exists>order. \<forall>n. enumerates (order (byPfx (us n))) (byPfx (us n))"
proof -
  have "enumerates (SOME xs. enumerates xs (byPfx (us n))) (byPfx (us n))" for n
    by (rule someI_ex) (rule enumerable [OF finite_byPfx])
  then show ?thesis by (intro exI [of _ "\<lambda>m. SOME xs. enumerates xs m"] allI)
qed

definition tn_nodes :: inventory where
  "tn_nodes = [''pe1'' \<mapsto> ''m1'', ''ce1'' \<mapsto> ''m2'']"

definition tn_ip2node :: ip2node where
  "tn_ip2node = [ip_string [192, 0, 2, 1] \<mapsto> ''ce1'', ip_string [10, 0, 1, 7] \<mapsto> ''ce1'']"

lemma tn_match:
  assumes "nh \<noteq> []"
  shows "fib_match (tn_table nh) [10, 0, 1, 7] ''default'' sf_prefix 24"
    and "fib_match (tn_table nh) [10, 0, 1, 7] w q j \<Longrightarrow> w = ''default'' \<and> q = sf_prefix \<and> j = 24"
proof -
  let ?r = "\<lparr>ar_vrf = ''default'', ar_addr = [10, 0, 1, 0], ar_len = 24, ar_nh = nh, ar_labels = []\<rparr>"
  have "ok_aft_route ?r" using assms by (simp add: ok_aft_route_def)
  moreover have "take 24 (addr_bits [10, 0, 1, 0]) = take 24 (addr_bits [10, 0, 1, 7])" by code_simp
  then have "covers ?r [10, 0, 1, 7]" by (simp add: covers_def)
  ultimately have m: "matching [10, 0, 1, 7] (ar_prefix ?r, ent_of ?r) = Some 24" by (simp add: matching_route)
  then show match: "fib_match (tn_table nh) [10, 0, 1, 7] ''default'' sf_prefix 24"
    by (simp add: fib_match_def tn_table_def fib_ent_def leaf_text_def sval_def ent_of_def ar_prefix_def sf_prefix_def)
  assume j: "fib_match (tn_table nh) [10, 0, 1, 7] w q j"
  then have "fst (tn_table nh (w, ''ipv4-unicast'', q)) \<noteq> None" unfolding fib_match_def by blast
  then have wq: "w = ''default'' \<and> q = sf_prefix"
    by (cases "w = ''default'' \<and> q = sf_prefix") (auto simp: tn_table_def fib_of_def)
  with j match have "Some j = Some (24 :: nat)" unfolding fib_match_def by (metis (no_types))
  with wq show "w = ''default'' \<and> q = sf_prefix \<and> j = 24" by simp
qed

lemma tn_best:
  assumes "fib_of t = tn_table nh" and "nh \<noteq> []"
  shows "fib_best (fib_of t) [10, 0, 1, 7] ''default'' sf_prefix" "fib_nh t ''default'' sf_prefix = nh"
    "fib_labels t ''default'' sf_prefix = []"
proof -
  have "\<forall>w q j. fib_match (tn_table nh) [10, 0, 1, 7] w q j \<longrightarrow> j \<le> 24"
    using tn_match(2) [OF assms(2)] by simp
  with tn_match(1) [OF assms(2)] show "fib_best (fib_of t) [10, 0, 1, 7] ''default'' sf_prefix"
    unfolding fib_best_def assms(1) by blast
  have "fib_of t (''default'', ''ipv4-unicast'', sf_prefix) = (Some (StringVal nh), None)"
    unfolding assms(1) tn_table_def by (simp only: fun_upd_same)
  then show "fib_nh t ''default'' sf_prefix = nh" "fib_labels t ''default'' sf_prefix = []"
    by (simp_all add: fib_nh_def fib_labels_def leaf_text_def sval_def)
qed

lemma tn_forwards:
  assumes "fib_of (trees ''pe1'') = tn_table (ip_string [192, 0, 2, 1])"
  shows "table_forwards tn_nodes trees tn_ip2node [10, 0, 1, 7] (''pe1'', []) (dest_of tn_ip2node (ip_string [10, 0, 1, 7]))"
proof -
  have "ip_string [192, 0, 2, 1] \<noteq> []" by code_simp
  note best = tn_best [OF assms this]
  have node: "nodeOf tn_ip2node (ip_string [192, 0, 2, 1]) = ''ce1''" by code_simp
  have dest: "dest_of tn_ip2node (ip_string [10, 0, 1, 7]) = (''ce1'', [])" by code_simp
  have "table_forwards tn_nodes trees tn_ip2node [10, 0, 1, 7] (''pe1'', []) (nodeOf tn_ip2node (fib_nh (trees ''pe1'') ''default'' sf_prefix), [])"
    by (rule tf_ip [where n = "''pe1''"]) (simp_all add: best node tn_nodes_def)
  then show ?thesis unfolding best(2) node dest .
qed

text \<open>Two nodes, the first with the route.\<close>

definition tn_trees :: "tree \<Rightarrow> string \<Rightarrow> tree" where
  "tn_trees t n = (if n = ''pe1'' then t else Map.empty)"

definition tn_query ::
  "((string \<times> path_elem list) \<times> typed_value) list \<Rightarrow> string \<Rightarrow> string \<Rightarrow> string list \<Rightarrow> unit leaf list \<times> string option" where
  "tn_query leaves n = query_list (if n = ''pe1'' then leaves else [])"

definition tn_net :: "((string \<times> path_elem list) \<times> typed_value) list \<Rightarrow> network" where
  "tn_net leaves a q = shim_answer complete_index (tn_query leaves (if a = ''m1:9339'' then ''pe1'' else ''ce1'')) ''frr'' q"

lemma tn_running:
  assumes "node_run demo_node ls s"
  shows "running tn_nodes (tn_trees (s_tree (nd_shim s)))"
proof -
  have "node_run demo_node [] demo_node" "Map.empty = s_tree (nd_shim demo_node)"
    by (simp_all only: run_nil node_start_def shim_start_def node.simps shim.simps)
  with assms show ?thesis unfolding running_def tn_trees_def by metis
qed

lemma tn_served:
  assumes "enumerates leaves t"
  shows "shims_serve complete_index (tn_query leaves) (\<lambda>_. ''frr'') tn_nodes (tn_net leaves) (tn_trees t)"
proof -
  have "visits (query_list []) ''frr'' Map.empty" by (rule visits_list) (simp add: enumerates_def)
  then have vis: "visits (tn_query leaves n) ''frr'' (tn_trees t n)" for n
    using visits_list [OF assms, of "''frr''"] unfolding tn_query_def tn_trees_def
    by (cases "n = ''pe1''") (simp_all only: if_True if_False simp_thms)
  have addr: "client_addr tn_nodes ''pe1'' = Some ''m1:9339''" "client_addr tn_nodes ''ce1'' = Some ''m2:9339''" by code_simp+
  have "\<exists>a. client_addr tn_nodes n = Some a \<and> (\<forall>q. tn_net leaves a q = shim_answer complete_index (tn_query leaves n) ''frr'' q)"
    if "n \<in> dom tn_nodes" for n
  proof -
    from that have "n = ''pe1'' \<or> n = ''ce1''" by (auto simp: tn_nodes_def split: if_splits)
    moreover have "tn_net leaves ''m1:9339'' q = shim_answer complete_index (tn_query leaves ''pe1'') ''frr'' q"
      "tn_net leaves ''m2:9339'' q = shim_answer complete_index (tn_query leaves ''ce1'') ''frr'' q" for q
      by (simp_all only: tn_net_def, simp_all)
    ultimately show ?thesis using addr by blast
  qed
  with vis show ?thesis unfolding shims_serve_def by blast
qed

lemma tn_tables:
  assumes "fib_of t = tn_table nh" and "nh \<noteq> []"
  shows "one_vrf (fib_of (tn_trees t n)) \<and> no_ties (fib_of (tn_trees t n)) [10, 0, 1, 7]"
proof -
  have "one_vrf (fib_of Map.empty)" "no_ties (fib_of Map.empty) [10, 0, 1, 7]"
    by (simp_all add: one_vrf_def no_ties_def fib_best_def fib_match_def fib_of_def)
  moreover have "one_vrf (fib_of t)" by (simp add: one_vrf_def assms(1) tn_table_def) (simp add: fib_of_def)
  moreover have "p = sf_prefix" if "fib_best (fib_of t) [10, 0, 1, 7] v p" for v p
    using that tn_match(2) [OF assms(2)] unfolding fib_best_def assms(1) by blast
  then have "no_ties (fib_of t) [10, 0, 1, 7]" unfolding no_ties_def by blast
  ultimately show ?thesis unfolding tn_trees_def by (cases "n = ''pe1''") (simp_all only: if_True if_False simp_thms)
qed

text \<open>The network whose first node has a route to the prefix: by a gateway, or connected.\<close>

lemma tn_network:
  assumes "gw = [] \<or> length gw = 4" and "nh = (if gw = [] then ''-'' else ip_string gw)" and "nh \<noteq> []"
  shows "\<exists>t leaves net order. fib_of t = tn_table nh \<and> running tn_nodes (tn_trees t) \<and> shims_serve complete_index (tn_query leaves) (\<lambda>_. ''frr'') tn_nodes net (tn_trees t) \<and>
    (\<forall>n \<in> dom tn_nodes. one_vrf (fib_of (tn_trees t n)) \<and> no_ties (fib_of (tn_trees t n)) [10, 0, 1, 7]) \<and>
    (\<forall>n. enumerates (order (byPfx (gnmi_get tn_nodes net n trace_aftPath))) (byPfx (gnmi_get tn_nodes net n trace_aftPath)))"
proof -
  obtain ls s where run: "node_run demo_node ls s" and fib: "fib_of (s_tree (nd_shim s)) = tn_table nh"
    using tn_run [OF assms(1)] unfolding assms(2) by blast
  obtain leaves where leaves: "enumerates leaves (s_tree (nd_shim s))" using enumerable [OF run_finite [OF run]] by blast
  obtain order where order: "\<forall>n. enumerates (order (byPfx (gnmi_get tn_nodes (tn_net leaves) n trace_aftPath)))
      (byPfx (gnmi_get tn_nodes (tn_net leaves) n trace_aftPath))"
    using enumerable_maps [of "\<lambda>n. gnmi_get tn_nodes (tn_net leaves) n trace_aftPath"] by blast
  from fib tn_running [OF run] tn_served [OF leaves] tn_tables [OF fib assms(3)] order show ?thesis by blast
qed

theorem trace_is_forwarding_witness:
  "\<exists>trees leaves net order. running tn_nodes trees \<and>
     shims_serve complete_index (tn_query leaves) (\<lambda>_. ''frr'') tn_nodes net trees \<and>
     snd (trace_flow tn_nodes (\<lambda>_. net) (\<lambda>_. order) tn_ip2node ''pe1'' (ip_string [10, 0, 1, 7]))"
proof -
  have gw: "[192 :: byte, 0, 2, 1] = [] \<or> length [192 :: byte, 0, 2, 1] = 4" by simp
  have nh: "ip_string [192, 0, 2, 1] = (if [192 :: byte, 0, 2, 1] = [] then ''-'' else ip_string [192, 0, 2, 1])" by simp
  have "ip_string [192, 0, 2, 1] \<noteq> []" by code_simp
  from tn_network [OF gw nh this] obtain t leaves net order where fib: "fib_of t = tn_table (ip_string [192, 0, 2, 1])"
    and run: "running tn_nodes (tn_trees t)" and served: "shims_serve complete_index (tn_query leaves) (\<lambda>_. ''frr'') tn_nodes net (tn_trees t)"
    and tabs: "\<forall>n \<in> dom tn_nodes. one_vrf (fib_of (tn_trees t n)) \<and> no_ties (fib_of (tn_trees t n)) [10, 0, 1, 7]"
    and order: "\<forall>n. enumerates (order (byPfx (gnmi_get tn_nodes net n trace_aftPath))) (byPfx (gnmi_get tn_nodes net n trace_aftPath))"
    by blast
  have "fib_of (tn_trees t ''pe1'') = tn_table (ip_string [192, 0, 2, 1])" using fib by (simp add: tn_trees_def)
  from tn_forwards [of "tn_trees t", OF this] have "(table_forwards tn_nodes (tn_trees t) tn_ip2node [10, 0, 1, 7] ^^ Suc 0) (''pe1'', [])
      (dest_of tn_ip2node (ip_string [10, 0, 1, 7]))" by (simp only: relpowp_1 One_nat_def [symmetric])
  moreover have "Suc 0 < 24" by simp
  ultimately have j: "\<exists>j<24. (table_forwards tn_nodes (tn_trees t) tn_ip2node [10, 0, 1, 7] ^^ j) (''pe1'', [])
      (dest_of tn_ip2node (ip_string [10, 0, 1, 7]))" by blast
  have "length [10 :: byte, 0, 1, 7] = 4" by simp
  from trace_is_forwarding [OF run completes_index served this tabs order, THEN iffD2, OF j] run served show ?thesis by blast
qed

section \<open>The last hop\<close>

lemma connected_walk:
  assumes "rl start = (vrf, p, ''-'', [])" and "m ''-'' = None" and "dest_of m dst \<noteq> (start, [])"
  shows "trace_with (\<lambda>_. rl) (\<lambda>_. ml) m start dst =
    ([\<lparr>th_seq = 1, th_node = start, th_kind = ''ip'', th_nexthop = ''-'', th_label = [], th_detail = ''vrf='' @ vrf @ '' '' @ p\<rparr>,
      \<lparr>th_seq = 2, th_node = ''?'', th_kind = ''drop'', th_nexthop = [], th_label = [], th_detail = ''next-hop not in inventory''\<rparr>],
     False)"
proof -
  have "(case m dst of Some n \<Rightarrow> n | None \<Rightarrow> []) \<noteq> start" using assms(3) by (simp add: dest_of_def)
  moreover have "nodeOf m ''-'' = ''?''" using assms(2) by (simp add: nodeOf_def)
  ultimately show ?thesis
    using assms(1) by (simp add: trace_with_def trace_turn_def trace_ip_def add_hop_def move_to_def numeral_eq_Suc Let_def)
qed

text \<open>
  C28. The last hop over a connected network is a drop to the tracer: when a node's longest match for the
  destination is a connected route, whose next hop the collector writes as a dash, and the
  destination is an address of another node, then a trace from there is one IP hop to the dash
  and a drop ''next-hop not in inventory'', though the packet would be delivered on the wire.
\<close>

theorem connected_destination_dropped:
  assumes "running nodes trees" and "completes complete" and "shims_serve complete query target nodes net trees"
    and "length d = 4"
    and "\<forall>n \<in> dom nodes. one_vrf (fib_of (trees n)) \<and> no_ties (fib_of (trees n)) d"
    and "\<forall>n. enumerates (order (byPfx (gnmi_get nodes net n trace_aftPath))) (byPfx (gnmi_get nodes net n trace_aftPath))"
    and "start \<in> dom nodes" and "fib_best (fib_of (trees start)) d vrf p"
    and "fib_nh (trees start) vrf p = ''-''" and "fib_labels (trees start) vrf p = []"
    and "m ''-'' = None" and "dest_of m (ip_string d) \<noteq> (start, [])"
  shows "trace_flow nodes (\<lambda>_. net) (\<lambda>_. order) m start (ip_string d) =
    ([\<lparr>th_seq = 1, th_node = start, th_kind = ''ip'', th_nexthop = ''-'', th_label = [], th_detail = ''vrf='' @ vrf @ '' '' @ p\<rparr>,
      \<lparr>th_seq = 2, th_node = ''?'', th_kind = ''drop'', th_nexthop = [], th_label = [], th_detail = ''next-hop not in inventory''\<rparr>],
     False)"
  unfolding trace_flow_def
  by (rule connected_walk [OF _ assms(11, 12)])
    (use tables_answer(3) [OF lookups_by_tables [OF assms(1) shims_answer [OF assms(1-3)] assms(4-6)] assms(7, 8)] assms(9, 10) in simp)

theorem connected_destination_dropped_witness:
  "\<exists>trees leaves net order. running tn_nodes trees \<and>
     shims_serve complete_index (tn_query leaves) (\<lambda>_. ''frr'') tn_nodes net trees \<and>
     \<not> snd (trace_flow tn_nodes (\<lambda>_. net) (\<lambda>_. order) tn_ip2node ''pe1'' (ip_string [10, 0, 1, 7]))"
proof -
  have gw: "([] :: ip) = [] \<or> length ([] :: ip) = 4" by simp
  have nh: "''-'' = (if ([] :: ip) = [] then ''-'' else ip_string [])" by simp
  have ne: "''-'' \<noteq> []" by simp
  from tn_network [OF gw nh ne] obtain t leaves net order where fib: "fib_of t = tn_table ''-''"
    and run: "running tn_nodes (tn_trees t)" and served: "shims_serve complete_index (tn_query leaves) (\<lambda>_. ''frr'') tn_nodes net (tn_trees t)"
    and tabs: "\<forall>n \<in> dom tn_nodes. one_vrf (fib_of (tn_trees t n)) \<and> no_ties (fib_of (tn_trees t n)) [10, 0, 1, 7]"
    and order: "\<forall>n. enumerates (order (byPfx (gnmi_get tn_nodes net n trace_aftPath))) (byPfx (gnmi_get tn_nodes net n trace_aftPath))"
    by blast
  have "fib_of (tn_trees t ''pe1'') = tn_table ''-''" using fib by (simp add: tn_trees_def)
  note best = tn_best [OF this ne]
  have len: "length [10 :: byte, 0, 1, 7] = 4" by simp
  have pe1: "''pe1'' \<in> dom tn_nodes" by (simp add: tn_nodes_def)
  have dash: "tn_ip2node ''-'' = None" by code_simp
  have "dest_of tn_ip2node (ip_string [10, 0, 1, 7]) = (''ce1'', [])" by code_simp
  then have dest: "dest_of tn_ip2node (ip_string [10, 0, 1, 7]) \<noteq> (''pe1'', [])" by simp
  from connected_destination_dropped [OF run completes_index served len tabs order pe1 best dash dest] run served show ?thesis
    by (metis snd_conv)
qed

end
