(* ===== verification/ShimLfib.thy ===== *)
theory ShimLfib
  imports ShimLoops ServedNodes
begin

text \<open>
  From the kernel's MPLS table to the path tracer's answer, through the running shim: the
  goroutine that takes the snapshot and then the samples is the only writer of the label table
  in the tree, which never loses an entry, so that the tracer's lookup of a label answers with
  the last route any dump had for it.
\<close>

section \<open>The dumps\<close>

definition poll_takes :: "label \<Rightarrow> (unit \<times> dumps) list" where
  "poll_takes l = (case l of DumpRead d \<Rightarrow> [((), d)] | _ \<Rightarrow> [])"

text \<open>The first dump is the snapshot, the others are samples.\<close>

definition poll_reads :: "bool \<Rightarrow> dumps \<Rightarrow> (bool \<times> effect list) option" where
  "poll_reads snapped d = Some (True, if snapped then counter_tick d else snapshot d)"

lemma poll_takes_simps [simp]:
  "poll_takes (Did g now e) = []" "poll_takes (Accepted g now) = []" "poll_takes (FpmFrame c links ty body) = []"
  "poll_takes (BmpFrame c env ty body) = []" "poll_takes (RouteRead u) = []" "poll_takes (DumpRead d) = [((), d)]"
  "poll_takes (OspfRead y) = []" "poll_takes (Passed now xs) = []" "poll_takes (Folded x) = []" "poll_takes Tau = []"
  by (simp_all add: poll_takes_def)

lemma snapped_simps [simp]: "nd_snapped (batch g es s) = nd_snapped s" "nd_snapped (on_shim f s) = nd_snapped s"
  by (simp_all add: batch_def on_shim_def)

interpretation poll_in: collector "\<lambda>_. GPoll" nd_snapped poll_takes poll_reads
proof
  fix s l s' k x xs
  assume "node_step s l s'" and "poll_takes l = (k, x) # xs"
  then show "xs = [] \<and> (\<exists>es. nd_todo s GPoll = [] \<and> poll_reads (nd_snapped s) x = Some (nd_snapped s', es) \<and>
      nd_todo s' = (nd_todo s)(GPoll := es) \<and> did_by (range (\<lambda>_ :: unit. GPoll)) [l] = [])"
    by (elim step_cases) (auto simp: poll_reads_def idle_def batch_def)
next
  fix s l s'
  assume "node_step s l s'" and "poll_takes l = []" and "\<And>g now e. l \<noteq> Did g now e"
  then show "nd_snapped s' = nd_snapped s \<and> (\<forall>k :: unit. nd_todo s' GPoll = nd_todo s GPoll)"
    by (elim step_cases) auto
qed simp_all

definition poll_inputs :: "label list \<Rightarrow> dumps list" where
  "poll_inputs ls = map snd (concat (map poll_takes ls))"

text \<open>The MPLS routes of the dumps, with the interface names of their dump; without links there is no snapshot.\<close>

definition dump_routes :: "bool \<Rightarrow> dumps \<Rightarrow> (by_index \<times> mpls_route) list" where
  "dump_routes snapped d =
     (if \<not> snapped \<and> d_links d = None then []
      else case d_mpls d of None \<Rightarrow> [] | Some rs \<Rightarrow> map (Pair (d_by_index d)) rs)"

fun polled :: "bool \<Rightarrow> dumps list \<Rightarrow> (by_index \<times> mpls_route) list" where
  "polled snapped [] = []"
| "polled snapped (d # ds) = dump_routes snapped d @ polled True ds"

definition last_mpls :: "(by_index \<times> mpls_route) list \<Rightarrow> 32 word \<Rightarrow> (by_index \<times> mpls_route) option" where
  "last_mpls prs l = find (\<lambda>(bi, r). mpls_label r = Some l) (rev prs)"

section \<open>The label table in the tree\<close>

definition is_lfib :: "path_elem list \<Rightarrow> bool" where
  "is_lfib p \<longleftrightarrow> (\<exists>l leaf. p = mplsElems l leaf)"

lemma is_lfib_mpls [simp]: "is_lfib (mplsElems l leaf)"
  by (auto simp: is_lfib_def)

lemma route_not_lfib: "\<not> is_lfib (routeElems pfx tb leaf)" "is_lfib p \<Longrightarrow> \<not> below (routeElems pfx tb leaf) p"
  by (auto simp: is_lfib_def mplsElems_def routeElems_def with_leaf_def below_def split: if_splits)

lemma spares_route: "e \<in> set (route_event w u) \<Longrightarrow> spares is_lfib e"
  by (auto simp: route_event_def emit_if_def observe_if_def Let_def route_not_lfib split: if_splits)

interpretation lfib: sole_writer GPoll is_lfib
proof
  show "owner ''frr'' p = Some PNetlink" if "is_lfib p" for p using that by (auto simp: is_lfib_def)
  show "todo_spares GPoll is_lfib s'" if "node_step s l s'" "todo_spares GPoll is_lfib s" for s l s'
    using that by (elim step_cases) (auto simp: todo_spares_def spares_elsewhere spares_route)
qed simp

lemma all_spare: "\<forall>e \<in> set es. spares R e \<Longrightarrow> R p \<Longrightarrow> tree_effects t es (''frr'', p) = t (''frr'', p)"
  by (induction es arbitrary: t) (simp_all add: spares_keeps [where R = R])

lemma tree_effects_local: "t (org, p) = t' (org, p) \<Longrightarrow> tree_effects t es (org, p) = tree_effects t' es (org, p)"
proof (induction es arbitrary: t t')
  case (Cons e es)
  have "tree_effect t e (org, p) = tree_effect t' e (org, p)" by (rule tree_effect_local) (rule Cons.prems)
  then have "tree_effects (tree_effect t e) es (org, p) = tree_effects (tree_effect t' e) es (org, p)" by (rule Cons.IH)
  then show ?case by simp
qed simp

definition mpls_writes :: "(by_index \<times> mpls_route) list \<Rightarrow> effect list" where
  "mpls_writes prs = concat (map (\<lambda>(bi, r). mpls_write bi r) prs)"

lemma mpls_writes_append: "mpls_writes (xs @ ys) = mpls_writes xs @ mpls_writes ys"
  by (simp add: mpls_writes_def)

lemma mpls_writes_last:
  assumes "leaf \<in> set mpls_leaves"
  shows "tree_effects t (mpls_writes prs) (''frr'', mplsElems l leaf) =
    (case last_mpls prs l of None \<Rightarrow> t (''frr'', mplsElems l leaf) | Some (bi, r) \<Rightarrow> Some (StringVal (mpls_text bi r leaf)))"
proof (induction prs rule: rev_induct)
  case Nil
  show ?case by (simp add: mpls_writes_def last_mpls_def)
next
  case (snoc x prs)
  obtain bi r where x: "x = (bi, r)" by (rule prod.exhaust)
  have one: "mpls_writes (prs @ [x]) = mpls_writes prs @ mpls_write bi r" by (simp add: mpls_writes_def x)
  show ?case
  proof (cases "mpls_label r = Some l")
    case True
    then have "last_mpls (prs @ [x]) l = Some (bi, r)" by (simp add: last_mpls_def x)
    then show ?thesis using mpls_write_new [OF True assms] by (simp add: one)
  next
    case False
    then have "last_mpls (prs @ [x]) l = last_mpls prs l" by (simp add: last_mpls_def x)
    then show ?thesis using mpls_write_old [OF False] snoc.IH by (simp add: one)
  qed
qed

lemma dump_tree:
  "tree_effects t (if snapped then counter_tick d else snapshot d) (''frr'', mplsElems l leaf) =
   tree_effects t (mpls_writes (dump_routes snapped d)) (''frr'', mplsElems l leaf)"
proof -
  let ?k = "(''frr'', mplsElems l leaf)"
  have mpls: "snapshotMPLS (d_by_index d) (d_mpls d) = mpls_writes (dump_routes True d)"
    by (simp add: snapshotMPLS_def dump_routes_def mpls_writes_def comp_def split: option.split)
  have frame: "tree_effects t (as @ snapshotMPLS (d_by_index d) (d_mpls d) @ bs) ?k =
      tree_effects t (mpls_writes (dump_routes True d)) ?k"
    if "\<forall>e \<in> set as. spares is_lfib e" "\<forall>e \<in> set bs. spares is_lfib e" for as bs
    unfolding mpls tree_effects_simps all_spare [OF that(2) is_lfib_mpls]
    by (rule tree_effects_local) (rule all_spare [OF that(1) is_lfib_mpls])
  show ?thesis
  proof (cases snapped)
    case True
    then show ?thesis unfolding if_P [OF True] counter_tick_def
      using frame [of "sampleCounters (d_links d)" "snapshotAddrs (d_addrs d) (d_links d)"] spares_elsewhere(3,4)
      by auto
  next
    case False
    show ?thesis
    proof (cases "d_links d")
      case None
      then show ?thesis using False by (simp add: snapshot_def dump_routes_def mpls_writes_def)
    next
      case (Some links)
      let ?as = "concat (map writeLinkState links) @ sampleCounters (d_links d) @ snapshotFDB (d_by_index d) (d_neighs d)"
      have "\<forall>e \<in> set ?as. spares is_lfib e" "\<forall>e \<in> set (snapshotAddrs (d_addrs d) (d_links d)). spares is_lfib e"
        using spares_elsewhere(3-6) by auto
      from frame [OF this] False Some show ?thesis by (simp add: snapshot_def dump_routes_def)
    qed
  qed
qed

lemma poll_frames:
  "foldM poll_in.next_frame (b, out) ds = Some (b', out') \<Longrightarrow>
   tree_effects t out' (''frr'', mplsElems l leaf) =
     tree_effects (tree_effects t out) (mpls_writes (polled b ds)) (''frr'', mplsElems l leaf)"
proof (induction ds arbitrary: b out)
  case (Cons d ds)
  let ?es = "if b then counter_tick d else snapshot d"
  have "poll_in.next_frame (b, out) d = Some (True, out @ ?es)"
    unfolding poll_in.next_frame_def by (simp add: poll_reads_def)
  with Cons.prems have "foldM poll_in.next_frame (True, out @ ?es) ds = Some (b', out')" by simp
  note rest = Cons.IH [OF this]
  have "tree_effects (tree_effects (tree_effects t out) ?es) (mpls_writes (polled True ds)) (''frr'', mplsElems l leaf) =
      tree_effects (tree_effects (tree_effects t out) (mpls_writes (dump_routes b d))) (mpls_writes (polled True ds)) (''frr'', mplsElems l leaf)"
    by (rule tree_effects_local) (rule dump_tree)
  with rest show ?case by (simp add: mpls_writes_append)
qed (simp add: mpls_writes_def)

lemma running_shim_lfib:
  assumes "node_run (node_start target t0 fl bl su) ls s" and "nd_todo s GPoll = []" and "leaf \<in> set mpls_leaves"
  shows "s_tree (nd_shim s) (''frr'', mplsElems l leaf) =
    (case last_mpls (polled False (poll_inputs ls)) l of None \<Rightarrow> None | Some (bi, r) \<Rightarrow> Some (StringVal (mpls_text bi r leaf)))"
proof -
  let ?s0 = "node_start target t0 fl bl su"
  have start: "nd_todo ?s0 g = []" "\<not> nd_snapped ?s0" for g by (simp_all add: node_start_def)
  have "map (Pair ()) (map snd xs) = xs" for xs :: "(unit \<times> dumps) list" by (induction xs) auto
  then have "poll_in.inputs ls = map (Pair ()) (poll_inputs ls)" by (simp only: poll_in.inputs_def poll_inputs_def)
  from poll_in.session_done [OF assms(1) this start(1) assms(2)]
  have "foldM poll_in.next_frame (False, []) (poll_inputs ls) = Some (nd_snapped s, did_by {GPoll} ls)"
    using start(2) by simp
  from poll_frames [OF this, of Map.empty] lfib.writer_region [OF assms(1) is_lfib_mpls]
  show ?thesis by (simp add: mpls_writes_last [OF assms(3)] split: option.split)
qed

section \<open>The tracer's answer\<close>

text \<open>
  C17. The tracer sees the label table of the running shim: once the dumps of the kernel taken so
  far are written, and the shim answers Gets over its tree, the tracer's lookup of a label
  answers with the out-labels, next hop and interface of the last route that any dump had for
  it, also when later dumps have none, and with nothing when no dump had one, whatever the
  other goroutines of the shim have been doing in between.
\<close>

theorem trace_sees_running_lfib:
  assumes "node_run (node_start name t0 fl bl su) ls s" and "nd_todo s GPoll = []"
    and "completes complete" and "visits query target (s_tree (nd_shim s))"
    and "\<And>q. net a q = shim_answer complete query target q" and "client_addr nodes n = Some a"
  shows "mplsLookup (gnmi_get nodes net n (lfibPath (udec l))) =
    (case last_mpls (polled False (poll_inputs ls)) l of
       None \<Rightarrow> ([], [], [])
     | Some (bi, r) \<Rightarrow> (mpls_text bi r ''out-label'', mpls_text bi r ''next-hop'', mpls_text bi r ''interface''))"
proof -
  note ty = run_typed [OF assms(1)]
  have serves: "serves net a (s_tree (nd_shim s))" by (rule get_serves [OF assms(3, 4) ty]) (rule assms(5))
  have "lfib_text (s_tree (nd_shim s)) (udec l) leaf =
      (case last_mpls (polled False (poll_inputs ls)) l of None \<Rightarrow> [] | Some (bi, r) \<Rightarrow> mpls_text bi r leaf)"
    if "leaf \<in> set mpls_leaves" for leaf
    using running_shim_lfib [OF assms(1, 2) that, of l] mplsElems_lfib [OF mpls_leaves_nonempty [OF that], of l]
    by (simp add: lfib_text_def leaf_text_def sval_def split: option.split)
  note texts = this [unfolded mpls_leaves_def]
  show ?thesis
    unfolding typed_mpls_lookup [OF ty serves assms(6) udec_star]
    by (simp add: texts split: option.split)
qed

section \<open>Witness\<close>

text \<open>The run in which the snapshot has one MPLS route and the next sample has none.\<close>

definition lf_dump :: "mpls_route list \<Rightarrow> dumps" where
  "lf_dump rs = \<lparr>d_links = Some [], d_neighs = None, d_mpls = Some rs, d_addrs = (\<lambda>_. None), d_by_index = sl_by_index\<rparr>"

lemma lf_run:
  "\<exists>ls s. node_run demo_node ls s \<and> nd_todo s GPoll = [] \<and> poll_inputs ls = [lf_dump [sl_route], lf_dump []]"
proof -
  have idle: "idle demo_node GPoll" by (simp add: idle_def node_start_def start_on_def demo_startup_def)
  have "\<not> nd_snapped demo_node" by (simp add: node_start_def)
  note step = by_kernel [OF k_snapshot [OF idle this, of "lf_dump [sl_route]"]]
  let ?ls = "[] @ DumpRead (lf_dump [sl_route]) # map (Did GPoll 0) (snapshot (lf_dump [sl_route]))"
  obtain s where run: "node_run demo_node ?ls s" and idle: "idle s GPoll"
    using frame_served [OF run_nil step] idle by (auto simp: idle_def)
  have inputs: "poll_inputs ?ls = [lf_dump [sl_route]]" by (simp add: poll_inputs_def comp_def)
  have "nd_todo s GPoll = []" using idle by (simp add: idle_def)
  have start: "nd_todo demo_node g = []" for g by (simp add: node_start_def)
  have "poll_in.inputs ?ls = map (Pair ()) [lf_dump [sl_route]]" by (simp add: poll_in.inputs_def comp_def)
  from poll_in.session_done [OF run this start \<open>nd_todo s GPoll = []\<close>]
  have "foldM poll_in.next_frame (nd_snapped demo_node, []) [lf_dump [sl_route]] = Some (nd_snapped s, did_by {GPoll} ?ls)"
    by simp
  then have snapped: "nd_snapped s" by (simp add: poll_in.next_frame_def) (simp add: poll_reads_def)
  note step = by_kernel [OF k_poll [OF idle snapped, of "lf_dump []"]]
  let ?ks = "DumpRead (lf_dump []) # map (Did GPoll 0) (counter_tick (lf_dump []))"
  obtain s' where "node_run demo_node (?ls @ ?ks) s'" "idle s' GPoll"
    using frame_served [OF run step] idle by (auto simp: idle_def)
  moreover have "poll_inputs (?ls @ ?ks) = [lf_dump [sl_route], lf_dump []]"
  proof -
    have "poll_inputs ?ks = [lf_dump []]" by (simp add: poll_inputs_def comp_def)
    moreover have "poll_inputs (xs @ ys) = poll_inputs xs @ poll_inputs ys" for xs ys by (simp add: poll_inputs_def)
    ultimately show ?thesis unfolding inputs [symmetric] by (metis append_Cons append_Nil inputs)
  qed
  ultimately show ?thesis unfolding idle_def by blast
qed

theorem trace_sees_running_lfib_witness:
  "\<exists>ls s l. node_run demo_node ls s \<and> enumerates l (s_tree (nd_shim s)) \<and>
     mplsLookup (gnmi_get [''p1'' \<mapsto> ''m1''] (\<lambda>_. shim_answer complete_index (query_list l) ''frr'') ''p1''
       (lfibPath (udec (16 :: 32 word)))) = (''18,19'', ''10.0.0.2'', ''eth0'')"
proof -
  obtain ls s where run: "node_run demo_node ls s" and todo: "nd_todo s GPoll = []"
    and inputs: "poll_inputs ls = [lf_dump [sl_route], lf_dump []]" using lf_run by blast
  obtain l where l: "enumerates l (s_tree (nd_shim s))" using enumerable [OF run_finite [OF run]] by blast
  have addr: "client_addr [''p1'' \<mapsto> ''m1''] ''p1'' = Some ''m1:9339''" by code_simp
  have last: "last_mpls (polled False (poll_inputs ls)) 16 = Some (sl_by_index, sl_route)"
    by (simp add: inputs dump_routes_def lf_dump_def last_mpls_def sl_label)
  have texts: "mpls_text sl_by_index sl_route ''out-label'' = ''18,19''"
    "mpls_text sl_by_index sl_route ''next-hop'' = ''10.0.0.2''" "mpls_text sl_by_index sl_route ''interface'' = ''eth0''"
    by code_simp+
  let ?net = "\<lambda>_. shim_answer complete_index (query_list l) ''frr''"
  have "mplsLookup (gnmi_get [''p1'' \<mapsto> ''m1''] ?net ''p1'' (lfibPath (udec (16 :: 32 word)))) =
    (case last_mpls (polled False (poll_inputs ls)) 16 of
       None \<Rightarrow> ([], [], [])
     | Some (bi, r) \<Rightarrow> (mpls_text bi r ''out-label'', mpls_text bi r ''next-hop'', mpls_text bi r ''interface''))"
    by (rule trace_sees_running_lfib [OF run todo completes_index visits_list [OF l] _ addr]) (rule refl)
  then have "mplsLookup (gnmi_get [''p1'' \<mapsto> ''m1''] ?net ''p1'' (lfibPath (udec (16 :: 32 word)))) =
      (''18,19'', ''10.0.0.2'', ''eth0'')" by (simp only: last option.case prod.case texts)
  with run l show ?thesis by blast
qed

end
