(* ===== verification/Sha256.thy ===== *)
theory Sha256
  imports GoStrings
begin

text \<open>
  \<^verbatim>\<open>crypto/sha256\<close> and \<^verbatim>\<open>encoding/hex\<close>, which the trace aggregator names its
  exported traces with: the compression function as a fold of its 64 rounds over 32-bit words
  (FIPS 180-4).
\<close>

definition sha_K :: "32 word list" where
  "sha_K =
     [0x428A2F98, 0x71374491, 0xB5C0FBCF, 0xE9B5DBA5, 0x3956C25B, 0x59F111F1,
      0x923F82A4, 0xAB1C5ED5, 0xD807AA98, 0x12835B01, 0x243185BE, 0x550C7DC3,
      0x72BE5D74, 0x80DEB1FE, 0x9BDC06A7, 0xC19BF174, 0xE49B69C1, 0xEFBE4786,
      0x0FC19DC6, 0x240CA1CC, 0x2DE92C6F, 0x4A7484AA, 0x5CB0A9DC, 0x76F988DA,
      0x983E5152, 0xA831C66D, 0xB00327C8, 0xBF597FC7, 0xC6E00BF3, 0xD5A79147,
      0x06CA6351, 0x14292967, 0x27B70A85, 0x2E1B2138, 0x4D2C6DFC, 0x53380D13,
      0x650A7354, 0x766A0ABB, 0x81C2C92E, 0x92722C85, 0xA2BFE8A1, 0xA81A664B,
      0xC24B8B70, 0xC76C51A3, 0xD192E819, 0xD6990624, 0xF40E3585, 0x106AA070,
      0x19A4C116, 0x1E376C08, 0x2748774C, 0x34B0BCB5, 0x391C0CB3, 0x4ED8AA4A,
      0x5B9CCA4F, 0x682E6FF3, 0x748F82EE, 0x78A5636F, 0x84C87814, 0x8CC70208,
      0x90BEFFFA, 0xA4506CEB, 0xBEF9A3F7, 0xC67178F2]"

definition sha_H0 :: "32 word list" where
  "sha_H0 =
     [0x6A09E667, 0xBB67AE85, 0x3C6EF372, 0xA54FF53A,
      0x510E527F, 0x9B05688C, 0x1F83D9AB, 0x5BE0CD19]"

text \<open>Padding: a one bit, zeros up to 56 modulo 64 bytes, the length in bits.\<close>

definition sha_pad :: "bytes \<Rightarrow> bytes" where
  "sha_pad m =
     m @ [0x80] @ replicate ((119 - length m mod 64) mod 64) 0 @
     map (\<lambda>i. word_of_nat (8 * length m div 256 ^ (7 - i))) [0 ..< 8]"

fun be_words :: "bytes \<Rightarrow> 32 word list" where
  "be_words (a # b # c # d # m) =
     (push_bit 24 (ucast a) OR push_bit 16 (ucast b) OR push_bit 8 (ucast c) OR ucast d) # be_words m"
| "be_words _ = []"

text \<open>The message schedule, newest word first while it grows.\<close>

definition sha_next :: "32 word list \<Rightarrow> 32 word" where
  "sha_next w =
     (let x = w ! 1; y = w ! 14 in
      (word_rotr 17 x XOR word_rotr 19 x XOR drop_bit 10 x) + w ! 6 +
      (word_rotr 7 y XOR word_rotr 18 y XOR drop_bit 3 y) + w ! 15)"

definition sha_schedule :: "32 word list \<Rightarrow> 32 word list" where
  "sha_schedule block = rev (((\<lambda>w. sha_next w # w) ^^ 48) (rev block))"

definition sha_round :: "32 word list \<Rightarrow> 32 word \<times> 32 word \<Rightarrow> 32 word list" where
  "sha_round s kw =
     (case s of
        [a, b, c, d, e, f, g, h] \<Rightarrow>
          let t1 = h + (word_rotr 6 e XOR word_rotr 11 e XOR word_rotr 25 e) +
                   ((e AND f) XOR (NOT e AND g)) + fst kw + snd kw;
              t2 = (word_rotr 2 a XOR word_rotr 13 a XOR word_rotr 22 a) +
                   ((a AND b) XOR (a AND c) XOR (b AND c)) in
          [t1 + t2, a, b, c, d + t1, e, f, g]
      | _ \<Rightarrow> s)"

definition sha_block :: "32 word list \<Rightarrow> 32 word list \<Rightarrow> 32 word list" where
  "sha_block hs block = map2 (+) hs (foldl sha_round hs (zip sha_K (sha_schedule block)))"

text \<open>The blocks of sixteen words, \<open>n\<close> of them.\<close>

fun sha_blocks :: "nat \<Rightarrow> 32 word list \<Rightarrow> 32 word list \<Rightarrow> 32 word list" where
  "sha_blocks 0 hs ws = hs"
| "sha_blocks (Suc n) hs ws = sha_blocks n (sha_block hs (take 16 ws)) (drop 16 ws)"

definition word_bytes :: "32 word \<Rightarrow> bytes" where
  "word_bytes w = map (\<lambda>i. ucast (drop_bit (24 - 8 * i) w)) [0 ..< 4]"

definition Sum256 :: "bytes \<Rightarrow> bytes" where
  "Sum256 m =
     (let ws = be_words (sha_pad m) in
      concat (map word_bytes (sha_blocks (length ws div 16) sha_H0 ws)))"

definition string_bytes :: "string \<Rightarrow> bytes" where
  "string_bytes s = map (\<lambda>c. word_of_nat (of_char c)) s"

definition hex_string :: "bytes \<Rightarrow> string" where
  "hex_string b = concat (map hex2 b)"

lemma sha_round_length: "length s = 8 \<Longrightarrow> length (sha_round s kw) = 8"
  by (auto simp: sha_round_def Let_def numeral_eq_Suc length_Suc_conv)

lemma sha_block_length: "length hs = 8 \<Longrightarrow> length (sha_block hs block) = 8"
proof -
  assume "length hs = 8"
  then have "length (foldl sha_round hs xs) = 8" for xs
    by (induction xs arbitrary: hs) (auto simp: sha_round_length)
  with \<open>length hs = 8\<close> show ?thesis by (simp add: sha_block_def)
qed

lemma sha_blocks_length: "length hs = 8 \<Longrightarrow> length (sha_blocks n hs ws) = 8"
  by (induction n hs ws rule: sha_blocks.induct) (auto simp: sha_block_length)

text \<open>The sum has 32 bytes, whatever the message.\<close>

lemma Sum256_length [simp]: "length (Sum256 m) = 32"
proof -
  let ?ws = "be_words (sha_pad m)"
  have "length (sha_blocks (length ?ws div 16) sha_H0 ?ws) = 8"
    by (intro sha_blocks_length) (simp add: sha_H0_def)
  then show ?thesis
    by (simp add: Sum256_def Let_def length_concat comp_def word_bytes_def sum_list_triv)
qed

lemma hex_string_length [simp]: "length (hex_string b) = 2 * length b"
  by (induction b) (simp_all add: hex_string_def hex2_def)

end
