(* ===== verification/Aggregator.thy ===== *)
theory Aggregator
  imports Correlate Sha256 "HOL-Library.List_Lexorder" "HOL-Library.Char_ord" "HOL-Library.Multiset"
begin

text \<open>
  \<^verbatim>\<open>cmd/trace-aggregator/main.go\<close>: the stitching of the per-node convergence traces into
  distributed traces, their attribution to governance transactions and their export as Zipkin
  spans.  What a node's endpoint and Loki return are decoded values here; the requests for
  them are in \<open>Distributed\<close> and \<open>Exporter\<close>.  \<^verbatim>\<open>sort.Slice\<close> is not stable, so each sort is a parameter, any function
  that returns a sorted permutation; so are the iteration orders of maps.
\<close>

section \<open>Data\<close>

text \<open>Wrap-around of \<^verbatim>\<open>int64\<close> arithmetic.\<close>

definition wrap64 :: "int \<Rightarrow> int" where
  "wrap64 i = (i + 2 ^ 63) mod 2 ^ 64 - 2 ^ 63"

record dspan =
  ds_off :: int
  ds_node :: string
  ds_bus :: string
  ds_kind :: string
  ds_key :: string
  ds_detail :: string
  ds_abs :: time

record dtrace =
  dt_id :: nat
  dt_start :: time
  dt_span :: int
  dt_link :: string
  dt_nodes :: "string list"
  dt_roots :: "string list"
  dt_spans :: "dspan list"
  dt_txn :: string
  dt_txnact :: string
  dt_txnby :: string

record txnRec =
  tx_id :: string
  tx_lab :: string
  tx_action :: string
  tx_agent :: string
  tx_commit :: int

section \<open>Merging\<close>

definition linkKey :: "string \<Rightarrow> string" where
  "linkKey root =
     (case index_str root ''link-'' of
        None \<Rightarrow> []
      | Some i \<Rightarrow>
          let f = str_fields (drop i root) in
          if length f < 2 then []
          else
            case split_n2 CHR ''-'' (f ! 1) of
              [a, b] \<Rightarrow> let (a, b) = (if b < a then (b, a) else (a, b)) in a @ ''--'' @ b
            | _ \<Rightarrow> [])"

text \<open>\<^verbatim>\<open>Start.Add(Duration(OffsetMs) * Millisecond)\<close>.\<close>

definition span_time :: "time \<Rightarrow> int \<Rightarrow> time" where
  "span_time start off = start + wrap64 (off * millisecond)"

definition spans_of :: "trace \<Rightarrow> dspan list" where
  "spans_of t =
     map (\<lambda>s. \<lparr>ds_off = 0, ds_node = tr_node t, ds_bus = sp_bus s, ds_kind = sp_kind s, ds_key = sp_key s,
               ds_detail = sp_detail s, ds_abs = span_time (tr_start t) (sp_off s)\<rparr>) (tr_spans t)"

definition vote :: "(string \<Rightarrow> nat option) \<Rightarrow> string \<Rightarrow> (string \<Rightarrow> nat option)" where
  "vote m root =
     (let lk = linkKey root in
      if lk = [] then m else m(lk \<mapsto> (case m lk of None \<Rightarrow> 1 | Some n \<Rightarrow> n + 1)))"

definition link_votes :: "trace list \<Rightarrow> (string \<Rightarrow> nat option)" where
  "link_votes g = foldl (\<lambda>m t. vote m (tr_root t)) Map.empty g"

text \<open>The loop that picks the link, over an iteration order of the votes.\<close>

definition best_link :: "(string \<times> nat) list \<Rightarrow> string" where
  "best_link xs =
     snd (foldl (\<lambda>(best, link) (k, v). if best < v then (v, k) else (best, link)) (0, []) xs)"

text \<open>The zero \<^verbatim>\<open>time.Time\<close>, in nanoseconds from the epoch.\<close>

definition zero_time :: time where
  "zero_time = - 62135596800 * second"

definition merge ::
  "(dspan list \<Rightarrow> dspan list) \<Rightarrow> (string \<times> nat) list \<Rightarrow> nat \<Rightarrow> trace list \<Rightarrow> dtrace" where
  "merge srt votes n g =
     (let spans = srt (concat (map spans_of g));
          start = (case spans of [] \<Rightarrow> zero_time | s # _ \<Rightarrow> ds_abs s);
          spans = map (\<lambda>s. s\<lparr>ds_off := milliseconds (time_sub (ds_abs s) start)\<rparr>) spans in
      \<lparr>dt_id = n, dt_start = start,
       dt_span = foldl (\<lambda>span s. if span < ds_off s then ds_off s else span) 0 spans,
       dt_link = best_link votes, dt_nodes = sort (remdups (map tr_node g)),
       dt_roots = map (\<lambda>t. tr_node t @ '': '' @ tr_root t) g, dt_spans = spans,
       dt_txn = [], dt_txnact = [], dt_txnby = []\<rparr>)"

section \<open>Grouping\<close>

text \<open>One turn of the loop over the sorted traces, the groups built so far in order.\<close>

definition add_group :: "duration \<Rightarrow> trace list list \<Rightarrow> trace \<Rightarrow> trace list list" where
  "add_group window gs t =
     (if gs \<noteq> [] \<and> time_sub (tr_start t) (tr_start (hd (last gs))) \<le> window
      then butlast gs @ [last gs @ [t]] else gs @ [[t]])"

definition group_traces :: "duration \<Rightarrow> trace list \<Rightarrow> trace list list" where
  "group_traces window ts = foldl (add_group window) [] ts"

text \<open>
  The traces of all nodes, in the order of the inventory; \<open>fetch\<close> is what the endpoint at an
  address returns.
\<close>

definition trace_addr :: "string \<Rightarrow> string" where
  "trace_addr ip = (if contains_str ip '':'' then ip else ip @ '':9340'')"

definition all_traces :: "(string \<Rightarrow> trace list) \<Rightarrow> (string \<times> string) list \<Rightarrow> trace list" where
  "all_traces fetch nodes =
     concat (map (\<lambda>(node, ip).
       map (\<lambda>t. if tr_node t = [] then t\<lparr>tr_node := node\<rparr> else t) (fetch (trace_addr ip))) nodes)"

text \<open>The sorts of traces and spans, and the order of a group's votes.\<close>

record orders =
  or_traces :: "trace list \<Rightarrow> trace list"
  or_spans :: "dspan list \<Rightarrow> dspan list"
  or_votes :: "(string \<Rightarrow> nat option) \<Rightarrow> (string \<times> nat) list"

definition merge_groups :: "orders \<Rightarrow> trace list list \<Rightarrow> dtrace list" where
  "merge_groups ord gs =
     map (\<lambda>i. merge (or_spans ord) (or_votes ord (link_votes (gs ! i))) (i + 1) (gs ! i)) [0 ..< length gs]"

definition build ::
  "orders \<Rightarrow> duration \<Rightarrow> (string \<Rightarrow> trace list) \<Rightarrow> (string \<times> string) list \<Rightarrow> dtrace list" where
  "build ord window fetch nodes =
     merge_groups ord (group_traces window (or_traces ord (all_traces fetch nodes)))"

section \<open>Transactions\<close>

text \<open>\<^verbatim>\<open>fetchTxns\<close>: the decoded records of the log lines (\<open>None\<close>: no JSON), sorted.\<close>

definition keep_txns :: "(txnRec list \<Rightarrow> txnRec list) \<Rightarrow> txnRec option list \<Rightarrow> txnRec list" where
  "keep_txns srt vs =
     srt (concat (map (\<lambda>v. case v of
       Some r \<Rightarrow> if tx_id r \<noteq> [] \<and> 0 < tx_commit r then [r] else [] | None \<Rightarrow> []) vs))"

text \<open>
  One turn of \<^verbatim>\<open>pollTxns\<close>; \<open>ans\<close> is the decoded answer (\<open>None\<close>: no answer or no JSON).
  \<^verbatim>\<open>fetchTxns\<close> returns a nil slice when it keeps no record, so the old ones stay.
\<close>

definition poll_txns ::
  "(txnRec list \<Rightarrow> txnRec list) \<Rightarrow> txnRec list \<Rightarrow> txnRec option list option \<Rightarrow> txnRec list" where
  "poll_txns srt txns ans =
     (case ans of
        None \<Rightarrow> txns
      | Some vs \<Rightarrow> let recs = keep_txns srt vs in if recs = [] then txns else recs)"

record txn_conf =
  tc_lab :: string
  tc_window :: duration
  tc_skew :: duration

definition eligible :: "txn_conf \<Rightarrow> time \<Rightarrow> txnRec \<Rightarrow> bool" where
  "eligible cf start t \<longleftrightarrow>
     \<not> (tc_lab cf \<noteq> [] \<and> tx_lab t \<noteq> tc_lab cf) \<and>
     \<not> (tx_commit t < wrap64 (wrap64 start - tc_window cf) \<or> wrap64 (wrap64 start + tc_skew cf) < tx_commit t)"

definition matchTxn :: "txn_conf \<Rightarrow> txnRec list \<Rightarrow> time \<Rightarrow> txnRec option" where
  "matchTxn cf txns start =
     foldl (\<lambda>best t.
       if \<not> eligible cf start t then best
       else case best of None \<Rightarrow> Some t | Some b \<Rightarrow> if tx_commit b < tx_commit t then Some t else best)
     None txns"

definition attribute :: "txn_conf \<Rightarrow> txnRec list \<Rightarrow> dtrace \<Rightarrow> dtrace" where
  "attribute cf txns dt =
     (case matchTxn cf txns (dt_start dt) of
        None \<Rightarrow> dt
      | Some t \<Rightarrow> dt\<lparr>dt_txn := tx_id t, dt_txnact := tx_action t, dt_txnby := tx_agent t\<rparr>)"

section \<open>The query\<close>

definition unreserved :: "char \<Rightarrow> bool" where
  "unreserved c \<longleftrightarrow>
     (let n = of_char c :: nat in
      97 \<le> n \<and> n \<le> 122 \<or> 65 \<le> n \<and> n \<le> 90 \<or> 48 \<le> n \<and> n \<le> 57 \<or>
      c = CHR ''-'' \<or> c = CHR ''_'' \<or> c = CHR ''.'' \<or> c = CHR ''~'')"

definition hexd :: "nat \<Rightarrow> char" where
  "hexd d = ''0123456789ABCDEF'' ! d"

fun urlQuery :: "string \<Rightarrow> string" where
  "urlQuery [] = []"
| "urlQuery (c # s) =
     (if unreserved c then c # urlQuery s
      else CHR ''%'' # hexd (of_char c div 16) # hexd (of_char c mod 16) # urlQuery s)"

section \<open>Export\<close>

record zspan =
  z_trace :: string
  z_id :: string
  z_parent :: string
  z_name :: string
  z_ts :: int
  z_dur :: int
  z_service :: string
  z_tags :: "string \<Rightarrow> string option"

definition txnTags :: "(string \<Rightarrow> string option) \<Rightarrow> dtrace \<Rightarrow> (string \<Rightarrow> string option)" where
  "txnTags m dt =
     (if dt_txn dt = [] then m
      else
        let m = m(''txn.id'' \<mapsto> dt_txn dt);
            m = (if dt_txnact dt \<noteq> [] then m(''txn.action'' \<mapsto> dt_txnact dt) else m) in
        if dt_txnby dt \<noteq> [] then m(''txn.agent'' \<mapsto> dt_txnby dt) else m)"

definition hexID :: "string \<Rightarrow> nat \<Rightarrow> string" where
  "hexID seed n = hex_string (take n (Sum256 (string_bytes seed)))"

text \<open>\<open>fmt\<close> is \<^verbatim>\<open>Time.Format(RFC3339Nano)\<close> in the location of the time.\<close>

definition zipkin_seed :: "(time \<Rightarrow> string) \<Rightarrow> dtrace \<Rightarrow> string" where
  "zipkin_seed fmt dt = fmt (dt_start dt) @ ''|'' @ dt_link dt @ ''|'' @ join_with '';'' (dt_roots dt)"

definition zipkin_id :: "(time \<Rightarrow> string) \<Rightarrow> dtrace \<Rightarrow> string" where
  "zipkin_id fmt dt = hexID (zipkin_seed fmt dt) 16"

text \<open>\<^verbatim>\<open>UnixMicro\<close>, rounding down.\<close>

definition unix_micro :: "time \<Rightarrow> int" where
  "unix_micro t = t div 1000"

definition root_span :: "(time \<Rightarrow> string) \<Rightarrow> dtrace \<Rightarrow> zspan" where
  "root_span fmt dt =
     (let n = zipkin_id fmt dt in
      \<lparr>z_trace = n, z_id = hexID (n @ ''|root'') 8, z_parent = [],
       z_name = ''convergence'' @ (if dt_link dt \<noteq> [] then '' '' @ dt_link dt else []),
       z_ts = unix_micro (dt_start dt), z_dur = wrap64 (wrap64 (dt_span dt * 1000) + 1), z_service = ''network'',
       z_tags = txnTags [''link'' \<mapsto> dt_link dt, ''nodes'' \<mapsto> join_with '','' (dt_nodes dt),
                         ''roots'' \<mapsto> join_with '' | '' (dt_roots dt)] dt\<rparr>)"

definition child_dur :: "dspan list \<Rightarrow> nat \<Rightarrow> int" where
  "child_dur ss i =
     (if i + 1 < length ss
      then let g = wrap64 (wrap64 (ds_off (ss ! (i + 1)) - ds_off (ss ! i)) * 1000) in
           if 1000 < g then g else 1000
      else 1000)"

definition child_span :: "(time \<Rightarrow> string) \<Rightarrow> dtrace \<Rightarrow> nat \<Rightarrow> zspan" where
  "child_span fmt dt i =
     (let n = zipkin_id fmt dt; s = dt_spans dt ! i in
      \<lparr>z_trace = n, z_id = hexID (n @ ''|'' @ dec i) 8, z_parent = hexID (n @ ''|root'') 8,
       z_name = ds_bus s @ ''/'' @ ds_kind s, z_ts = unix_micro (span_time (dt_start dt) (ds_off s)),
       z_dur = child_dur (dt_spans dt) i, z_service = ds_node s,
       z_tags = txnTags [''key'' \<mapsto> ds_key s, ''detail'' \<mapsto> ds_detail s] dt\<rparr>)"

definition zipkin_spans :: "(time \<Rightarrow> string) \<Rightarrow> dtrace \<Rightarrow> zspan list" where
  "zipkin_spans fmt dt = root_span fmt dt # map (child_span fmt dt) [0 ..< length (dt_spans dt)]"

text \<open>
  \<^verbatim>\<open>pushZipkin\<close>: the set of exported ids and what is posted; \<open>loki\<close>: attribution is on;
  \<open>sent\<close>: the post succeeds.
\<close>

definition pushZipkin ::
  "(time \<Rightarrow> string) \<Rightarrow> bool \<Rightarrow> time \<Rightarrow> bool \<Rightarrow> string set \<Rightarrow> dtrace \<Rightarrow> string set \<times> zspan list option" where
  "pushZipkin fmt loki now sent pushed dt =
     (let n = zipkin_id fmt dt in
      if n \<in> pushed then (pushed, None)
      else if loki \<and> dt_txn dt = [] \<and> time_sub now (dt_start dt) < 12 * second then (pushed, None)
      else (if sent then insert n pushed else pushed, Some (zipkin_spans fmt dt)))"

section \<open>Groups\<close>

definition group_inv :: "duration \<Rightarrow> trace list list \<Rightarrow> bool" where
  "group_inv w gs \<longleftrightarrow>
     list_all (\<lambda>g. g \<noteq> [] \<and> list_all (\<lambda>t. time_sub (tr_start t) (tr_start (hd g)) \<le> w) (tl g)) gs \<and>
     successively (\<lambda>g h. w < time_sub (tr_start (hd h)) (tr_start (hd g))) gs"

lemma add_group_inv:
  assumes "group_inv w gs"
  shows "group_inv w (add_group w gs t) \<and> concat (add_group w gs t) = concat gs @ [t]"
proof (cases gs rule: rev_cases)
  case Nil
  then show ?thesis by (simp add: group_inv_def add_group_def)
next
  case (snoc hs g)
  with assms have g: "g \<noteq> []" by (simp add: group_inv_def)
  then obtain x xs where "g = x # xs" by (cases g) auto
  with assms snoc show ?thesis
    by (auto simp: group_inv_def add_group_def successively_append_iff)
qed

lemma groups_part: "group_inv w (group_traces w ts) \<and> concat (group_traces w ts) = ts"
proof -
  have "group_inv w (foldl (add_group w) gs ts) \<and> concat (foldl (add_group w) gs ts) = concat gs @ ts"
    if "group_inv w gs" for gs
    using that
  proof (induction ts arbitrary: gs)
    case (Cons t ts)
    from add_group_inv [OF Cons.prems, of t] Cons.IH [of "add_group w gs t"] show ?case by simp
  qed simp
  from this [of "[]"] show ?thesis by (simp add: group_inv_def group_traces_def)
qed

text \<open>
  Grouping partitions the traces, in their order, into runs: every trace lies within the window
  of the first of its group, and each group starts more than the window after the start of the
  group before it; nothing is lost, repeated or moved.
\<close>

theorem groups_partition:
  "let gs = group_traces w ts in
     concat gs = ts \<and>
     list_all (\<lambda>g. g \<noteq> [] \<and> list_all (\<lambda>t. time_sub (tr_start t) (tr_start (hd g)) \<le> w) (tl g)) gs \<and>
     successively (\<lambda>g h. w < time_sub (tr_start (hd h)) (tr_start (hd g))) gs"
  using groups_part [of w ts] by (simp add: group_inv_def Let_def)

section \<open>The merged timeline\<close>

definition sorts_by :: "('a \<Rightarrow> time) \<Rightarrow> ('a list \<Rightarrow> 'a list) \<Rightarrow> 'a list \<Rightarrow> bool" where
  "sorts_by key srt xs \<longleftrightarrow> mset (srt xs) = mset xs \<and> sorted (map key (srt xs))"

lemma milliseconds_mono: "0 \<le> a \<Longrightarrow> a \<le> b \<Longrightarrow> milliseconds a \<le> milliseconds b"
  by (auto simp: milliseconds_def go_div_def sgn_if zdiv_mono1)

lemma fold_max: "foldl (\<lambda>m s. if m < f s then f s else m) k xs = (foldl max k (map f xs) :: int)"
  by (induction xs arbitrary: k) (auto simp: max_def)

lemma foldl_max_le: "(foldl max k xs :: int) \<le> y \<longleftrightarrow> k \<le> y \<and> (\<forall>x \<in> set xs. x \<le> y)"
  by (induction xs arbitrary: k) auto

lemma foldl_max_in: "(foldl max k xs :: int) \<in> insert k (set xs)"
proof (induction xs arbitrary: k)
  case (Cons x xs)
  from Cons [of "max k x"] show ?case by (auto simp: max_def split: if_splits)
qed simp

lemma sorted_hd_Min: "sorted (map f (x # xs)) \<Longrightarrow> f x = Min (f ` set (x # xs))"
  for f :: "'a \<Rightarrow> int"
  by (intro Min_eqI [symmetric]) auto

lemma spans_off0: "map (\<lambda>s. s\<lparr>ds_off := 0\<rparr>) (concat (map spans_of g)) = concat (map spans_of g)"
  by (induction g) (simp_all add: spans_of_def)

text \<open>The spans of a merged trace, from the sorted list of all spans.\<close>

definition rebase :: "dspan list \<Rightarrow> dspan list" where
  "rebase xs = map (\<lambda>s. s\<lparr>ds_off := milliseconds (time_sub (ds_abs s) (ds_abs (hd xs)))\<rparr>) xs"

lemma dt_spans_merge: "dt_spans (merge srt votes n g) = rebase (srt (concat (map spans_of g)))"
  by (cases "srt (concat (map spans_of g))") (simp_all add: merge_def rebase_def Let_def)

lemma dt_span_merge:
  "dt_span (merge srt votes n g) = foldl max 0 (map ds_off (rebase (srt (concat (map spans_of g)))))"
  by (cases "srt (concat (map spans_of g))") (simp_all add: merge_def rebase_def fold_max comp_def Let_def)

lemma rebase_nth:
  "i < length xs \<Longrightarrow>
   rebase xs ! i = (xs ! i)\<lparr>ds_off := milliseconds (time_sub (ds_abs (xs ! i)) (ds_abs (hd xs)))\<rparr>"
  by (simp add: rebase_def)

lemma rebase_abs [simp]: "map ds_abs (rebase xs) = map ds_abs xs"
  by (simp add: rebase_def comp_def)

lemma rebase_abs_set [simp]: "ds_abs ` set (rebase xs) = ds_abs ` set xs"
  by (metis rebase_abs list.set_map)

lemma rebase_off0: "map (\<lambda>s. s\<lparr>ds_off := 0\<rparr>) (rebase xs) = map (\<lambda>s. s\<lparr>ds_off := 0\<rparr>) xs"
  by (simp add: rebase_def comp_def)

lemma rebase_offs:
  assumes "sorted (map ds_abs xs)"
  shows "map ds_off (rebase xs) =
    map (\<lambda>s. milliseconds (time_sub (ds_abs s) (Min (ds_abs ` set (rebase xs))))) (rebase xs)"
proof (cases xs)
  case (Cons y ys)
  with sorted_hd_Min [of ds_abs y ys] assms have "ds_abs (hd xs) = Min (ds_abs ` set (rebase xs))" by simp
  then show ?thesis by (simp add: rebase_def comp_def)
qed (simp add: rebase_def)

lemma rebase_sorted:
  assumes "sorted (map ds_abs xs)"
  shows "sorted (0 # map ds_off (rebase xs))"
proof (cases xs)
  case (Cons y ys)
  let ?off = "\<lambda>s. milliseconds (time_sub (ds_abs s) (ds_abs y))"
  have ge: "0 \<le> time_sub (ds_abs x) (ds_abs y)" if "x \<in> set xs" for x
    using assms that Cons time_sub_mono [of "ds_abs y" "ds_abs x" "ds_abs y"] by auto
  have mono: "?off a \<le> ?off b" if "ds_abs a \<le> ds_abs b" "a \<in> set xs" for a b
    using that ge [OF that(2)] by (intro milliseconds_mono time_sub_mono) simp_all
  have "sorted_wrt (\<lambda>a b. ds_abs a \<le> ds_abs b) xs" using assms by (simp add: sorted_map)
  then have "sorted_wrt (\<lambda>a b. ?off a \<le> ?off b) xs"
    by (rule sorted_wrt_mono_rel [rotated]) (use mono in blast)
  then have "sorted (map ?off xs)" by (simp add: sorted_map)
  moreover have "map ds_off (rebase xs) = map ?off xs" using Cons by (simp add: rebase_def comp_def)
  ultimately show ?thesis using ge by (auto intro: milliseconds_nonneg)
qed (simp add: rebase_def)

lemma foldl_max_Max: "foldl max 0 (map f xs) = Max (insert 0 (f ` set xs))" for f :: "'a \<Rightarrow> int"
  using foldl_max_in [of 0 "map f xs"] foldl_max_le [of 0 "map f xs"]
  by (intro Max_eqI [symmetric]) auto

text \<open>
  C21. A distributed trace is one timeline: its spans are those of its traces, each once, at their
  absolute times and in their order; the offsets are whole milliseconds from the earliest span,
  never negative and never decreasing, and the length of the trace is the largest of them.
\<close>

theorem merge_timeline:
  assumes "sorts_by ds_abs srt (concat (map spans_of g))"
  shows "let ss = dt_spans (merge srt votes n g) in
    mset (map (\<lambda>s. s\<lparr>ds_off := 0\<rparr>) ss) = mset (concat (map spans_of g)) \<and>
    sorted (map ds_abs ss) \<and> sorted (0 # map ds_off ss) \<and>
    map ds_off ss = map (\<lambda>s. milliseconds (time_sub (ds_abs s) (Min (ds_abs ` set ss)))) ss \<and>
    dt_span (merge srt votes n g) = Max (insert 0 (ds_off ` set ss))"
proof -
  let ?xs = "srt (concat (map spans_of g))"
  from assms have p: "mset ?xs = mset (concat (map spans_of g))" and s: "sorted (map ds_abs ?xs)"
    by (simp_all only: sorts_by_def)
  have "mset (map (\<lambda>s. s\<lparr>ds_off := 0\<rparr>) (rebase ?xs)) = mset (concat (map spans_of g))"
    unfolding rebase_off0 mset_map p unfolding mset_map [symmetric] spans_off0 by (rule refl)
  moreover have "sorted (map ds_abs (rebase ?xs))" using s by simp
  ultimately show ?thesis
    unfolding dt_spans_merge dt_span_merge Let_def foldl_max_Max
    using rebase_sorted [OF s] rebase_offs [OF s] by (intro conjI refl)
qed

section \<open>Building\<close>

lemma map_id_merge_groups: "map dt_id (merge_groups ord gs) = [1 ..< Suc (length gs)]"
  by (rule nth_equalityI) (simp_all add: merge_groups_def merge_def Let_def del: upt_Suc)

lemma merge_mset:
  assumes "\<And>xs. mset (or_spans ord xs) = mset xs"
  shows "mset (map (\<lambda>s. s\<lparr>ds_off := 0\<rparr>) (dt_spans (merge (or_spans ord) votes n g))) = mset (concat (map spans_of g))"
  unfolding dt_spans_merge rebase_off0 mset_map assms unfolding mset_map [symmetric] spans_off0 by (rule refl)

lemma mset_concat_map: "mset (concat (map f xs)) = sum_mset (image_mset (\<lambda>x. mset (f x)) (mset xs))"
  by (induction xs) simp_all

lemma merge_groups_mset:
  assumes "\<And>xs. mset (or_spans ord xs) = mset xs"
  shows "mset (map (\<lambda>s. s\<lparr>ds_off := 0\<rparr>) (concat (map dt_spans (merge_groups ord gs)))) =
    mset (concat (map spans_of (concat gs)))"
proof -
  have "mset (map (\<lambda>s. s\<lparr>ds_off := 0\<rparr>) (concat (map dt_spans (map (\<lambda>i. merge (or_spans ord) (v i) (i + 1) (gs ! i)) is)))) =
    mset (concat (map spans_of (concat (map (\<lambda>i. gs ! i) is))))" for v "is"
  proof (induction "is")
    case (Cons i "is")
    with merge_mset [OF assms, where votes = "v i" and n = "i + 1" and g = "gs ! i"] show ?case by simp
  qed simp
  from this [of _ "[0 ..< length gs]"] show ?thesis by (simp add: merge_groups_def map_nth)
qed

lemma build_mset:
  assumes "mset (or_traces ord (all_traces fetch nodes)) = mset (all_traces fetch nodes)"
    and "\<And>xs. mset (or_spans ord xs) = mset xs"
  shows "mset (map (\<lambda>s. s\<lparr>ds_off := 0\<rparr>) (concat (map dt_spans (build ord w fetch nodes)))) =
    mset (concat (map spans_of (all_traces fetch nodes)))"
proof -
  let ?ts = "or_traces ord (all_traces fetch nodes)"
  have "concat (group_traces w ?ts) = ?ts" using groups_part [of w ?ts] by blast
  moreover have "mset (concat (map spans_of ?ts)) = mset (concat (map spans_of (all_traces fetch nodes)))"
    unfolding mset_concat_map assms(1) by (rule refl)
  ultimately show ?thesis unfolding build_def merge_groups_mset [OF assms(2)] by (simp only:)
qed

text \<open>
  C32. Building keeps every event: the spans of the distributed traces are the spans of the traces of
  all nodes, each once, however traces and spans of one instant are ordered, and the distributed
  traces are numbered from 1, each of at least one trace.
\<close>

theorem build_keeps_spans:
  assumes "mset (or_traces ord (all_traces fetch nodes)) = mset (all_traces fetch nodes)"
    and "\<And>xs. mset (or_spans ord xs) = mset xs"
  shows "let dts = build ord w fetch nodes in
    mset (map (\<lambda>s. s\<lparr>ds_off := 0\<rparr>) (concat (map dt_spans dts))) = mset (concat (map spans_of (all_traces fetch nodes))) \<and>
    map dt_id dts = [1 ..< Suc (length dts)] \<and> list_all (\<lambda>dt. dt_roots dt \<noteq> []) dts"
proof -
  have gs: "list_all (\<lambda>g. g \<noteq> []) (group_traces w (or_traces ord (all_traces fetch nodes)))"
    using groups_part [of w "or_traces ord (all_traces fetch nodes)"] by (auto simp: group_inv_def list_all_iff)
  have "list_all (\<lambda>dt. dt_roots dt \<noteq> []) (merge_groups ord gs)" if "list_all (\<lambda>g. g \<noteq> []) gs" for gs
    using that by (simp add: merge_groups_def merge_def Let_def list_all_length)
  with gs map_id_merge_groups build_mset [OF assms] show ?thesis by (simp add: build_def Let_def merge_groups_def)
qed

section \<open>Attribution\<close>

lemma foldl_filter: "foldl (\<lambda>b t. if \<not> P t then b else g b t) b xs = foldl g b (filter P xs)"
  by (induction xs arbitrary: b) simp_all

lemma foldl_latest:
  "foldl (\<lambda>best t. case best of None \<Rightarrow> Some t | Some b \<Rightarrow> if f b < f t then Some t else best) (Some b) es =
   find (\<lambda>t. f t = Max (f ` set (b # es))) (b # es)"
  for f :: "'a \<Rightarrow> int"
proof (induction es arbitrary: b)
  case (Cons t es)
  let ?M = "\<lambda>xs. Max (f ` set xs)"
  show ?case
  proof (cases "f b < f t")
    case True
    have "f b < ?M (t # es)" using True less_le_trans [OF True Max_ge [of "f ` set (t # es)" "f t"]] by simp
    then have "?M (b # t # es) = ?M (t # es)" "f b \<noteq> ?M (t # es)" by (simp_all add: max_absorb2)
    with True Cons.IH [of t] show ?thesis by simp
  next
    case False
    have "?M (b # t # es) = ?M (b # es)" using False by (cases "es = []") (auto simp: max_def)
    moreover have "f t \<noteq> ?M (b # es)" if "f b \<noteq> ?M (b # es)"
    proof -
      have "f b \<le> ?M (b # es)" by (rule Max_ge) simp_all
      with that False show ?thesis by linarith
    qed
    ultimately show ?thesis using False Cons.IH [of b] by auto
  qed
qed simp

lemma matchTxn_find:
  "matchTxn cf txns start =
     (let es = filter (eligible cf start) txns in
      find (\<lambda>t. tx_commit t = Max (tx_commit ` set es)) es)"
proof (cases "filter (eligible cf start) txns")
  case (Cons b es)
  then show ?thesis
    unfolding matchTxn_def foldl_filter Cons Let_def
    using foldl_latest [of tx_commit b es] by simp
qed (simp add: matchTxn_def foldl_filter)

text \<open>
  A distributed trace is attributed to the most recent of the eligible transactions (of the
  configured lab, committed within the window before its start and the skew after it), to the
  first of them when several were committed at that instant, and to none when there is none.
\<close>

theorem match_txn_latest:
  "matchTxn cf txns start =
     (let es = filter (eligible cf start) txns in
      find (\<lambda>t. tx_commit t = Max (tx_commit ` set es)) es)"
  by (rule matchTxn_find)

lemma matchTxn_mem: "matchTxn cf txns start = Some t \<Longrightarrow> t \<in> set txns \<and> eligible cf start t"
proof -
  assume "matchTxn cf txns start = Some t"
  then have "t \<in> set (filter (eligible cf start) txns)"
    unfolding matchTxn_find Let_def find_Some_iff by (metis nth_mem)
  then show ?thesis by simp
qed

text \<open>The transactions a poll leaves have an id and a commit time.\<close>

lemma poll_txns_wf:
  assumes "\<And>xs. set (srt xs) = set xs"
  shows "list_all (\<lambda>r. tx_id r \<noteq> [] \<and> 0 < tx_commit r) (foldl (poll_txns srt) [] answers)"
proof -
  have "list_all (\<lambda>r. tx_id r \<noteq> [] \<and> 0 < tx_commit r) (poll_txns srt txns a)"
    if "list_all (\<lambda>r. tx_id r \<noteq> [] \<and> 0 < tx_commit r) txns" for txns a
    using that assms
    by (auto simp: poll_txns_def keep_txns_def Let_def list_all_iff split: option.splits if_splits)
  then have "list_all (\<lambda>r. tx_id r \<noteq> [] \<and> 0 < tx_commit r) (foldl (poll_txns srt) txns answers)"
    if "list_all (\<lambda>r. tx_id r \<noteq> [] \<and> 0 < tx_commit r) txns" for txns
    using that by (induction answers arbitrary: txns) simp_all
  then show ?thesis by simp
qed

lemma txnTags_id: "dt_txn dt \<noteq> [] \<Longrightarrow> txnTags m dt ''txn.id'' = Some (dt_txn dt)"
  by (simp add: txnTags_def Let_def)

lemma zipkin_spans_tags:
  assumes "z \<in> set (zipkin_spans fmt dt)"
  shows "\<exists>m. m ''txn.id'' = None \<and> z_tags z = txnTags m dt"
proof -
  from assms consider "z = root_span fmt dt" | i where "z = child_span fmt dt i"
    by (auto simp: zipkin_spans_def)
  then show ?thesis
  proof cases
    case 1
    have "z_tags z = txnTags [''link'' \<mapsto> dt_link dt, ''nodes'' \<mapsto> join_with '','' (dt_nodes dt),
        ''roots'' \<mapsto> join_with '' | '' (dt_roots dt)] dt"
      unfolding 1 root_span_def Let_def by (rule zspan.simps)
    then show ?thesis by (intro exI conjI) simp_all
  next
    case 2
    have "z_tags z = txnTags [''key'' \<mapsto> ds_key (dt_spans dt ! i), ''detail'' \<mapsto> ds_detail (dt_spans dt ! i)] dt"
      unfolding 2 child_span_def Let_def by (rule zspan.simps)
    then show ?thesis by (intro exI conjI) simp_all
  qed
qed

text \<open>
  C34. Every span exported for a trace carries the id of the transaction the trace is attributed to,
  and none when it is attributed to none, whatever the log store answered so far.
\<close>

theorem spans_carry_txn:
  assumes "\<And>xs. set (srt xs) = set xs" and "dt_txn dt = []"
    and "txns = foldl (poll_txns srt) [] answers"
  shows "list_all (\<lambda>z. z_tags z ''txn.id'' = map_option tx_id (matchTxn cf txns (dt_start dt)))
    (zipkin_spans fmt (attribute cf txns dt))"
proof -
  have "z_tags z ''txn.id'' = map_option tx_id (matchTxn cf txns (dt_start dt))"
    if z: "z \<in> set (zipkin_spans fmt (attribute cf txns dt))" for z
  proof -
    from zipkin_spans_tags [OF z] obtain m where m: "m ''txn.id'' = None" "z_tags z = txnTags m (attribute cf txns dt)"
      by blast
    show ?thesis
    proof (cases "matchTxn cf txns (dt_start dt)")
      case None
      with m assms(2) show ?thesis by (simp add: attribute_def txnTags_def)
    next
      case (Some t)
      with matchTxn_mem [OF Some] poll_txns_wf [of srt answers, OF assms(1)] have "tx_id t \<noteq> []"
        by (auto simp: assms(3) list_all_iff)
      with m Some show ?thesis by (simp add: attribute_def txnTags_id)
    qed
  qed
  then show ?thesis by (simp add: list_all_iff)
qed

section \<open>Escaping\<close>

text \<open>What a server does with a query component: \<^verbatim>\<open>%XX\<close> is the byte with that code.\<close>

definition unhexd :: "char \<Rightarrow> nat" where
  "unhexd c = (let n = of_char c in if n < 58 then n - 48 else n - 55)"

fun url_decode :: "string \<Rightarrow> string" where
  "url_decode [] = []"
| "url_decode (c # s) =
     (if c = CHR ''%'' then
        (case s of a # b # r \<Rightarrow> char_of (unhexd a * 16 + unhexd b) # url_decode r | _ \<Rightarrow> [])
      else c # url_decode s)"

lemma unhexd_hexd: "d < 16 \<Longrightarrow> unhexd (hexd d) = d"
proof -
  assume "d < 16"
  moreover have "list_all (\<lambda>d. unhexd (hexd d) = d) [0 ..< 16]" by code_simp
  ultimately show ?thesis by (simp add: list_all_iff)
qed

lemma hexd_unreserved: "d < 16 \<Longrightarrow> unreserved (hexd d)"
proof -
  assume "d < 16"
  moreover have "list_all (\<lambda>d. unreserved (hexd d)) [0 ..< 16]" by code_simp
  ultimately show ?thesis by (simp add: list_all_iff)
qed

lemma high_nibble: "of_char c div 16 < (16::nat)"
  by (cases c) (simp add: of_char_def)

lemma hexd_char [simp]:
  "unhexd (hexd (of_char c div 16)) * 16 + unhexd (hexd (of_char c mod 16)) = of_char c"
proof -
  have "of_char c div 16 < (16::nat)" by (rule high_nibble)
  then show ?thesis by (simp add: unhexd_hexd)
qed

text \<open>
  The encoding of a query loses nothing: decoding it gives the query back, and it holds only
  unreserved characters and percent signs.
\<close>

theorem urlQuery_roundtrip:
  "url_decode (urlQuery s) = s \<and> list_all (\<lambda>c. unreserved c \<or> c = CHR ''%'') (urlQuery s)"
proof (induction s)
  case (Cons c s)
  have "of_char c div 16 < (16::nat)" by (rule high_nibble)
  moreover have "\<not> unreserved CHR ''%''" by (simp add: unreserved_def)
  ultimately show ?case using Cons by (auto simp: hexd_unreserved)
qed simp

section \<open>Rounds of export\<close>

text \<open>The loop over the traces of a round: when it is a trace's turn, and whether its post succeeds.\<close>

fun push_all ::
  "(time \<Rightarrow> string) \<Rightarrow> bool \<Rightarrow> string set \<Rightarrow> (time \<times> bool \<times> dtrace) list \<Rightarrow> string set \<times> (bool \<times> zspan list) list"
where
  "push_all fmt loki pushed [] = (pushed, [])"
| "push_all fmt loki pushed ((now, sent, dt) # cs) =
     (let (pushed, post) = pushZipkin fmt loki now sent pushed dt;
          (pushed, posts) = push_all fmt loki pushed cs in
      (pushed, (case post of None \<Rightarrow> [] | Some zs \<Rightarrow> [(sent, zs)]) @ posts))"

text \<open>The trace ids of the posts that succeeded.\<close>

definition sent_ids :: "(bool \<times> zspan list) list \<Rightarrow> string list" where
  "sent_ids posts = map (\<lambda>(_, zs). z_trace (hd zs)) (filter fst posts)"

lemma sent_ids_simps [simp]:
  "sent_ids [] = []"
  "sent_ids ((b, zs) # ps) = (if b then [z_trace (hd zs)] else []) @ sent_ids ps"
  by (simp_all add: sent_ids_def)

lemma zipkin_spans_trace [simp]: "z_trace (hd (zipkin_spans fmt dt)) = zipkin_id fmt dt"
  by (simp add: zipkin_spans_def root_span_def Let_def)

lemma pushZipkin_cases:
  "pushZipkin fmt loki now sent pushed dt = (pushed, None) \<or>
   zipkin_id fmt dt \<notin> pushed \<and>
   pushZipkin fmt loki now sent pushed dt =
     (if sent then insert (zipkin_id fmt dt) pushed else pushed, Some (zipkin_spans fmt dt))"
  by (simp add: pushZipkin_def Let_def)

lemma push_all_sent:
  "push_all fmt loki pushed cs = (pushed', posts) \<Longrightarrow>
   pushed' = pushed \<union> set (sent_ids posts) \<and> set (sent_ids posts) \<inter> pushed = {} \<and> distinct (sent_ids posts)"
proof (induction cs arbitrary: pushed posts)
  case (Cons c cs)
  obtain now sent dt where c: "c = (now, sent, dt)" by (rule prod_cases3)
  obtain p post where p: "pushZipkin fmt loki now sent pushed dt = (p, post)" by (rule prod.exhaust)
  obtain q ps where q: "push_all fmt loki p cs = (q, ps)" by (rule prod.exhaust)
  from Cons.prems c p q have eq: "pushed' = q" "posts = (case post of None \<Rightarrow> [] | Some zs \<Rightarrow> [(sent, zs)]) @ ps"
    by (simp_all add: Let_def)
  from pushZipkin_cases [of fmt loki now sent pushed dt] p Cons.IH [of p ps] q eq
  show ?case by (auto split: if_splits)
qed simp

text \<open>
  One turn of \<^verbatim>\<open>loop\<close>: build, attribute, publish, export.  \<open>clock i\<close> is when the turn of the
  \<open>i\<close>th trace comes and whether its post succeeds; the result is what \<^verbatim>\<open>/dtraces\<close> then serves,
  the exported ids and the posts.
\<close>

definition agg_turn ::
  "(time \<Rightarrow> string) \<Rightarrow> txn_conf \<Rightarrow> bool \<Rightarrow> bool \<Rightarrow> orders \<Rightarrow> duration \<Rightarrow> (string \<times> string) list \<Rightarrow>
   (string \<Rightarrow> trace list) \<Rightarrow> txnRec list \<Rightarrow> (nat \<Rightarrow> time \<times> bool) \<Rightarrow> string set \<Rightarrow>
   dtrace list \<times> string set \<times> (bool \<times> zspan list) list"
where
  "agg_turn fmt cf zipkin loki ord w nodes fetch txns clock pushed =
     (let dts = map (attribute cf txns) (build ord w fetch nodes) in
      (dts, if zipkin
            then push_all fmt loki pushed
                   (map (\<lambda>i. (fst (clock i), snd (clock i), dts ! i)) [0 ..< length dts])
            else (pushed, [])))"

text \<open>Turns one after another, each with its own iteration orders, answers and clock.\<close>

fun agg_turns ::
  "(time \<Rightarrow> string) \<Rightarrow> txn_conf \<Rightarrow> bool \<Rightarrow> bool \<Rightarrow> duration \<Rightarrow> string set \<Rightarrow>
   (orders \<times> (string \<times> string) list \<times> (string \<Rightarrow> trace list) \<times> txnRec list \<times> (nat \<Rightarrow> time \<times> bool)) list \<Rightarrow>
   string set \<times> (bool \<times> zspan list) list"
where
  "agg_turns fmt cf zipkin loki w pushed [] = (pushed, [])"
| "agg_turns fmt cf zipkin loki w pushed ((ord, nodes, fetch, txns, clock) # rs) =
     (let (_, pushed, posts) = agg_turn fmt cf zipkin loki ord w nodes fetch txns clock pushed;
          (pushed, posts') = agg_turns fmt cf zipkin loki w pushed rs in
      (pushed, posts @ posts'))"

lemma sent_ids_append [simp]: "sent_ids (ps @ qs) = sent_ids ps @ sent_ids qs"
  by (simp add: sent_ids_def)

lemma agg_turn_sent:
  "agg_turn fmt cf zipkin loki ord w nodes fetch txns clock pushed = (dts, pushed', posts) \<Longrightarrow>
   pushed' = pushed \<union> set (sent_ids posts) \<and> set (sent_ids posts) \<inter> pushed = {} \<and> distinct (sent_ids posts)"
  using push_all_sent [of fmt loki pushed _ pushed' posts]
  by (auto simp: agg_turn_def Let_def split: if_splits)

lemma agg_turns_sent:
  "agg_turns fmt cf zipkin loki w pushed rs = (pushed', posts) \<Longrightarrow>
   pushed' = pushed \<union> set (sent_ids posts) \<and> set (sent_ids posts) \<inter> pushed = {} \<and> distinct (sent_ids posts)"
proof (induction rs arbitrary: pushed posts)
  case (Cons r rs)
  obtain ord nodes fetch txns clock where r: "r = (ord, nodes, fetch, txns, clock)" by (rule prod_cases5)
  obtain dts p ps where p: "agg_turn fmt cf zipkin loki ord w nodes fetch txns clock pushed = (dts, p, ps)"
    by (rule prod_cases3)
  obtain q qs where q: "agg_turns fmt cf zipkin loki w p rs = (q, qs)" by (rule prod.exhaust)
  from Cons.prems p q have eq: "pushed' = q" "posts = ps @ qs" unfolding r by (simp_all add: Let_def)
  from agg_turn_sent [OF p] Cons.IH [of p qs] q eq show ?case by auto
qed simp

text \<open>
  C20. Over any number of turns every distributed trace is exported once: no two posts that succeeded
  have the same trace id, and the ids remembered are exactly theirs, so one that failed is posted
  again.
\<close>

theorem exported_once:
  "let (pushed, posts) = agg_turns fmt cf zipkin loki w {} rs in
     distinct (sent_ids posts) \<and> pushed = set (sent_ids posts)"
  using agg_turns_sent [of fmt cf zipkin loki w "{}" rs] by (auto split: prod.split)

section \<open>The exported waterfall\<close>

lemma wrap64_id: "- (2 ^ 63) \<le> i \<Longrightarrow> i < 2 ^ 63 \<Longrightarrow> wrap64 i = i"
  by (simp add: wrap64_def)

lemma div_bracket: "x div 1000000 * 1000000 \<le> x \<and> x < (x div 1000000 + 1) * 1000000" for x :: int
proof -
  have "x = x div 1000000 * 1000000 + x mod 1000000" "0 \<le> x mod 1000000" "x mod 1000000 < 1000000" by simp_all
  then show ?thesis unfolding distrib_right by linarith
qed

text \<open>
  An absolute time that fits the clock keeps its order through the export: the time of a child is
  that of its event, cut to a millisecond from the start.
\<close>

lemma cut_time:
  assumes "start \<le> t" and "t - start < 2 ^ 63"
  shows "let off = milliseconds (time_sub t start) in
    0 \<le> off \<and> off * 1000000 \<le> t - start \<and> t - start < (off + 1) * 1000000 \<and>
    unix_micro (span_time start off) = unix_micro start + off * 1000"
proof -
  have sub: "time_sub t start = t - start" using assms by (intro time_sub_small) simp
  have off: "milliseconds (t - start) = (t - start) div 1000000"
    using assms by (auto simp: milliseconds_def go_div_def sgn_if)
  have "0 \<le> (t - start) div 1000000" using assms by (simp add: pos_imp_zdiv_nonneg_iff)
  moreover have "(t - start) div 1000000 * 1000000 \<le> t - start \<and>
    t - start < ((t - start) div 1000000 + 1) * 1000000"
    by (rule div_bracket)
  ultimately have le: "0 \<le> (t - start) div 1000000" "(t - start) div 1000000 * 1000000 \<le> t - start"
    "t - start < ((t - start) div 1000000 + 1) * 1000000" by simp_all
  then have "wrap64 ((t - start) div 1000000 * millisecond) = (t - start) div 1000000 * 1000000"
    using assms by (subst wrap64_id) (simp_all add: millisecond_def)
  then have "unix_micro (span_time start ((t - start) div 1000000)) = (start + ((t - start) div 1000000 * 1000) * 1000) div 1000"
    by (simp add: unix_micro_def span_time_def)
  also have "\<dots> = start div 1000 + (t - start) div 1000000 * 1000" by (subst div_mult_self1) simp_all
  finally show ?thesis using le unfolding sub off Let_def by (simp add: unix_micro_def)
qed

lemma child_span_simps [simp]:
  "z_ts (child_span fmt dt i) = unix_micro (span_time (dt_start dt) (ds_off (dt_spans dt ! i)))"
  "z_dur (child_span fmt dt i) = child_dur (dt_spans dt) i"
  by (simp_all add: child_span_def Let_def)

lemma root_span_simps [simp]:
  "z_ts (root_span fmt dt) = unix_micro (dt_start dt)"
  "z_dur (root_span fmt dt) = wrap64 (wrap64 (dt_span dt * 1000) + 1)"
  by (simp_all add: root_span_def Let_def)

lemma dt_start_merge:
  "dt_start (merge srt votes n g) = (case srt (concat (map spans_of g)) of [] \<Rightarrow> zero_time | s # _ \<Rightarrow> ds_abs s)"
  by (simp add: merge_def Let_def)

text \<open>The offsets of the spans of a merged trace no longer than the clock can count.\<close>

lemma merge_cut:
  assumes srt: "sorts_by ds_abs srt (concat (map spans_of g))"
    and dt: "dt = merge srt votes n g"
    and short: "\<And>s. s \<in> set (dt_spans dt) \<Longrightarrow> ds_abs s - dt_start dt < 2 ^ 63"
    and i: "i < length (dt_spans dt)"
  shows "let s = dt_spans dt ! i in
    0 \<le> ds_off s \<and> ds_off s * 1000000 < 2 ^ 63 \<and>
    ds_off s * 1000000 \<le> ds_abs s - dt_start dt \<and> ds_abs s - dt_start dt < (ds_off s + 1) * 1000000 \<and>
    unix_micro (span_time (dt_start dt) (ds_off s)) = unix_micro (dt_start dt) + ds_off s * 1000"
proof -
  let ?xs = "srt (concat (map spans_of g))"
  have ss: "dt_spans dt = rebase ?xs" by (simp add: dt dt_spans_merge)
  with i obtain y ys where xs: "?xs = y # ys" by (cases ?xs) (auto simp: rebase_def)
  have start: "dt_start dt = ds_abs y" using xs by (simp add: dt dt_start_merge)
  have i': "i < length ?xs" using i ss by (simp add: rebase_def)
  have abs: "ds_abs (dt_spans dt ! i) = ds_abs (?xs ! i)" and
    off: "ds_off (dt_spans dt ! i) = milliseconds (time_sub (ds_abs (?xs ! i)) (ds_abs y))"
    using xs unfolding ss rebase_nth [OF i'] by simp_all
  have "ds_abs y \<le> ds_abs (?xs ! i)"
    using srt xs i' nth_mem [of i ?xs] by (auto simp: sorts_by_def)
  moreover have "ds_abs (?xs ! i) - ds_abs y < 2 ^ 63"
    using short [OF nth_mem [OF i]] abs start by simp
  ultimately show ?thesis
    using cut_time [of "ds_abs y" "ds_abs (?xs ! i)"] unfolding Let_def abs off start by simp
qed

lemma span_bound:
  assumes "sorts_by ds_abs srt (concat (map spans_of g))" "dt = merge srt votes n g"
    "\<And>s. s \<in> set (dt_spans dt) \<Longrightarrow> ds_abs s - dt_start dt < 2 ^ 63"
  shows "0 \<le> dt_span dt \<and> dt_span dt * 1000000 < 2 ^ 63"
proof -
  have max: "dt_span dt = Max (insert 0 (ds_off ` set (dt_spans dt)))"
    by (simp add: assms(2) dt_span_merge dt_spans_merge foldl_max_Max)
  have "Max (insert 0 (ds_off ` set (dt_spans dt))) \<in> insert 0 (ds_off ` set (dt_spans dt))"
    by (rule Max_in) simp_all
  then have "dt_span dt = 0 \<or> (\<exists>i < length (dt_spans dt). dt_span dt = ds_off (dt_spans dt ! i))"
    by (auto simp: max in_set_conv_nth)
  then show ?thesis
  proof
    assume "\<exists>i < length (dt_spans dt). dt_span dt = ds_off (dt_spans dt ! i)"
    then obtain i where i: "i < length (dt_spans dt)" "dt_span dt = ds_off (dt_spans dt ! i)" by blast
    show ?thesis using merge_cut [OF assms i(1)] by (simp add: i(2) Let_def)
  qed simp
qed

lemma zipkin_spans_nth:
  "length (zipkin_spans fmt dt) = length (dt_spans dt) + 1" "zipkin_spans fmt dt ! 0 = root_span fmt dt"
  "i < length (dt_spans dt) \<Longrightarrow> zipkin_spans fmt dt ! (i + 1) = child_span fmt dt i"
  by (simp_all add: zipkin_spans_def)

lemma merge_offsets_sorted:
  "sorts_by ds_abs srt (concat (map spans_of g)) \<Longrightarrow> dt = merge srt votes n g \<Longrightarrow> sorted (map ds_off (dt_spans dt))"
  using rebase_sorted [of "srt (concat (map spans_of g))"]
  by (simp add: sorts_by_def dt_spans_merge)

lemma zipkin_times:
  assumes "sorts_by ds_abs srt (concat (map spans_of g))" and "dt = merge srt votes n g"
    and "\<And>s. s \<in> set (dt_spans dt) \<Longrightarrow> ds_abs s - dt_start dt < 2 ^ 63"
  shows "map z_ts (zipkin_spans fmt dt) =
    unix_micro (dt_start dt) # map (\<lambda>s. unix_micro (dt_start dt) + ds_off s * 1000) (dt_spans dt)"
    and "sorted (map z_ts (zipkin_spans fmt dt))"
proof -
  have "z_ts (child_span fmt dt i) = unix_micro (dt_start dt) + ds_off (dt_spans dt ! i) * 1000"
    and nonneg: "0 \<le> ds_off (dt_spans dt ! i)" if "i < length (dt_spans dt)" for i
    using merge_cut [OF assms that] by (simp_all add: Let_def)
  then show times: "map z_ts (zipkin_spans fmt dt) =
      unix_micro (dt_start dt) # map (\<lambda>s. unix_micro (dt_start dt) + ds_off s * 1000) (dt_spans dt)"
    by (intro nth_equalityI) (auto simp: zipkin_spans_def nth_Cons split: nat.split)
  have "0 \<le> ds_off s" if "s \<in> set (dt_spans dt)" for s using nonneg that by (auto simp: in_set_conv_nth)
  moreover have "sorted (map (\<lambda>s. unix_micro (dt_start dt) + ds_off s * 1000) (dt_spans dt))"
    using merge_offsets_sorted [OF assms(1,2)] by (simp add: sorted_map sorted_wrt_iff_nth_less)
  ultimately show "sorted (map z_ts (zipkin_spans fmt dt))" unfolding times by auto
qed

lemma offset_le_span: "dt = merge srt votes n g \<Longrightarrow> k < length (dt_spans dt) \<Longrightarrow> ds_off (dt_spans dt ! k) \<le> dt_span dt"
  by (simp add: dt_span_merge dt_spans_merge foldl_max_Max)

lemma child_time:
  assumes "sorts_by ds_abs srt (concat (map spans_of g))" and "dt = merge srt votes n g"
    and "\<And>s. s \<in> set (dt_spans dt) \<Longrightarrow> ds_abs s - dt_start dt < 2 ^ 63"
    and "i < length (dt_spans dt)"
  shows "z_ts (child_span fmt dt i) = unix_micro (dt_start dt) + ds_off (dt_spans dt ! i) * 1000"
  using merge_cut [OF assms] by (simp add: Let_def)

text \<open>How long a child lasts, and where it ends.\<close>

lemma child_lasts:
  assumes "sorts_by ds_abs srt (concat (map spans_of g))" and "dt = merge srt votes n g"
    and "\<And>s. s \<in> set (dt_spans dt) \<Longrightarrow> ds_abs s - dt_start dt < 2 ^ 63"
    and "i < length (dt_spans dt)"
  shows "z_dur (child_span fmt dt i) =
      (if i + 1 < length (dt_spans dt)
       then max 1000 (z_ts (zipkin_spans fmt dt ! (i + 2)) - z_ts (child_span fmt dt i)) else 1000) \<and>
    ds_off (dt_spans dt ! i) * 1000 + z_dur (child_span fmt dt i) \<le> dt_span dt * 1000 + 1000"
proof (cases "i + 1 < length (dt_spans dt)")
  case True
  let ?s = "dt_spans dt ! i" and ?s' = "dt_spans dt ! (i + 1)"
  have a: "0 \<le> ds_off ?s" "ds_off ?s * 1000000 < 2 ^ 63" and b: "ds_off ?s' * 1000000 < 2 ^ 63"
    using merge_cut [OF assms] merge_cut [OF assms(1-3) True] by (simp_all add: Let_def)
  have le: "ds_off ?s \<le> ds_off ?s'"
    using merge_offsets_sorted [OF assms(1,2)] True sorted_nth_mono [of "map ds_off (dt_spans dt)" i "i + 1"]
    by simp
  have next': "zipkin_spans fmt dt ! (i + 2) = child_span fmt dt (i + 1)"
    using zipkin_spans_nth(3) [OF True, of fmt] by (simp add: numeral_2_eq_2)
  have "child_dur (dt_spans dt) i = max 1000 ((ds_off ?s' - ds_off ?s) * 1000)"
    using True a b le by (simp add: child_dur_def Let_def wrap64_id max_def)
  moreover note child_time [OF assms(1-3) True, of fmt] child_time [OF assms, of fmt]
    offset_le_span [OF assms(2) True] offset_le_span [OF assms(2,4)]
  ultimately show ?thesis
    unfolding if_P [OF True] next' by (simp add: algebra_simps)
next
  case False
  with offset_le_span [OF assms(2,4)] show ?thesis by (simp add: child_dur_def)
qed

text \<open>
  C22. The spans exported for a distributed trace are its waterfall: the root span, which starts
  with the first event, and then one child for each event, in the order of their times.  A
  child lies at its event's time, cut to a millisecond from the start of the trace (so early by
  less than a millisecond); it lasts until the next child but at least a millisecond, the last
  one (or only one) a millisecond; it starts within the root span and ends at most 999
  microseconds after it.  No arithmetic of the export wraps when the trace is no longer than
  the clock can count.
\<close>

theorem zipkin_waterfall:
  assumes "sorts_by ds_abs srt (concat (map spans_of g))"
    and "dt = merge srt votes n g"
    and "\<And>s. s \<in> set (dt_spans dt) \<Longrightarrow> ds_abs s - dt_start dt < 2 ^ 63"
    and "i < length (dt_spans dt)"
  shows "let zs = zipkin_spans fmt dt; r = zs ! 0; s = zs ! (i + 1) in
    length zs = length (dt_spans dt) + 1 \<and> sorted (map z_ts zs) \<and>
    z_ts r = unix_micro (dt_start dt) \<and>
    z_dur s = (if i + 1 < length (dt_spans dt) then max 1000 (z_ts (zs ! (i + 2)) - z_ts s) else 1000) \<and>
    z_ts r \<le> z_ts s \<and> z_ts s < z_ts r + z_dur r \<and> z_ts s + z_dur s \<le> z_ts r + z_dur r + 999 \<and>
    z_ts s \<le> unix_micro (ds_abs (dt_spans dt ! i)) \<and> unix_micro (ds_abs (dt_spans dt ! i)) \<le> z_ts s + 1000"
proof -
  let ?ss = "dt_spans dt" and ?zs = "zipkin_spans fmt dt" and ?t0 = "unix_micro (dt_start dt)"
  let ?s = "?ss ! i"
  from merge_cut [OF assms] have a: "0 \<le> ds_off ?s" "ds_off ?s * 1000000 < 2 ^ 63"
    "ds_off ?s * 1000000 \<le> ds_abs ?s - dt_start dt" "ds_abs ?s - dt_start dt < (ds_off ?s + 1) * 1000000"
    "unix_micro (span_time (dt_start dt) (ds_off ?s)) = ?t0 + ds_off ?s * 1000"
    by (simp_all add: Let_def)
  obtain "dt_span dt * 1000000 < 2 ^ 63" "0 \<le> dt_span dt" using span_bound [OF assms(1-3)] by simp
  then have root: "z_dur (root_span fmt dt) = dt_span dt * 1000 + 1" by (simp add: wrap64_id)
  have s: "?zs ! (i + 1) = child_span fmt dt i" "z_ts (child_span fmt dt i) = ?t0 + ds_off ?s * 1000"
    by (rule zipkin_spans_nth(3) [OF assms(4)]) (simp add: a(5))
  note lasts = child_lasts [OF assms, of fmt]
  have event: "?t0 + ds_off ?s * 1000 \<le> unix_micro (ds_abs ?s)"
    "unix_micro (ds_abs ?s) \<le> ?t0 + ds_off ?s * 1000 + 1000"
    using a(3,4) zdiv_mono1 [of "dt_start dt + ds_off ?s * 1000 * 1000" "ds_abs ?s" 1000]
      zdiv_mono1 [of "ds_abs ?s" "dt_start dt + (ds_off ?s * 1000 + 1000) * 1000" 1000]
    by (simp_all add: unix_micro_def)
  show ?thesis
    unfolding Let_def zipkin_spans_nth(1,2) s(1) root
    using lasts event offset_le_span [OF assms(2,4)] a(1) zipkin_times(2) [OF assms(1-3)] s(2) by simp
qed

section \<open>Witnesses\<close>

definition ex_trace1 :: trace where
  "ex_trace1 = \<lparr>tr_node = ''pe1'', tr_id = 1, tr_root = ''netlink/link-down pe1-p1'', tr_start = 5 * second, tr_span = 3,
     tr_spans = [\<lparr>sp_off = 0, sp_bus = ''netlink'', sp_kind = ''link-down'', sp_key = ''pe1-p1'', sp_detail = []\<rparr>,
                 \<lparr>sp_off = 3, sp_bus = ''fpm'', sp_kind = ''fib-add'', sp_key = ''10.0.0.0/24'', sp_detail = []\<rparr>]\<rparr>"

definition ex_trace2 :: trace where
  "ex_trace2 = \<lparr>tr_node = [], tr_id = 1, tr_root = ''ospf/nbr-lost 2.2.2.2'', tr_start = 5 * second + 1700000, tr_span = 0,
     tr_spans = [\<lparr>sp_off = 0, sp_bus = ''ospf'', sp_kind = ''nbr-lost'', sp_key = ''2.2.2.2'', sp_detail = []\<rparr>]\<rparr>"

lemmas ex_trace_defs = ex_trace1_def ex_trace2_def

lemma sorts_by_sort_key [simp]: "sorts_by key (sort_key key) xs"
  by (simp add: sorts_by_def)

theorem merge_timeline_witness:
  "let ss = dt_spans (merge (sort_key ds_abs) [] 1 [ex_trace1, ex_trace2]) in
    mset (map (\<lambda>s. s\<lparr>ds_off := 0\<rparr>) ss) = mset (concat (map spans_of [ex_trace1, ex_trace2])) \<and>
    sorted (map ds_abs ss) \<and> sorted (0 # map ds_off ss) \<and>
    map ds_off ss = map (\<lambda>s. milliseconds (time_sub (ds_abs s) (Min (ds_abs ` set ss)))) ss \<and>
    dt_span (merge (sort_key ds_abs) [] 1 [ex_trace1, ex_trace2]) = Max (insert 0 (ds_off ` set ss))"
  by (rule merge_timeline) simp

definition ex_ord :: orders where
  "ex_ord = \<lparr>or_traces = sort_key tr_start, or_spans = sort_key ds_abs, or_votes = (\<lambda>_. [])\<rparr>"

definition ex_fetch :: "string \<Rightarrow> trace list" where
  "ex_fetch a = (if a = ''10.0.0.1:9340'' then [ex_trace2] else if a = ''10.0.0.2:80'' then [ex_trace1] else [])"

theorem build_keeps_spans_witness:
  "let dts = build ex_ord second ex_fetch [(''p1'', ''10.0.0.1''), (''pe1'', ''10.0.0.2:80'')] in
    mset (map (\<lambda>s. s\<lparr>ds_off := 0\<rparr>) (concat (map dt_spans dts))) =
      mset (concat (map spans_of (all_traces ex_fetch [(''p1'', ''10.0.0.1''), (''pe1'', ''10.0.0.2:80'')]))) \<and>
    map dt_id dts = [1 ..< Suc (length dts)] \<and> list_all (\<lambda>dt. dt_roots dt \<noteq> []) dts"
  by (rule build_keeps_spans) (simp_all add: ex_ord_def)

definition ex_dt :: dtrace where
  "ex_dt = merge (sort_key ds_abs) [] 1 [ex_trace1, ex_trace2]"

lemma ex_dt_spans:
  "dt_spans ex_dt =
     [\<lparr>ds_off = 0, ds_node = ''pe1'', ds_bus = ''netlink'', ds_kind = ''link-down'', ds_key = ''pe1-p1'', ds_detail = [],
       ds_abs = 5000000000\<rparr>,
      \<lparr>ds_off = 1, ds_node = [], ds_bus = ''ospf'', ds_kind = ''nbr-lost'', ds_key = ''2.2.2.2'', ds_detail = [],
       ds_abs = 5001700000\<rparr>,
      \<lparr>ds_off = 3, ds_node = ''pe1'', ds_bus = ''fpm'', ds_kind = ''fib-add'', ds_key = ''10.0.0.0/24'', ds_detail = [],
       ds_abs = 5003000000\<rparr>]"
  unfolding ex_dt_def dt_spans_merge
  by (simp add: ex_trace_defs spans_of_def span_time_def wrap64_def rebase_def second_def millisecond_def
      milliseconds_def time_sub_def go_div_def)

lemma ex_dt_start: "dt_start ex_dt = 5000000000"
  unfolding ex_dt_def dt_start_merge
  by (simp add: ex_trace_defs spans_of_def span_time_def wrap64_def second_def millisecond_def)

text \<open>The last child of the trace, which has no successor.\<close>

theorem zipkin_waterfall_witness:
  "let zs = zipkin_spans (\<lambda>_. []) ex_dt; r = zs ! 0; s = zs ! (2 + 1) in
    length zs = length (dt_spans ex_dt) + 1 \<and> sorted (map z_ts zs) \<and> z_ts r = unix_micro (dt_start ex_dt) \<and>
    z_dur s = (if 2 + 1 < length (dt_spans ex_dt) then max 1000 (z_ts (zs ! (2 + 2)) - z_ts s) else 1000) \<and>
    z_ts r \<le> z_ts s \<and> z_ts s < z_ts r + z_dur r \<and> z_ts s + z_dur s \<le> z_ts r + z_dur r + 999 \<and>
    z_ts s \<le> unix_micro (ds_abs (dt_spans ex_dt ! 2)) \<and> unix_micro (ds_abs (dt_spans ex_dt ! 2)) \<le> z_ts s + 1000"
  by (rule zipkin_waterfall [OF sorts_by_sort_key ex_dt_def]) (auto simp: ex_dt_spans ex_dt_start)

definition ex_answers :: "txnRec option list option list" where
  "ex_answers = [None, Some [Some \<lparr>tx_id = ''c1'', tx_lab = ''lab'', tx_action = ''apply'', tx_agent = ''mac'', tx_commit = 4999000000\<rparr>, None]]"

theorem spans_carry_txn_witness:
  "list_all (\<lambda>z. z_tags z ''txn.id'' =
      map_option tx_id (matchTxn \<lparr>tc_lab = ''lab'', tc_window = 15 * second, tc_skew = 2 * second\<rparr>
        (foldl (poll_txns (\<lambda>xs. xs)) [] ex_answers) (dt_start ex_dt)))
    (zipkin_spans (\<lambda>_. []) (attribute \<lparr>tc_lab = ''lab'', tc_window = 15 * second, tc_skew = 2 * second\<rparr>
        (foldl (poll_txns (\<lambda>xs. xs)) [] ex_answers) ex_dt)) \<and>
   map_option tx_id (matchTxn \<lparr>tc_lab = ''lab'', tc_window = 15 * second, tc_skew = 2 * second\<rparr>
     (foldl (poll_txns (\<lambda>xs. xs)) [] ex_answers) (dt_start ex_dt)) = Some ''c1''"
proof
  show "map_option tx_id (matchTxn \<lparr>tc_lab = ''lab'', tc_window = 15 * second, tc_skew = 2 * second\<rparr>
     (foldl (poll_txns (\<lambda>xs. xs)) [] ex_answers) (dt_start ex_dt)) = Some ''c1''"
    by (simp add: ex_answers_def poll_txns_def keep_txns_def matchTxn_def eligible_def ex_dt_start wrap64_def second_def)
qed (rule spans_carry_txn, simp_all add: ex_dt_def merge_def Let_def)

section \<open>A trace that arrives late\<close>

lemma join_with_snoc: "xs \<noteq> [] \<Longrightarrow> join_with sep (xs @ [x]) = join_with sep xs @ sep @ x"
  by (induction sep xs rule: join_with.induct) simp_all

text \<open>
  A trace that joins its group after the group was exported changes the roots of the distributed
  trace and so the seed of its id: the same convergence is no longer recognised as exported.
\<close>

theorem late_trace_new_seed:
  assumes "g \<noteq> []"
    and "dt_start (merge srt votes' m (g @ [t])) = dt_start (merge srt votes n g)"
    and "dt_link (merge srt votes' m (g @ [t])) = dt_link (merge srt votes n g)"
  shows "zipkin_seed fmt (merge srt votes' m (g @ [t])) \<noteq> zipkin_seed fmt (merge srt votes n g)"
proof -
  let ?r = "\<lambda>t. tr_node t @ '': '' @ tr_root t"
  have "dt_roots (merge srt votes' m (g @ [t])) = map ?r g @ [?r t]" "dt_roots (merge srt votes n g) = map ?r g"
    by (simp_all add: merge_def Let_def)
  with assms show ?thesis by (simp add: zipkin_seed_def join_with_snoc)
qed

theorem late_trace_new_seed_witness:
  "zipkin_seed (\<lambda>_. ''t'') (merge (sort_key ds_abs) [] 1 ([ex_trace1] @ [ex_trace2])) \<noteq>
   zipkin_seed (\<lambda>_. ''t'') (merge (sort_key ds_abs) [] 1 [ex_trace1])"
  by (rule late_trace_new_seed)
    (simp_all add: dt_start_merge merge_def Let_def ex_trace_defs spans_of_def span_time_def wrap64_def second_def millisecond_def)

section \<open>The link of a trace\<close>

lemma index_byte_first: "c \<notin> set a \<Longrightarrow> index_byte (a @ c # b) c = Some (length a)"
  by (induction a) auto

lemma linkKey_root:
  assumes "k \<in> {''link-down'', ''link-up''}"
    and "\<forall>c \<in> set a \<union> set b. \<not> is_space c" and "CHR ''-'' \<notin> set a"
  shows "linkKey (''netlink/'' @ k @ '' '' @ a @ ''-'' @ b) = (if b < a then b @ ''--'' @ a else a @ ''--'' @ b)"
proof -
  have idx: "index_str (''netlink/'' @ k @ x) ''link-'' = Some 8" for x
    using assms(1) by (auto simp: index_str.simps has_prefix_def)
  have "\<not> is_space (CHR ''-'')" by (simp add: is_space_def)
  with assms(2) have word: "fields_acc [] (a @ ''-'' @ b) = [a @ ''-'' @ b]"
    by (intro fields_word_end) auto
  have "fields_acc [] (k @ '' '' @ x) = k # fields_acc [] x" for x
    using assms(1) fields_acc_word [of k "[]" "'' '' @ x"] by (auto simp: is_space_def)
  then have "str_fields (k @ '' '' @ a @ ''-'' @ b) = [k, a @ ''-'' @ b]"
    using word by (simp add: str_fields_def)
  moreover have "split_n2 CHR ''-'' (a @ ''-'' @ b) = [a, b]"
    using index_byte_first [OF assms(3), of b] by (simp add: split_n2_def)
  ultimately show ?thesis
    unfolding linkKey_def idx by (auto simp: Let_def)
qed

text \<open>
  The two ends of a link agree on it: when the interfaces of two nodes are named after both ends,
  by names without a dash, the traces their link events open carry the same link, whichever end
  and whichever direction of the event.
\<close>

theorem link_ends_agree:
  assumes "ev_bus e = ''netlink''" and "ev_kind e \<in> {''link-down'', ''link-up''}" and "ev_root e"
    and "ev_bus e' = ''netlink''" and "ev_kind e' \<in> {''link-down'', ''link-up''}" and "ev_root e'"
    and "ev_key e = a @ ''-'' @ b" and "ev_key e' = b @ ''-'' @ a"
    and "\<forall>c \<in> set a \<union> set b. \<not> is_space c \<and> c \<noteq> CHR ''-''"
  shows "linkKey (a_root (open_acc e)) = min a b @ ''--'' @ max a b \<and>
    linkKey (a_root (open_acc e')) = linkKey (a_root (open_acc e))"
proof -
  have roots: "a_root (open_acc e) = ''netlink/'' @ ev_kind e @ '' '' @ a @ ''-'' @ b"
    "a_root (open_acc e') = ''netlink/'' @ ev_kind e' @ '' '' @ b @ ''-'' @ a"
    using assms(1, 3, 4, 6, 7, 8) by (simp_all add: open_acc_def)
  have "CHR ''-'' \<notin> set a" "CHR ''-'' \<notin> set b" "\<forall>c \<in> set a \<union> set b. \<not> is_space c" "\<forall>c \<in> set b \<union> set a. \<not> is_space c"
    using assms(9) by auto
  then show ?thesis
    unfolding roots by (simp add: linkKey_root [OF assms(2)] linkKey_root [OF assms(5)] min_def max_def
        del: append_Cons append_Nil) (cases a b rule: linorder_cases; auto dest: less_imp_le leD)
qed

theorem link_ends_agree_witness:
  "linkKey (a_root (open_acc \<lparr>ev_bus = ''netlink'', ev_kind = ''link-down'', ev_key = ''pe1'' @ ''-'' @ ''p1'',
      ev_detail = [], ev_root = True, ev_ts = 0\<rparr>)) = min ''pe1'' ''p1'' @ ''--'' @ max ''pe1'' ''p1'' \<and>
   linkKey (a_root (open_acc \<lparr>ev_bus = ''netlink'', ev_kind = ''link-up'', ev_key = ''p1'' @ ''-'' @ ''pe1'',
      ev_detail = [], ev_root = True, ev_ts = 0\<rparr>)) =
   linkKey (a_root (open_acc \<lparr>ev_bus = ''netlink'', ev_kind = ''link-down'', ev_key = ''pe1'' @ ''-'' @ ''p1'',
      ev_detail = [], ev_root = True, ev_ts = 0\<rparr>))"
  by (rule link_ends_agree) (simp_all add: is_space_def)

text \<open>With a dash in a name they do not: the key splits at the first one.\<close>

lemma dashed_ends_differ:
  "linkKey ''netlink/link-down pe-1-p1'' = ''1-p1--pe'' \<and> linkKey ''netlink/link-down p1-pe-1'' = ''p1--pe-1''"
  by code_simp

end
