(* ===== verification/Distributed.thy ===== *)
theory Distributed
  imports Shim Aggregator
begin

text \<open>
  The trace aggregator over running shims: the HTTP endpoints of a shim
  (\<^verbatim>\<open>cmd/frr-visible/main.go\<close>), the aggregator's client for them
  (\<^verbatim>\<open>fetch\<close>), what a distributed trace then says of the nodes, and what the lineage page
  says of the planes.
  JSON text is a parameter on both sides.
\<close>

section \<open>The endpoints\<close>

text \<open>
  The mux of the shim: \<open>enc_traces\<close> and \<open>enc_rows\<close> are the JSON of the traces and of the
  lineage rows, \<open>xs\<close> the order in which the snapshot iterates the routes.
\<close>

definition trace_http ::
  "(trace list \<Rightarrow> string) \<Rightarrow> (row list \<Rightarrow> string) \<Rightarrow> (string \<times> entry) list \<Rightarrow> shim \<Rightarrow> string \<Rightarrow> string" where
  "trace_http enc_traces enc_rows xs h path =
     (if path = ''/traces'' then enc_traces (ServeHTTP (s_cor h))
      else if path = ''/lineage'' then enc_rows (Snapshot xs)
      else ''404 page not found'' @ [CHR 0x0A])"

text \<open>
  The aggregator's \<^verbatim>\<open>fetch\<close>: no answer is no traces; the status is not looked at, and the
  traces are what decoding the body gives, its error ignored.
\<close>

definition agg_fetch :: "(string \<Rightarrow> string option) \<Rightarrow> (string \<Rightarrow> trace list) \<Rightarrow> string \<Rightarrow> trace list" where
  "agg_fetch http dec_traces url = (case http url of None \<Rightarrow> [] | Some body \<Rightarrow> dec_traces body)"

definition traces_url :: "string \<Rightarrow> string" where
  "traces_url a = ''http://'' @ a @ ''/traces''"

section \<open>What a distributed trace says\<close>

text \<open>The span of an event, as \<^verbatim>\<open>merge\<close> lists it: the event, on its node.\<close>

definition shows_event :: "dspan \<Rightarrow> string \<Rightarrow> event \<Rightarrow> bool" where
  "shows_event sp node e \<longleftrightarrow>
     ds_node sp = node \<and> ds_bus sp = ev_bus e \<and> ds_kind sp = ev_kind e \<and> ds_key sp = ev_key e \<and> ds_detail sp = ev_detail e"

lemma run_trace_events:
  assumes "node_run (node_start target t0 fl bl su) ls s" and "t \<in> set (c_log (s_cor (nd_shim s)))" and "sp \<in> set (tr_spans t)"
  shows "tr_node t = target \<and> (\<exists>e \<in> set (emitted ls). sp_bus sp = ev_bus e \<and> sp_kind sp = ev_kind e \<and> sp_key sp = ev_key e \<and>
    sp_detail sp = ev_detail e)"
proof -
  from logged_accs [OF assms(1)] obtain accs where
    accs: "c_log (s_cor (nd_shim s)) = traces_of target accs"
    and sub: "subseq (concat (map a_events accs) @ active_events (nd_active s) @ c_ch (s_cor (nd_shim s))) (emitted ls)"
    by blast
  from assms(2) obtain i where i: "i < length accs" "t = mk_trace target (i + 1) (accs ! i)"
    by (auto simp: accs traces_of_def)
  from assms(3) obtain e where e: "e \<in> set (a_events (accs ! i))" "sp = mk_span (a_start (accs ! i)) e"
    by (auto simp: i(2) mk_trace_def)
  have "e \<in> set (concat (map a_events accs) @ active_events (nd_active s) @ c_ch (s_cor (nd_shim s)))"
    using e(1) i(1) by auto
  from list_emb_set [OF sub this] have "e \<in> set (emitted ls)" by blast
  with e(2) i(2) show ?thesis by (auto simp: mk_span_def mk_trace_def)
qed

lemma served_traces: "t \<in> set (ServeHTTP (s_cor (nd_shim s))) \<Longrightarrow> node_run (node_start target t0 fl bl su) ls s \<Longrightarrow>
  t \<in> set (c_log (s_cor (nd_shim s)))"
  using run_ring by (metis in_set_dropD)

lemma span_of_trace:
  assumes "sp \<in> set (spans_of t)"
  shows "ds_node sp = tr_node t \<and> (\<exists>x \<in> set (tr_spans t). ds_bus sp = sp_bus x \<and> ds_kind sp = sp_kind x \<and>
    ds_key sp = sp_key x \<and> ds_detail sp = sp_detail x)"
  using assms by (auto simp: spans_of_def)

lemma built_span:
  assumes "mset (or_traces ord (all_traces fetch nodes)) = mset (all_traces fetch nodes)"
    and "\<And>xs. mset (or_spans ord xs) = mset xs"
    and "dt \<in> set (build ord w fetch nodes)" and "sp \<in> set (dt_spans dt)"
  shows "\<exists>t \<in> set (all_traces fetch nodes). sp\<lparr>ds_off := 0\<rparr> \<in> set (spans_of t)"
proof -
  have "sp\<lparr>ds_off := 0\<rparr> \<in> set (map (\<lambda>s. s\<lparr>ds_off := 0\<rparr>) (concat (map dt_spans (build ord w fetch nodes))))"
    using assms(3, 4) by auto
  with mset_eq_setD [OF build_mset [OF assms(1, 2)]]
  have "sp\<lparr>ds_off := 0\<rparr> \<in> set (concat (map spans_of (all_traces fetch nodes)))" by blast
  then show ?thesis by auto
qed

text \<open>
  C5. Every span of a distributed trace happened on its node: over running shims, in whatever states,
  whose traces survive JSON, each span the aggregator shows is an event, with its bus, kind, key
  and detail, that a goroutine of one of those shims emitted, and it is attributed to that
  shim's node (its target name, or the inventory's name when it has none).
\<close>

theorem distributed_spans_happened:
  assumes "\<forall>x \<in> set nodes. node_run (node_start (target (fst x)) began fl bl su) (ls (fst x)) (s (fst x))"
    and "\<forall>x \<in> set nodes. http (traces_url (trace_addr (snd x))) =
      Some (trace_http enc enc_rows xs (nd_shim (s (fst x))) ''/traces'')"
    and "\<forall>x \<in> set nodes. decode (enc (ServeHTTP (s_cor (nd_shim (s (fst x)))))) = ServeHTTP (s_cor (nd_shim (s (fst x))))"
    and "fetch = (\<lambda>a. agg_fetch http decode (traces_url a))"
    and "mset (or_traces ord (all_traces fetch nodes)) = mset (all_traces fetch nodes)" and "\<And>xs. mset (or_spans ord xs) = mset xs"
    and "dt \<in> set (build ord w fetch nodes)" and "sp \<in> set (dt_spans dt)"
  shows "\<exists>x \<in> set nodes. \<exists>e \<in> set (emitted (ls (fst x))).
    shows_event sp (if target (fst x) = [] then fst x else target (fst x)) e"
proof -
  from built_span [OF assms(5-8)] obtain t where t: "t \<in> set (all_traces fetch nodes)" "sp\<lparr>ds_off := 0\<rparr> \<in> set (spans_of t)" by blast
  from t(1) obtain x t' where x: "x \<in> set nodes" "t' \<in> set (fetch (trace_addr (snd x)))"
    and t': "t = (if tr_node t' = [] then t'\<lparr>tr_node := fst x\<rparr> else t')"
    by (auto simp: all_traces_def)
  have "fetch (trace_addr (snd x)) = ServeHTTP (s_cor (nd_shim (s (fst x))))"
    using assms(2, 3) x(1) by (simp add: assms(4) agg_fetch_def trace_http_def)
  with x(2) have "t' \<in> set (ServeHTTP (s_cor (nd_shim (s (fst x)))))" by simp
  moreover have run: "node_run (node_start (target (fst x)) began fl bl su) (ls (fst x)) (s (fst x))" using assms(1) x(1) by blast
  ultimately have logged: "t' \<in> set (c_log (s_cor (nd_shim (s (fst x)))))" by (rule served_traces)
  from span_of_trace [OF t(2)] obtain y where y: "y \<in> set (tr_spans t)" "ds_node sp = tr_node t" "ds_bus sp = sp_bus y"
    "ds_kind sp = sp_kind y" "ds_key sp = sp_key y" "ds_detail sp = sp_detail y" by auto
  from y(1) have "y \<in> set (tr_spans t')" by (simp add: t' split: if_splits)
  from run_trace_events [OF run logged this] obtain e where "e \<in> set (emitted (ls (fst x)))" "tr_node t' = target (fst x)"
    "sp_bus y = ev_bus e" "sp_kind y = ev_kind e" "sp_key y = ev_key e" "sp_detail y = ev_detail e" by blast
  with x(1) y show ?thesis by (auto simp: shows_event_def t')
qed

section \<open>Witness\<close>

text \<open>A shim whose link goes down: the event is emitted, collected and, when nothing follows, logged.\<close>

definition ds_effect :: effect where
  "ds_effect = EmitEvent ''netlink'' ''link-down'' ''pe1-p1'' ''link removed'' True"

definition ds_event :: event where
  "ds_event = \<lparr>ev_bus = ''netlink'', ev_kind = ''link-down'', ev_key = ''pe1-p1'', ev_detail = ''link removed'',
     ev_root = True, ev_ts = 0\<rparr>"

definition ds_acc :: acc where
  "ds_acc = \<lparr>a_start = 0, a_last = 0, a_root = ''netlink/link-down pe1-p1'', a_churn = False, a_events = [ds_event]\<rparr>"

lemma ds_collect:
  "on_event ((correlate_New ''frr''), None) ds_event 0 = (correlate_New ''frr'', Some ds_acc)"
  "on_tick (correlate_New ''frr'', Some ds_acc) (4 * second) =
     ((correlate_New ''frr'')\<lparr>c_seq := 1, c_log := [mk_trace ''frr'' 1 ds_acc], c_ring := [mk_trace ''frr'' 1 ds_acc]\<rparr>, None)"
  by (simp_all add: on_event_def on_tick_def open_acc_def add_event_def ds_event_def ds_acc_def flush_def correlate_New_def
      time_sub_small second_def Let_def)

lemma ds_run:
  "\<exists>ls s. node_run demo_node ls s \<and> ServeHTTP (s_cor (nd_shim s)) = [mk_trace ''frr'' 1 ds_acc]"
proof -
  let ?u = "(17, \<lparr>lk_name = ''pe1-p1'', lk_flags = 0, lk_oper = OperDown, lk_type = ''veth'', lk_index = 1, lk_mtu = 1500, lk_stats = None\<rparr>)"
  let ?es = "[CacheUpdate ''openconfig'' [] [path_of (ifaceElems ''pe1-p1'' [])], ds_effect]"
  let ?s1 = "batch GLink ?es demo_node"
  let ?s2 = "batch GLink [] (on_shim (\<lambda>h. apply_effects 0 h ?es) ?s1)"
  have es: "link_event netlink_wired ?u = ?es"
    by (simp add: link_event_def netlink_wired_def emit_if_def ds_effect_def Let_def)
  have idle: "idle demo_node GLink" by (simp add: idle_def node_start_def start_on_def demo_startup_def)
  have "node_step demo_node Tau ?s1"
    using by_kernel [OF k_link [OF idle, of ?u]] unfolding es .
  from run_snoc [OF run_nil this] have "node_run demo_node ([] @ [Tau]) ?s1" .
  moreover have "node_run ?s1 (map (Did GLink 0) ?es) ?s2"
    by (rule perform_all) (simp_all add: node_start_def)
  ultimately have run2: "node_run demo_node (([] @ [Tau]) @ map (Did GLink 0) ?es) ?s2" by (rule run_append [rotated])
  have cor: "s_cor (nd_shim ?s2) = (correlate_New ''frr'')\<lparr>c_ch := [ds_event]\<rparr>"
    by (simp add: ds_effect_def node_start_def shim_start_def Run_start_def shim_emit_def Emit_def correlate_New_def
        nb_send_def chan_cap_def ds_event_def)
  let ?s3 = "on_shim (\<lambda>h. h\<lparr>s_cor := correlate_New ''frr''\<rparr>) (?s2\<lparr>nd_active := Some ds_acc\<rparr>)"
  have "take_event (s_cor (nd_shim ?s2)) = Some (ds_event, correlate_New ''frr'')"
    unfolding cor by (simp add: take_event_def correlate_New_def)
  moreover have "on_event (correlate_New ''frr'', nd_active ?s2) ds_event 0 = (correlate_New ''frr'', Some ds_acc)"
    using ds_collect(1) by (simp add: node_start_def)
  moreover have "nd_up ?s2" by (simp add: node_start_def)
  ultimately have "node_step ?s2 (Folded (Recv ds_event 0)) ?s3" by (intro by_core c_recv)
  note run3 = run_snoc [OF run2 this]
  let ?c = "(correlate_New ''frr'')\<lparr>c_seq := 1, c_log := [mk_trace ''frr'' 1 ds_acc], c_ring := [mk_trace ''frr'' 1 ds_acc]\<rparr>"
  have "on_tick (s_cor (nd_shim ?s3), nd_active ?s3) (4 * second) = (?c, None)"
    using ds_collect(2) by simp
  moreover have "nd_up ?s3" by (simp add: node_start_def)
  ultimately have "node_step ?s3 (Folded (Ticked (4 * second))) (on_shim (\<lambda>h. h\<lparr>s_cor := ?c\<rparr>) (?s3\<lparr>nd_active := None\<rparr>))"
    by (intro by_core c_tick)
  note run4 = run_snoc [OF run3 this]
  have "ServeHTTP (s_cor (nd_shim (on_shim (\<lambda>h. h\<lparr>s_cor := ?c\<rparr>) (?s3\<lparr>nd_active := None\<rparr>)))) = [mk_trace ''frr'' 1 ds_acc]"
    by (simp add: ServeHTTP_def)
  with run4 show ?thesis by (intro exI conjI)
qed

theorem distributed_spans_happened_witness:
  "\<exists>ls s dt sp. node_run demo_node ls s \<and>
     dt \<in> set (build ex_ord second (\<lambda>a. agg_fetch (\<lambda>_. Some ''x'') (\<lambda>_. ServeHTTP (s_cor (nd_shim s))) (traces_url a)) [(''pe1'', ''10.0.0.1'')]) \<and>
     sp \<in> set (dt_spans dt) \<and> (\<exists>e \<in> set (emitted ls). shows_event sp ''frr'' e)"
proof -
  obtain ls s where run: "node_run demo_node ls s" and ring: "ServeHTTP (s_cor (nd_shim s)) = [mk_trace ''frr'' 1 ds_acc]"
    using ds_run by blast
  let ?nodes = "[(''pe1'', ''10.0.0.1'')]"
  let ?decode = "\<lambda>_. ServeHTTP (s_cor (nd_shim s))"
  let ?fetch = "\<lambda>a. agg_fetch (\<lambda>_. Some ''x'') ?decode (traces_url a)"
  have traces: "all_traces ?fetch ?nodes = [mk_trace ''frr'' 1 ds_acc]"
    by (simp add: all_traces_def agg_fetch_def ring mk_trace_def)
  have built: "build ex_ord second ?fetch ?nodes = [merge (sort_key ds_abs) [] 1 [mk_trace ''frr'' 1 ds_acc]]"
    unfolding build_def traces by (simp add: ex_ord_def group_traces_def add_group_def merge_groups_def)
  let ?dt = "merge (sort_key ds_abs) [] 1 [mk_trace ''frr'' 1 ds_acc]"
  have dt: "?dt \<in> set (build ex_ord second ?fetch ?nodes)" unfolding built by simp
  have "dt_spans ?dt \<noteq> []" by (simp add: merge_def Let_def spans_of_def mk_trace_def ds_acc_def)
  then obtain sp where sp: "sp \<in> set (dt_spans ?dt)" by (cases "dt_spans ?dt") auto
  have "\<exists>x \<in> set ?nodes. \<exists>e \<in> set (emitted ls). shows_event sp (if ''frr'' = [] then fst x else ''frr'') e"
    by (rule distributed_spans_happened [where target = "\<lambda>_. ''frr''" and ls = "\<lambda>_. ls" and s = "\<lambda>_. s" and enc = "\<lambda>_. ''x''"
        and xs = "[]" and enc_rows = "\<lambda>_. []" and began = 0 and fl = "Some []" and bl = "Some []" and su = demo_startup,
        OF _ _ _ refl _ _ dt sp])
      (simp_all add: run trace_http_def ex_ord_def)
  then have "\<exists>e \<in> set (emitted ls). shows_event sp ''frr'' e" by simp
  with run dt sp show ?thesis by blast
qed

section \<open>The lineage page\<close>

text \<open>The row of a prefix, from the last word of each stage's plane on it.\<close>

definition plane_at :: "stage \<Rightarrow> plane" where
  "plane_at st = (case st of RibIn \<Rightarrow> PBmp | Fpm \<Rightarrow> PFpm | Kernel \<Rightarrow> PNetlink | NStages \<Rightarrow> PLineage)"

definition said :: "label list \<Rightarrow> string \<Rightarrow> stage \<Rightarrow> (time \<times> string) option" where
  "said ls p st = latest (rev (obs_of (plane_at st) ls)) p st"

definition stage_text :: "(stage \<Rightarrow> (time \<times> string) option) \<Rightarrow> stage \<Rightarrow> (string \<times> string) list" where
  "stage_text w st = (case w st of None \<Rightarrow> [] | Some (now, d) \<Rightarrow> [(StageName st, if d = [] then ''yes'' else d)])"

definition page_row :: "(stage \<Rightarrow> (time \<times> string) option) \<Rightarrow> string \<Rightarrow> row" where
  "page_row w p =
     \<lparr>r_prefix = p, r_stages = concat (map (stage_text w) [RibIn, Fpm, Kernel]),
      r_gap =
        (case (w Fpm, w Kernel) of
           (Some _, None) \<Rightarrow> ''install-gap''
         | (None, Some (now, d)) \<Rightarrow> if protoOf d = ''zebra'' then ''orphan-kernel'' else []
         | _ \<Rightarrow> [])\<rparr>"

lemma snapshot_page_row:
  assumes "t_inv t" and "t_routes t p = Some e"
  shows "snapshot_row e = page_row (\<lambda>st. t_abs t (p, st)) p"
  using assms
  by (cases "e_present e RibIn"; cases "e_present e Fpm"; cases "e_present e Kernel")
    (auto simp: t_inv_def t_abs_def snapshot_row_def page_row_def stage_text_def)

lemma page_row_cong:
  assumes "w RibIn = w' RibIn" and "w Fpm = w' Fpm" and "w Kernel = w' Kernel"
  shows "page_row w p = page_row w' p"
  using assms by (simp add: page_row_def stage_text_def)

lemma tracked_iff:
  assumes "t_inv t"
  shows "t_routes t p \<noteq> None \<longleftrightarrow> t_abs t (p, RibIn) \<noteq> None \<or> t_abs t (p, Fpm) \<noteq> None \<or> t_abs t (p, Kernel) \<noteq> None"
  using assms by (auto simp: t_abs_def t_inv_def any_stage split: option.splits)

lemma shim_tracker:
  assumes "node_run (node_start target t0 fl bl su) ls s"
  shows "t_inv (s_lin (nd_shim s))" and "p \<noteq> [] \<Longrightarrow> st \<noteq> NStages \<Longrightarrow> t_abs (s_lin (nd_shim s)) (p, st) = said ls p st"
proof -
  from run_lin [OF assms] have run: "s_lin (nd_shim s) = foldl lin_step (lineage_New (3 * second) True) (lin_ops ls)"
    and adm: "admissible lin_step lin_ok (lineage_New (3 * second) True) (lin_ops ls)" by simp_all
  show "t_inv (s_lin (nd_shim s))" unfolding run by (rule lin.inv_run [OF t_inv_New adm])
  show "t_abs (s_lin (nd_shim s)) (p, st) = said ls p st" if "p \<noteq> []" "st \<noteq> NStages"
  proof -
    have "stage_of (plane_at st) = Some st" using that(2) by (cases st) (simp_all add: stage_of_def plane_at_def)
    from latest_own_plane [OF assms this] t_abs_run [OF adm that] show ?thesis by (simp add: said_def run)
  qed
qed

text \<open>
  C6. The lineage page of a running shim is true: it has one row for each prefix some plane's
  goroutines last spoke of as present, and no other, and the row shows for each stage the last
  word of that stage's own plane, with an install gap exactly where zebra's last word is there
  and the kernel's is not, and an orphan where the kernel names zebra and zebra said nothing.
\<close>

theorem lineage_page_true:
  assumes "node_run (node_start target t0 fl bl su) ls s" and "enumerates xs (t_routes (s_lin (nd_shim s)))"
  shows "\<exists>ps. trace_http enc_traces enc_rows xs (nd_shim s) ''/lineage'' = enc_rows (map (\<lambda>p. page_row (said ls p) p) ps) \<and>
    distinct ps \<and> set ps = {p. p \<noteq> [] \<and> (said ls p RibIn \<noteq> None \<or> said ls p Fpm \<noteq> None \<or> said ls p Kernel \<noteq> None)}"
proof -
  let ?t = "s_lin (nd_shim s)"
  note inv = shim_tracker(1) [OF assms(1)] and abs = shim_tracker(2) [OF assms(1)]
  have mem: "(p, e) \<in> set xs \<longleftrightarrow> t_routes ?t p = Some e" for p e using enumerates_lookup [OF assms(2)] by simp
  have row: "snapshot_row e = page_row (said ls p) p" if pe: "(p, e) \<in> set xs" for p e
  proof -
    from pe have e: "t_routes ?t p = Some e" unfolding mem .
    with inv have "p \<noteq> []" unfolding t_inv_def by blast
    from abs [OF this] have "page_row (\<lambda>st. t_abs ?t (p, st)) p = page_row (said ls p) p" by (intro page_row_cong) simp_all
    with snapshot_page_row [OF inv e] show ?thesis by simp
  qed
  have "Snapshot xs = map (\<lambda>p. page_row (said ls p) p) (map fst xs)" using row by (auto simp: Snapshot_def)
  moreover have "distinct (map fst xs)" using assms(2) by (rule enumerates_distinct)
  moreover have "p \<in> set (map fst xs) \<longleftrightarrow>
      p \<noteq> [] \<and> (said ls p RibIn \<noteq> None \<or> said ls p Fpm \<noteq> None \<or> said ls p Kernel \<noteq> None)" for p
  proof (cases "p = []")
    case True
    with inv mem show ?thesis unfolding t_inv_def by force
  next
    case False
    have "p \<in> set (map fst xs) \<longleftrightarrow> t_routes ?t p \<noteq> None" using mem by force
    also have "\<dots> \<longleftrightarrow> t_abs ?t (p, RibIn) \<noteq> None \<or> t_abs ?t (p, Fpm) \<noteq> None \<or> t_abs ?t (p, Kernel) \<noteq> None"
      by (rule tracked_iff [OF inv])
    finally show ?thesis using False by (simp add: abs)
  qed
  then have "set (map fst xs) = {p. p \<noteq> [] \<and> (said ls p RibIn \<noteq> None \<or> said ls p Fpm \<noteq> None \<or> said ls p Kernel \<noteq> None)}"
    by blast
  ultimately show ?thesis by (intro exI [of _ "map fst xs"]) (simp add: trace_http_def)
qed

text \<open>A run in which the kernel reports its default route.\<close>

theorem lineage_page_true_witness:
  "\<exists>ls s xs ps. node_run demo_node ls s \<and> enumerates xs (t_routes (s_lin (nd_shim s))) \<and> ''0.0.0.0/0'' \<in> set ps \<and>
     trace_http (\<lambda>_. []) (\<lambda>rows. concat (map r_prefix rows)) xs (nd_shim s) ''/lineage'' =
       concat (map r_prefix (map (\<lambda>p. page_row (said ls p) p) ps))"
proof -
  let ?es = "route_event netlink_wired (demo_kroute 24 254)"
  have pfx: "routePrefix (ru_route (demo_kroute 24 254)) = ''0.0.0.0/0''" by (simp add: demo_kroute_def routePrefix_def)
  let ?ls = "RouteRead (demo_kroute 24 254) # map (Did GRoute 0) ?es"
  obtain s where run: "node_run demo_node ?ls s" using kernel_reports by blast
  have "said ?ls ''0.0.0.0/0'' Kernel \<noteq> None"
    by (simp add: said_def plane_at_def obs_of_def route_event_def pfx Let_def netlink_wired_def emit_if_def observe_if_def)
      (simp add: demo_kroute_def)
  moreover have "finite (dom (t_routes (s_lin (nd_shim s))))" using shim_tracker(1) [OF run] unfolding t_inv_def by blast
  from enumerable [OF this] obtain xs where xs: "enumerates xs (t_routes (s_lin (nd_shim s)))" by blast
  moreover from lineage_page_true [OF run xs, of "\<lambda>_. []" "\<lambda>rows. concat (map r_prefix rows)"] obtain ps where
    "trace_http (\<lambda>_. []) (\<lambda>rows. concat (map r_prefix rows)) xs (nd_shim s) ''/lineage'' =
       concat (map r_prefix (map (\<lambda>p. page_row (said ?ls p) p) ps))"
    "set ps = {p. p \<noteq> [] \<and> (said ?ls p RibIn \<noteq> None \<or> said ?ls p Fpm \<noteq> None \<or> said ?ls p Kernel \<noteq> None)}" by blast
  ultimately show ?thesis using run by blast
qed

end
