(* ===== verification/Exposition.thy ===== *)
theory Exposition
  imports Pathtrace Topology
begin

text \<open>
  The text the two exporters serve under \<^verbatim>\<open>/metrics\<close>: Go's quoting (\<^verbatim>\<open>%q\<close>), the
  lines of a refresh, and a reader of Prometheus's text format, against which the text is
  proved to say what the refresh found.
\<close>

section \<open>Quoting\<close>

text \<open>
  \<^verbatim>\<open>strconv.Quote\<close> between its quotation marks.  Of the runes beyond ASCII the program's own
  ellipsis is printable and stays as it is; \<open>wide\<close> is the rendering of any other that the text
  begins with, and the number of its bytes after the first.
\<close>

definition short_escape :: "nat \<Rightarrow> string option" where
  "short_escape n =
     map_of [(7, ''a''), (8, ''b''), (9, ''t''), (10, ''n''), (11, ''v''), (12, ''f''), (13, ''r'')] n"

fun quote_body :: "(string \<Rightarrow> string \<times> nat) \<Rightarrow> string \<Rightarrow> string" where
  "quote_body wide [] = []"
| "quote_body wide (c # s) =
     (let n = of_char c :: nat in
      if c = CHR 0x22 \<or> c = CHR 0x5C then CHR 0x5C # c # quote_body wide s
      else if 32 \<le> n \<and> n \<le> 126 then c # quote_body wide s
      else case short_escape n of
        Some e \<Rightarrow> CHR 0x5C # e @ quote_body wide s
      | None \<Rightarrow>
          if n < 32 \<or> n = 127 then CHR 0x5C # CHR ''x'' # hex2 (of_nat n) @ quote_body wide s
          else if has_prefix (c # s) ellipsis then ellipsis @ quote_body wide (drop 2 s)
          else let (t, k) = wide (c # s) in t @ quote_body wide (drop k s))"

definition go_quote :: "(string \<Rightarrow> string \<times> nat) \<Rightarrow> string \<Rightarrow> string" where
  "go_quote wide s = CHR 0x22 # quote_body wide s @ [CHR 0x22]"

section \<open>Lines\<close>

text \<open>A line: a comment (\<^verbatim>\<open># HELP\<close>, \<^verbatim>\<open># TYPE\<close>) or a sample with its value as text.\<close>

datatype metric_line =
    Comment string
  | Sample string "(string \<times> string) list" string

definition label_text :: "(string \<Rightarrow> string \<times> nat) \<Rightarrow> string \<times> string \<Rightarrow> string" where
  "label_text wide kv = fst kv @ CHR ''='' # go_quote wide (snd kv)"

fun line_text :: "(string \<Rightarrow> string \<times> nat) \<Rightarrow> metric_line \<Rightarrow> string" where
  "line_text wide (Comment s) = ''# '' @ s"
| "line_text wide (Sample n [] v) = n @ '' '' @ v"
| "line_text wide (Sample n (kv # kvs) v) =
     n @ ''{'' @ join_with '','' (map (label_text wide) (kv # kvs)) @ ''} '' @ v"

definition newline :: char where
  "newline = CHR 0x0A"

definition expose :: "(string \<Rightarrow> string \<times> nat) \<Rightarrow> metric_line list \<Rightarrow> string" where
  "expose wide ls = concat (map (\<lambda>l. line_text wide l @ [newline]) ls)"

text \<open>The path tracer's refresh; \<open>dur\<close> is the \<^verbatim>\<open>%g\<close> of the time the trace of a flow took.\<close>

definition hop_line :: "flow \<Rightarrow> thop \<Rightarrow> metric_line" where
  "hop_line f h =
     Sample ''frr_pathtrace_hop_info''
       [(''flow'', fl_name f), (''seq'', dec02 (th_seq h)), (''node'', th_node h), (''kind'', th_kind h),
        (''nexthop'', th_nexthop h), (''labels'', th_label h), (''detail'', th_detail h)] ''1''"

definition flow_lines :: "flow \<Rightarrow> thop list \<times> bool \<Rightarrow> string \<Rightarrow> metric_line list" where
  "flow_lines f r dur =
     (let (hops, reached) = r;
          lbl = [(''flow'', fl_name f), (''src'', fl_start f), (''dst'', fl_dst f)] in
      Sample ''frr_pathtrace_reachable'' lbl (if reached then ''1'' else ''0'') #
      Sample ''frr_pathtrace_hops'' lbl (dec (length hops)) #
      Sample ''frr_pathtrace_duration_seconds'' lbl dur #
      map (hop_line f) hops)"

definition path_text ::
  "(string \<Rightarrow> string \<times> nat) \<Rightarrow> (flow \<times> (thop list \<times> bool) \<times> string) list \<Rightarrow> string" where
  "path_text wide rs = expose wide (
     [Comment ''HELP frr_pathtrace_reachable 1 if the destination was reached by the control-plane path walk'',
      Comment ''TYPE frr_pathtrace_reachable gauge'',
      Comment ''HELP frr_pathtrace_hops number of hops walked'', Comment ''TYPE frr_pathtrace_hops gauge'',
      Comment ''HELP frr_pathtrace_duration_seconds wall time of the trace'',
      Comment ''TYPE frr_pathtrace_duration_seconds gauge'',
      Comment ''HELP frr_pathtrace_hop_info one series per hop (value always 1)'',
      Comment ''TYPE frr_pathtrace_hop_info gauge''] @
     concat (map (\<lambda>(f, r, dur). flow_lines f r dur) rs) @
     [Comment ''HELP frr_pathtrace_up 1 if the last refresh completed'', Comment ''TYPE frr_pathtrace_up gauge'',
      Sample ''frr_pathtrace_up'' [] ''1''])"

text \<open>The topology's.\<close>

definition node_line :: "string \<times> string \<times> string \<times> string \<Rightarrow> metric_line" where
  "node_line r =
     (case r of (layer, n, t, ro) \<Rightarrow>
        Sample ''frr_topo_node'' [(''layer'', layer), (''id'', n), (''title'', t), (''role'', ro)] ''1'')"

definition edge_line :: "string \<times> string \<times> string \<times> string \<times> string \<Rightarrow> metric_line" where
  "edge_line r =
     (case r of (layer, i, src, dst, detail) \<Rightarrow>
        Sample ''frr_topo_edge''
          [(''layer'', layer), (''id'', i), (''source'', src), (''target'', dst), (''detail'', detail)] ''1'')"

definition topo_text :: "(string \<Rightarrow> string \<times> nat) \<Rightarrow> (string \<times> edge) list \<Rightarrow> string" where
  "topo_text wide es = expose wide (
     [Comment ''HELP frr_topo_node A node in the topology (per layer).'', Comment ''TYPE frr_topo_node gauge''] @
     map node_line (node_rows es) @
     [Comment ''HELP frr_topo_edge An adjacency/session between two nodes (per layer).'',
      Comment ''TYPE frr_topo_edge gauge''] @
     map edge_line (edge_rows es) @
     [Comment ''HELP frr_topo_up 1 if the last refresh completed.'', Comment ''TYPE frr_topo_up gauge'',
      Sample ''frr_topo_up'' [] ''1''])"

section \<open>The reader\<close>

text \<open>
  Prometheus's text format: a label value ends at a quotation mark that no backslash precedes;
  a backslash stands before a backslash, a quotation mark or an n for a line feed, and is
  itself otherwise.
\<close>

fun read_value :: "string \<Rightarrow> (string \<times> string) option" where
  "read_value [] = None"
| "read_value (c # s) =
     (if c = CHR 0x22 then Some ([], s)
      else if c = CHR 0x5C then
        (case s of
           [] \<Rightarrow> None
         | d # t \<Rightarrow>
             map_option (\<lambda>(v, r).
               ((if d = CHR ''n'' then [newline] else if d = CHR 0x22 \<or> d = CHR 0x5C then [d] else [c, d]) @ v, r))
               (read_value t))
      else map_option (\<lambda>(v, r). (c # v, r)) (read_value s))"

lemma read_value_shorter: "read_value s = Some (v, r) \<Longrightarrow> length r < length s"
  by (induction s arbitrary: v r rule: read_value.induct) (fastforce split: if_splits list.splits)+

definition name_end :: "char \<Rightarrow> bool" where
  "name_end c \<longleftrightarrow> c \<in> {CHR ''{'', CHR ''='', CHR '' ''}"

lemma read_labels_shorter:
  assumes "dropWhile P s = a # b # t" and "read_value t = Some (v, c # r)"
  shows "length r < length s"
  using read_value_shorter [OF assms(2)] length_dropWhile_le [of P s] by (simp add: assms(1))

function read_labels :: "string \<Rightarrow> ((string \<times> string) list \<times> string) option" where
  "read_labels s =
     (let k = takeWhile (\<lambda>c. \<not> name_end c) s in
      case dropWhile (\<lambda>c. \<not> name_end c) s of
        a # b # t \<Rightarrow>
          if a = CHR ''='' \<and> b = CHR 0x22 then
            (case read_value t of
               None \<Rightarrow> None
             | Some (v, []) \<Rightarrow> None
             | Some (v, c # r) \<Rightarrow>
                 if c = CHR '','' then map_option (\<lambda>(kvs, r'). ((k, v) # kvs, r')) (read_labels r)
                 else if c = CHR ''}'' then Some ([(k, v)], r)
                 else None)
          else None
      | _ \<Rightarrow> None)"
  by auto
termination by (relation "measure length") (auto intro: read_labels_shorter)

declare read_labels.simps [simp del]

definition read_line :: "string \<Rightarrow> metric_line option" where
  "read_line s =
     (let n = takeWhile (\<lambda>c. \<not> name_end c) s in
      case dropWhile (\<lambda>c. \<not> name_end c) s of
        c # t \<Rightarrow>
          if c = CHR '' '' then Some (Sample n [] t)
          else if c = CHR ''{'' then
            (case read_labels t of
               Some (kvs, d # v) \<Rightarrow> if d = CHR '' '' then Some (Sample n kvs v) else None
             | _ \<Rightarrow> None)
          else None
      | [] \<Rightarrow> None)"

text \<open>What a scrape gets: the samples of the lines that are not empty and no comments.\<close>

definition scrape :: "string \<Rightarrow> metric_line option list" where
  "scrape s = map read_line (filter (\<lambda>l. l \<noteq> [] \<and> hd l \<noteq> CHR ''#'') (split_on newline s))"

section \<open>Reading back\<close>

text \<open>
  Texts every Prometheus reads as they are: printable ASCII, line feeds and the ellipsis.
\<close>

fun plain :: "string \<Rightarrow> bool" where
  "plain [] = True"
| "plain (c # s) =
     (if has_prefix (c # s) ellipsis then plain (drop 2 s)
      else (of_char c = (10 :: nat) \<or> 32 \<le> (of_char c :: nat) \<and> (of_char c :: nat) \<le> 126) \<and> plain s)"

lemma short_escape_printable: "32 \<le> n \<Longrightarrow> short_escape n = None"
  unfolding short_escape_def by (rule map_of_eq_None_iff [THEN iffD2]) simp

lemma short_escape_newline: "short_escape 10 = Some ''n''"
  by code_simp

lemma newline_code: "of_char c = (10 :: nat) \<longleftrightarrow> c = newline"
proof -
  have "(10 :: nat) = of_char newline" by code_simp
  then show ?thesis by (simp only: of_char_eq_iff)
qed

lemma ellipsis_chars: "ellipsis = [CHR 0xE2, CHR 0x80, CHR 0xA6]"
  by code_simp

text \<open>The three ways a plain text goes on.\<close>

lemma quote_escaped:
  assumes "c = CHR 0x22 \<or> c = CHR 0x5C \<or> c = newline"
  shows "quote_body wide (c # s) = CHR 0x5C # (if c = newline then CHR ''n'' else c) # quote_body wide s"
  using assms by (elim disjE) (simp_all add: newline_def short_escape_newline)

lemma quote_printable:
  assumes "c \<noteq> CHR 0x22" and "c \<noteq> CHR 0x5C" and "32 \<le> (of_char c :: nat)" and "(of_char c :: nat) \<le> 126"
  shows "quote_body wide (c # s) = c # quote_body wide s"
  using assms by simp

lemma ellipsis_split: "has_prefix (c # s) ellipsis \<Longrightarrow> c # s = ellipsis @ drop 2 s"
  by (cases s; cases "tl s") (auto simp: has_prefix_def ellipsis_chars)

lemma quote_ellipsis: "quote_body wide (ellipsis @ s) = ellipsis @ quote_body wide s"
  by (simp add: ellipsis_chars has_prefix_def short_escape_printable)

lemma plain_cases [consumes 1, case_names nil ellipsis escaped printable]:
  assumes "plain s"
  obtains "s = []" | t where "s = ellipsis @ t" "plain t"
    | c t where "s = c # t" "plain t" "c = CHR 0x22 \<or> c = CHR 0x5C \<or> c = newline"
    | c t where "s = c # t" "plain t" "c \<noteq> CHR 0x22" "c \<noteq> CHR 0x5C" "32 \<le> (of_char c :: nat)" "(of_char c :: nat) \<le> 126"
proof (cases s)
  case (Cons c t)
  show ?thesis
  proof (cases "has_prefix (c # t) ellipsis")
    case True
    with assms Cons have "plain (drop 2 t)" by simp
    with Cons ellipsis_split [OF True] that(2) show ?thesis by metis
  next
    case False
    with assms Cons that(3, 4) show ?thesis by (auto simp: newline_code)
  qed
qed (use that in simp)

lemma plain_induct [consumes 1, case_names nil ellipsis escaped printable]:
  assumes "plain s" and "P []" and "\<And>t. P t \<Longrightarrow> P (ellipsis @ t)"
    and "\<And>c t. P t \<Longrightarrow> c = CHR 0x22 \<or> c = CHR 0x5C \<or> c = newline \<Longrightarrow> P (c # t)"
    and "\<And>c t. P t \<Longrightarrow> c \<noteq> CHR 0x22 \<Longrightarrow> c \<noteq> CHR 0x5C \<Longrightarrow> 32 \<le> (of_char c :: nat) \<Longrightarrow> (of_char c :: nat) \<le> 126 \<Longrightarrow> P (c # t)"
  shows "P s"
  using assms(1)
proof (induction s rule: length_induct)
  case (1 s)
  then have IH: "\<And>t. length t < length s \<Longrightarrow> plain t \<Longrightarrow> P t" by blast
  from 1(2) show ?case
  proof (cases rule: plain_cases)
    case (ellipsis t)
    moreover have "length ellipsis = 3" by (simp add: ellipsis_def)
    ultimately show ?thesis using IH [of t] assms(3) by simp
  qed (use IH assms(2, 4, 5) in auto)
qed

lemma read_ellipsis: "read_value (ellipsis @ s) = map_option (\<lambda>(v, r). (ellipsis @ v, r)) (read_value s)"
  by (cases "read_value s") (auto simp: ellipsis_chars)

lemma read_quote: "plain s \<Longrightarrow> read_value (quote_body wide s @ CHR 0x22 # r) = Some (s, r)"
proof (induction rule: plain_induct)
  case (ellipsis t)
  then show ?case by (simp add: quote_ellipsis read_ellipsis)
next
  case (escaped c t)
  then show ?case by (auto simp: quote_escaped newline_def simp del: quote_body.simps)
next
  case (printable c t)
  then show ?case by (simp add: quote_printable del: quote_body.simps)
qed simp

lemma quote_no_newline: "plain s \<Longrightarrow> newline \<notin> set (quote_body wide s)"
proof (induction rule: plain_induct)
  case (ellipsis t)
  then show ?case by (simp add: quote_ellipsis) (simp add: ellipsis_chars newline_def)
next
  case (escaped c t)
  then show ?case by (auto simp: quote_escaped newline_def simp del: quote_body.simps)
next
  case (printable c t)
  then show ?case by (auto simp: quote_printable newline_code simp del: quote_body.simps) (simp add: newline_def)
qed simp

definition ok_name :: "string \<Rightarrow> bool" where
  "ok_name n \<longleftrightarrow> n \<noteq> [] \<and> list_all (\<lambda>c. \<not> name_end c \<and> c \<noteq> newline) n \<and> hd n \<noteq> CHR ''#''"

lemma name_split:
  assumes "ok_name n" and "name_end c"
  shows "takeWhile (\<lambda>c. \<not> name_end c) (n @ c # r) = n" "dropWhile (\<lambda>c. \<not> name_end c) (n @ c # r) = c # r"
  using assms by (auto simp: ok_name_def list_all_iff takeWhile_append dropWhile_append)

lemma name_ends [simp]: "name_end CHR ''{''" "name_end CHR ''=''" "name_end CHR '' ''"
  by (simp_all add: name_end_def)

definition ok_labels_text :: "(string \<times> string) list \<Rightarrow> bool" where
  "ok_labels_text kvs \<longleftrightarrow> list_all (\<lambda>(k, v). ok_name k \<and> plain v) kvs"

lemma read_label:
  assumes "ok_name k" and "plain v"
  shows "read_labels (label_text wide (k, v) @ CHR ''}'' # r) = Some ([(k, v)], r)"
    and "read_labels (label_text wide (k, v) @ CHR '','' # r) = map_option (\<lambda>(kvs, r'). ((k, v) # kvs, r')) (read_labels r)"
  by (subst read_labels.simps, simp add: label_text_def go_quote_def name_split [OF assms(1)] read_quote [OF assms(2)])+

lemma read_label_list:
  "ok_labels_text (kv # kvs) \<Longrightarrow>
   read_labels (join_with '','' (map (label_text wide) (kv # kvs)) @ CHR ''}'' # r) = Some (kv # kvs, r)"
proof (induction kvs arbitrary: kv)
  case Nil
  then show ?case by (cases kv) (simp add: ok_labels_text_def read_label)
next
  case (Cons kv' kvs)
  obtain k v where kv: "kv = (k, v)" by (cases kv)
  from Cons have "read_labels (join_with '','' (map (label_text wide) (kv' # kvs)) @ CHR ''}'' # r) = Some (kv' # kvs, r)"
    by (simp add: ok_labels_text_def)
  moreover have "ok_name k" "plain v" using Cons.prems by (simp_all add: ok_labels_text_def kv)
  ultimately show ?case using read_label(2) by (simp add: kv)
qed

fun ok_line :: "metric_line \<Rightarrow> bool" where
  "ok_line (Comment s) = (newline \<notin> set s)"
| "ok_line (Sample n kvs v) = (ok_name n \<and> ok_labels_text kvs \<and> newline \<notin> set v)"

lemma read_sample:
  assumes "ok_line (Sample n kvs v)"
  shows "read_line (line_text wide (Sample n kvs v)) = Some (Sample n kvs v)"
proof (cases kvs)
  case Nil
  with assms show ?thesis by (simp add: read_line_def name_split Let_def)
next
  case (Cons kv kvs')
  with assms read_label_list [of kv kvs' wide "CHR '' '' # v"] show ?thesis
    by (simp add: read_line_def name_split Let_def)
qed

lemma label_no_newline: "ok_name k \<Longrightarrow> plain v \<Longrightarrow> newline \<notin> set (label_text wide (k, v))"
  using quote_no_newline [of v wide]
  by (auto simp: label_text_def go_quote_def ok_name_def list_all_iff) (auto simp: newline_def)

lemma join_set: "x \<in> set (join_with sep xs) \<Longrightarrow> x \<in> set sep \<or> (\<exists>y \<in> set xs. x \<in> set y)"
  by (induction sep xs rule: join_with.induct) auto

lemma line_no_newline: "ok_line l \<Longrightarrow> newline \<notin> set (line_text wide l)"
proof (cases l)
  case (Comment s)
  moreover assume "ok_line l"
  ultimately show ?thesis by (simp add: newline_def)
next
  case (Sample n kvs v)
  moreover assume ok: "ok_line l"
  ultimately have n: "newline \<notin> set n" and v: "newline \<notin> set v"
    by (auto simp: ok_name_def list_all_iff)
  have "newline \<notin> set (join_with '','' (map (label_text wide) kvs))"
  proof
    assume "newline \<in> set (join_with '','' (map (label_text wide) kvs))"
    from join_set [OF this] obtain k w where "(k, w) \<in> set kvs" "newline \<in> set (label_text wide (k, w))"
      by (auto simp: newline_def)
    with ok Sample label_no_newline show False by (auto simp: ok_labels_text_def list_all_iff)
  qed
  with n v Sample show ?thesis by (cases kvs) (simp_all add: newline_def)
qed

definition is_sample :: "metric_line \<Rightarrow> bool" where
  "is_sample l = (case l of Sample n kvs v \<Rightarrow> True | _ \<Rightarrow> False)"

lemma split_expose: "\<forall>l \<in> set ls. ok_line l \<Longrightarrow> split_on newline (expose wide ls) = map (line_text wide) ls @ [[]]"
  by (induction ls) (simp_all add: expose_def split_on_sep line_no_newline)

lemma scrape_expose:
  assumes "\<forall>l \<in> set ls. ok_line l"
  shows "scrape (expose wide ls) = map Some (filter is_sample ls)"
proof -
  have "map read_line (filter (\<lambda>l. l \<noteq> [] \<and> hd l \<noteq> CHR ''#'') (map (line_text wide) ls)) = map Some (filter is_sample ls)"
    using assms
  proof (induction ls)
    case (Cons l ls)
    show ?case
    proof (cases l)
      case (Comment s)
      with Cons show ?thesis by (simp add: is_sample_def)
    next
      case (Sample n kvs v)
      with Cons.prems have "read_line (line_text wide l) = Some l" using read_sample by simp
      moreover have "line_text wide l \<noteq> []" "hd (line_text wide l) \<noteq> CHR ''#''"
        using Cons.prems Sample by (cases kvs; simp add: ok_name_def hd_append)+
      ultimately show ?thesis using Cons Sample by (simp add: is_sample_def)
    qed
  qed simp
  then show ?thesis by (simp add: scrape_def split_expose [OF assms])
qed

section \<open>What Prometheus gets\<close>

text \<open>Printable ASCII and line feeds: the texts for which Go's quoting is Prometheus's.\<close>

definition text_char :: "char \<Rightarrow> bool" where
  "text_char c \<longleftrightarrow> c = newline \<or> 32 \<le> (of_char c :: nat) \<and> (of_char c :: nat) \<le> 126"

definition ascii :: "string \<Rightarrow> bool" where
  "ascii s \<longleftrightarrow> list_all text_char s"

lemma plain_ascii: "ascii s \<Longrightarrow> plain s"
proof (induction s)
  case (Cons c s)
  then have "\<not> has_prefix (c # s) ellipsis"
    by (auto simp: ascii_def text_char_def has_prefix_def ellipsis_chars newline_def)
  with Cons show ?case by (simp add: ascii_def text_char_def newline_code)
qed simp

lemma ascii_simps [simp]:
  "ascii []" "ascii (s @ t) \<longleftrightarrow> ascii s \<and> ascii t"
  by (simp_all add: ascii_def)

lemma ascii_sub: "set s \<subseteq> set t \<Longrightarrow> ascii t \<Longrightarrow> ascii s"
  by (auto simp: ascii_def list_all_iff)

lemma ascii_cons: "32 \<le> (of_char c :: nat) \<Longrightarrow> (of_char c :: nat) \<le> 126 \<Longrightarrow> ascii (c # s) \<longleftrightarrow> ascii s"
  by (simp add: ascii_def text_char_def)

lemma ascii_parts: "x \<in> set (split_on c s) \<Longrightarrow> ascii s \<Longrightarrow> ascii x"
proof -
  have "x \<in> set (split_on c s) \<Longrightarrow> set x \<subseteq> set s"
    by (induction c s arbitrary: x rule: split_on.induct) (fastforce split: if_splits list.splits)+
  then show "x \<in> set (split_on c s) \<Longrightarrow> ascii s \<Longrightarrow> ascii x" using ascii_sub by blast
qed

lemma plain_ellipsis: "ascii s \<Longrightarrow> plain (ellipsis @ s)"
  using plain_ascii [of s] by (simp add: ellipsis_chars has_prefix_def)

lemma title_plain:
  assumes "ascii n"
  shows "plain (title n)"
proof -
  have drop: "ascii (drop k n)" for k using assms by (rule ascii_sub [OF set_drop_subset])
  let ?p = "split_on CHR '':'' (drop 4 n)"
  have part: "ascii (?p ! i)" if "i < length ?p" for i
    using ascii_parts [OF nth_mem [OF that] drop] .
  have "plain (ellipsis @ ?p ! (length ?p - 2) @ '':'' @ ?p ! (length ?p - 1))" if "2 \<le> length ?p"
    by (rule plain_ellipsis) (use part that in \<open>simp add: ascii_cons\<close>)
  moreover have "plain (''vlan'' @ drop 5 n)" by (rule plain_ascii) (use drop in \<open>simp add: ascii_cons\<close>)
  ultimately show ?thesis
    using plain_ascii [OF drop [of 4]] plain_ascii [OF assms] by (simp add: title_def Let_def del: plain.simps)
qed

lemma role_plain: "plain (role n)"
proof -
  have "plain ''VLAN'' \<and> plain ''MAC'' \<and> plain ''PE'' \<and> plain ''CE'' \<and> plain ''P'' \<and> plain ''?''"
    by code_simp
  then show ?thesis by (simp add: role_def)
qed

lemma ok_names:
  "ok_name ''layer''" "ok_name ''id''" "ok_name ''title''" "ok_name ''role''" "ok_name ''source''" "ok_name ''target''"
  "ok_name ''detail''" "ok_name ''flow''" "ok_name ''src''" "ok_name ''dst''" "ok_name ''seq''" "ok_name ''node''"
  "ok_name ''kind''" "ok_name ''nexthop''" "ok_name ''labels''"
  "ok_name ''frr_topo_node''" "ok_name ''frr_topo_edge''" "ok_name ''frr_topo_up''" "ok_name ''frr_pathtrace_reachable''"
  "ok_name ''frr_pathtrace_hops''" "ok_name ''frr_pathtrace_duration_seconds''" "ok_name ''frr_pathtrace_hop_info''"
  "ok_name ''frr_pathtrace_up''"
  by code_simp+

text \<open>Every line of the two texts is one the reader takes.\<close>

definition ascii_flow :: "flow \<Rightarrow> bool" where
  "ascii_flow f \<longleftrightarrow> ascii (fl_name f) \<and> ascii (fl_start f) \<and> ascii (fl_dst f)"

definition ascii_hop :: "thop \<Rightarrow> bool" where
  "ascii_hop h \<longleftrightarrow> ascii (th_node h) \<and> ascii (th_kind h) \<and> ascii (th_nexthop h) \<and> ascii (th_label h) \<and> ascii (th_detail h)"

definition ascii_edge :: "edge \<Rightarrow> bool" where
  "ascii_edge e \<longleftrightarrow> ascii (ed_layer e) \<and> ascii (ed_src e) \<and> ascii (ed_dst e) \<and> ascii (ed_detail e)"

lemma dec_plain: "plain (dec n)" "newline \<notin> set (dec n)"
proof -
  have "ascii (dec n)" using dec_digits [of n] by (auto simp: ascii_def text_char_def list_all_iff is_digit_def)
  then show "plain (dec n)" by (rule plain_ascii)
  show "newline \<notin> set (dec n)" by (rule not_digit_in_dec) (simp add: newline_def is_digit_def)
qed

lemma dec02_plain: "plain (dec02 n)"
  using dec_plain(1) [of n] by (auto simp: dec02_def has_prefix_def ellipsis_chars)

lemma flow_lines_ok:
  assumes "ascii_flow f" and "\<forall>h \<in> set hops. ascii_hop h" and "newline \<notin> set dur" and "l \<in> set (flow_lines f (hops, b) dur)"
  shows "ok_line l"
proof -
  have one: "newline \<noteq> CHR ''1''" "newline \<noteq> CHR ''0''" by (simp_all add: newline_def)
  have "ok_line (hop_line f h)" if "h \<in> set hops" for h
    using assms(1, 2) that
    by (simp add: hop_line_def ok_names ok_labels_text_def plain_ascii dec02_plain ascii_flow_def ascii_hop_def one)
  moreover have "ok_labels_text [(''flow'', fl_name f), (''src'', fl_start f), (''dst'', fl_dst f)]"
    using assms(1) by (simp add: ok_labels_text_def ok_names plain_ascii ascii_flow_def)
  ultimately show ?thesis
    using assms(3, 4) one by (auto simp: flow_lines_def ok_names dec_plain Let_def)
qed

lemma row_lines_ok:
  assumes "\<forall>(k, e) \<in> set es. ascii_edge e"
  shows "r \<in> set (node_rows es) \<Longrightarrow> ok_line (node_line r)"
    and "q \<in> set (edge_rows es) \<Longrightarrow> ok_line (edge_line q)"
proof -
  have one: "newline \<noteq> CHR ''1''" by (simp add: newline_def)
  show "ok_line (node_line r)" if "r \<in> set (node_rows es)"
  proof -
    from that obtain layer n where r: "r = (layer, n, title n, role n)"
      "layer \<in> {''physical'', ''vlan'', ''ospf'', ''bgp'', ''mpls''}" "n \<in> set (layer_nodes es layer)"
      unfolding node_rows_def by auto
    from r(3) assms have "ascii n" by (auto simp: layer_nodes_def ascii_edge_def split: if_splits)
    moreover have "ascii layer" using r(2) by (auto simp: ascii_def text_char_def)
    ultimately show ?thesis
      by (simp add: r(1) node_line_def ok_names ok_labels_text_def plain_ascii title_plain role_plain one)
  qed
  show "ok_line (edge_line q)" if "q \<in> set (edge_rows es)"
  proof -
    from that obtain k where k: "k \<in> set (map fst es)"
      and q: "q = (let e = the (map_of es k) in (ed_layer e, ed_src e @ ''|'' @ ed_dst e, ed_src e, ed_dst e, ed_detail e))"
      unfolding edge_rows_def by auto
    then obtain e where "map_of es k = Some e" by (cases "map_of es k") (simp_all add: map_of_eq_None_iff)
    with q have e: "map_of es k = Some e" "q = (ed_layer e, ed_src e @ ''|'' @ ed_dst e, ed_src e, ed_dst e, ed_detail e)"
      by simp_all
    from map_of_SomeD [OF e(1)] assms have "ascii_edge e" by auto
    then show ?thesis
      by (simp add: e(2) edge_line_def ok_names ok_labels_text_def plain_ascii ascii_edge_def ascii_cons one)
  qed
qed

text \<open>
  One refresh of the path tracer as text: the traces in the order of the flows, each with the
  time it took.
\<close>

definition path_results ::
  "inventory \<Rightarrow> network \<Rightarrow> (string \<times> string) list \<Rightarrow> (nat \<Rightarrow> nat \<Rightarrow> network) \<Rightarrow>
   (nat \<Rightarrow> nat \<Rightarrow> aft_map \<Rightarrow> (string \<times> aft_ent) list) \<Rightarrow> flow list \<Rightarrow> (nat \<Rightarrow> string) \<Rightarrow>
   (flow \<times> (thop list \<times> bool) \<times> string) list" where
  "path_results nodes net0 xs0 net order fs dur =
     (let m = buildIP2Node nodes net0 xs0 in
      map (\<lambda>i. (fs ! i, trace_flow nodes (net i) (order i) m (fl_start (fs ! i)) (fl_dst (fs ! i)), dur i)) [0 ..< length fs])"

definition sample_of :: "metric_sample \<Rightarrow> metric_line" where
  "sample_of s = Sample (sa_name s) (sa_labels s) (dec (sa_value s))"

definition is_duration :: "metric_line \<Rightarrow> bool" where
  "is_duration l = (case l of Sample n kvs v \<Rightarrow> n = ''frr_pathtrace_duration_seconds'' | _ \<Rightarrow> False)"

lemma dec_1: "dec 0 = ''0''" "dec 1 = ''1''"
  by code_simp+

lemma flow_lines_samples:
  "filter (\<lambda>l. \<not> is_duration l) (flow_lines f r dur) = map sample_of (flow_samples f r)"
  "filter is_sample (flow_lines f r dur) = flow_lines f r dur"
  by (auto simp: flow_lines_def flow_samples_def hop_line_def hop_sample_def sample_of_def is_duration_def is_sample_def
      dec_1 [unfolded One_nat_def] Let_def comp_def split: prod.split intro!: filter_True)

lemma path_lines_samples:
  "filter (\<lambda>l. \<not> is_duration l)
     (concat (map (\<lambda>(f, r, dur). flow_lines f r dur) (path_results nodes net0 xs0 net order fs dur)) @
      [Sample ''frr_pathtrace_up'' [] ''1'']) =
     map sample_of (path_render nodes net0 xs0 net order fs)"
proof -
  have "\<not> is_duration (Sample ''frr_pathtrace_up'' [] ''1'')" by (simp add: is_duration_def)
  then show ?thesis
    by (simp add: path_results_def path_render_def Let_def filter_concat map_concat comp_def flow_lines_samples
        sample_of_def dec_1 [unfolded One_nat_def])
qed

lemma concat_samples:
  "filter is_sample (concat (map (\<lambda>(f, r, dur). flow_lines f r dur) rs)) = concat (map (\<lambda>(f, r, dur). flow_lines f r dur) rs)"
  by (induction rs) (auto simp: flow_lines_samples)

text \<open>
  C26. A scrape of the path tracer gets what the refresh found.  When the names and addresses of
  the flows and the nodes, next hops, labels and details of the hops are printable ASCII (line
  feeds allowed), and the text is read line by line, with the names, label values and escapes
  of Prometheus's text format, no line is unreadable, and the samples are, in order and with
  the durations left out, exactly the refresh's, label by label: on such texts the quoting of
  Go is the quoting Prometheus expects, and not on others (a tab, \<open>tab_misread\<close>).  The
  format's rule that the lines of one metric stand together is not part of the reader; the text
  breaks it when there are several flows (\<open>families_interleave\<close>).
\<close>

theorem path_scrape:
  assumes "rs = path_results nodes net0 xs0 net order fs dur" and "\<forall>f \<in> set fs. ascii_flow f"
    and "\<forall>(f, (hops, b), d) \<in> set rs. (\<forall>h \<in> set hops. ascii_hop h) \<and> newline \<notin> set d"
  shows "\<exists>ls. scrape (path_text wide rs) = map Some ls \<and>
    filter (\<lambda>l. \<not> is_duration l) ls = map sample_of (path_render nodes net0 xs0 net order fs)"
proof -
  have flows: "\<forall>(f, r, d) \<in> set rs. ascii_flow f"
    using assms(2) by (auto simp: assms(1) path_results_def Let_def)
  have "ok_line l" if "x \<in> set rs" "l \<in> set (case x of (f, r, d) \<Rightarrow> flow_lines f r d)" for x l
  proof -
    obtain f hops b d where x: "x = (f, (hops, b), d)" by (metis prod.exhaust)
    show ?thesis
      by (rule flow_lines_ok [of f hops d l b]) (use flows assms(3) that in \<open>auto simp: x\<close>)
  qed
  then have ok: "\<forall>l \<in> set (concat (map (\<lambda>(f, r, dur). flow_lines f r dur) rs)). ok_line l" by auto
  have one: "newline \<noteq> CHR ''1''" by (simp add: newline_def)
  have "scrape (path_text wide rs) =
      map Some (concat (map (\<lambda>(f, r, dur). flow_lines f r dur) rs) @ [Sample ''frr_pathtrace_up'' [] ''1''])"
    unfolding path_text_def
    by (subst scrape_expose)
      (use ok one in \<open>auto simp: concat_samples is_sample_def ok_names ok_labels_text_def newline_def\<close>)
  with path_lines_samples show ?thesis unfolding assms(1) by blast
qed

text \<open>
  C27. A scrape of the topology gets the rows of the refresh.  When the names and details of all
  edges are printable ASCII (line feeds allowed), and the text is read line by line, with the
  names, label values and escapes of Prometheus's text format, no line is unreadable, and the
  samples are every node and every edge of the refresh once, in order, with names and details
  as they are, whatever pseudo-nodes and shortened MAC addresses the titles hold.  (A tab in a
  detail reads back as a backslash and a t, \<open>tab_misread\<close>.)
\<close>

theorem topology_scrape:
  assumes "\<forall>(k, e) \<in> set es. ascii_edge e"
  shows "scrape (topo_text wide es) =
    map Some (map node_line (node_rows es) @ map edge_line (edge_rows es) @ [Sample ''frr_topo_up'' [] ''1''])"
proof -
  have one: "newline \<noteq> CHR ''1''" by (simp add: newline_def)
  have samples: "filter is_sample (map node_line xs) = map node_line xs" "filter is_sample (map edge_line ys) = map edge_line ys"
    for xs ys by (auto simp: is_sample_def node_line_def edge_line_def split: prod.splits intro!: filter_True)
  show ?thesis
    unfolding topo_text_def
    by (subst scrape_expose)
      (use row_lines_ok [OF assms] one in \<open>auto simp: samples is_sample_def ok_names ok_labels_text_def newline_def\<close>)
qed

section \<open>Witnesses\<close>

definition ex_flow :: flow where
  "ex_flow = \<lparr>fl_name = ''f'', fl_start = ''pe1'', fl_dst = ''10.0.0.9''\<rparr>"

lemma ex_results:
  "path_results Map.empty (\<lambda>_ _. None) [] (\<lambda>_ _ _ _. None) (\<lambda>_ _ _. []) [ex_flow] (\<lambda>_. ''0.5'') =
     [(ex_flow, ([\<lparr>th_seq = 1, th_node = ''pe1'', th_kind = ''drop'', th_nexthop = [], th_label = [],
        th_detail = ''no route to 10.0.0.9''\<rparr>], False), ''0.5'')]"
  by code_simp

theorem path_scrape_witness:
  "\<exists>ls. scrape (path_text (\<lambda>_. ([], 0)) (path_results Map.empty (\<lambda>_ _. None) [] (\<lambda>_ _ _ _. None) (\<lambda>_ _ _. []) [ex_flow] (\<lambda>_. ''0.5''))) =
      map Some ls \<and>
    filter (\<lambda>l. \<not> is_duration l) ls =
      map sample_of (path_render Map.empty (\<lambda>_ _. None) [] (\<lambda>_ _ _ _. None) (\<lambda>_ _ _. []) [ex_flow])"
  by (rule path_scrape [OF refl])
    (simp_all add: ex_results, simp_all add: ex_flow_def ascii_flow_def ascii_hop_def ascii_def text_char_def newline_def)

definition ex_edges :: "(string \<times> edge) list" where
  "ex_edges = [(''vlan|br0|mac:aa:bb'', \<lparr>ed_layer = ''vlan'', ed_src = ''br0'', ed_dst = ''mac:aa:bb'', ed_detail = ''learned''\<rparr>)]"

theorem topology_scrape_witness:
  "scrape (topo_text (\<lambda>_. ([], 0)) ex_edges) =
    map Some (map node_line (node_rows ex_edges) @ map edge_line (edge_rows ex_edges) @ [Sample ''frr_topo_up'' [] ''1'']) \<and>
   (''vlan'', ''mac:aa:bb'', ellipsis @ ''aa:bb'', ''MAC'') \<in> set (node_rows ex_edges)"
proof
  show "scrape (topo_text (\<lambda>_. ([], 0)) ex_edges) =
    map Some (map node_line (node_rows ex_edges) @ map edge_line (edge_rows ex_edges) @ [Sample ''frr_topo_up'' [] ''1''])"
    by (rule topology_scrape) (simp add: ex_edges_def ascii_edge_def ascii_def text_char_def)
  show "(''vlan'', ''mac:aa:bb'', ellipsis @ ''aa:bb'', ''MAC'') \<in> set (node_rows ex_edges)"
    by code_simp
qed

text \<open>
  Other control characters are quoted in a way that Prometheus does not undo: a tab in a name
  comes out as a backslash and a t.
\<close>

lemma tab_misread:
  "scrape (expose wide [Sample ''m'' [(''k'', [CHR 0x09])] ''1'']) = [Some (Sample ''m'' [(''k'', [CHR 0x5C, CHR ''t''])] ''1'')]"
proof -
  have "line_text wide (Sample ''m'' [(''k'', [CHR 0x09])] ''1'') = line_text (\<lambda>_. ([], 0)) (Sample ''m'' [(''k'', [CHR 0x09])] ''1'')"
    by (simp add: label_text_def go_quote_def short_escape_def)
  then have "expose wide [Sample ''m'' [(''k'', [CHR 0x09])] ''1''] = expose (\<lambda>_. ([], 0)) [Sample ''m'' [(''k'', [CHR 0x09])] ''1'']"
    by (simp add: expose_def)
  moreover have "scrape (expose (\<lambda>_. ([], 0)) [Sample ''m'' [(''k'', [CHR 0x09])] ''1'']) =
      [Some (Sample ''m'' [(''k'', [CHR 0x5C, CHR ''t''])] ''1'')]" by code_simp
  ultimately show ?thesis by simp
qed

text \<open>
  The lines of a metric are not together, as the text format asks: with two flows the samples
  of the first one's hops stand between the two of \<^verbatim>\<open>frr_pathtrace_reachable\<close>.
\<close>

lemma families_interleave:
  assumes "rs = [(f, (hops, b), d), (g, (hops', b'), d')]"
  shows "concat (map (\<lambda>(f, r, dur). flow_lines f r dur) rs) ! 0 = Sample ''frr_pathtrace_reachable''
      [(''flow'', fl_name f), (''src'', fl_start f), (''dst'', fl_dst f)] (if b then ''1'' else ''0'') \<and>
    concat (map (\<lambda>(f, r, dur). flow_lines f r dur) rs) ! 1 = Sample ''frr_pathtrace_hops''
      [(''flow'', fl_name f), (''src'', fl_start f), (''dst'', fl_dst f)] (dec (length hops)) \<and>
    concat (map (\<lambda>(f, r, dur). flow_lines f r dur) rs) ! (length hops + 3) = Sample ''frr_pathtrace_reachable''
      [(''flow'', fl_name g), (''src'', fl_start g), (''dst'', fl_dst g)] (if b' then ''1'' else ''0'')"
  by (simp add: assms flow_lines_def Let_def nth_append)

end
