(* ===== verification/Exporter.thy ===== *)
theory Exporter
  imports Exposition Aggregator
begin

text \<open>
  The processes around the exporters' logic, \<^verbatim>\<open>cmd/pathtrace-exporter\<close>,
  \<^verbatim>\<open>cmd/topology-exporter\<close> and \<^verbatim>\<open>cmd/trace-aggregator\<close>: their configuration, the
  gNMI client with its cache of connections, the refresh loop and the lock between it and the
  scrapes, the query to Loki; and the proof that the functions of which each has its own copy
  agree, so that they are modelled once.
\<close>

section \<open>Configuration\<close>

text \<open>
  The environment: \<^verbatim>\<open>os.Getenv\<close> is empty for an unset variable.  \<open>parse\<close> is
  \<^verbatim>\<open>time.ParseDuration\<close>; a text it refuses leaves the default.
\<close>

type_synonym env = "string \<Rightarrow> string"

definition env_duration :: "(string \<Rightarrow> duration option) \<Rightarrow> env \<Rightarrow> string \<Rightarrow> duration \<Rightarrow> duration" where
  "env_duration parse env k d =
     (if env k \<noteq> [] then (case parse (env k) of Some x \<Rightarrow> x | None \<Rightarrow> d) else d)"

definition env_text :: "env \<Rightarrow> string \<Rightarrow> string \<Rightarrow> string" where
  "env_text env k d = (if env k \<noteq> [] then env k else d)"

record path_config =
  pc_inventory :: inventory
  pc_flows :: "flow list"
  pc_interval :: duration
  pc_listen :: string

text \<open>\<^verbatim>\<open>None\<close>: the process ends with an error.\<close>

definition path_main :: "(string \<Rightarrow> duration option) \<Rightarrow> (flow list \<Rightarrow> flow list) \<Rightarrow> env \<Rightarrow> path_config option" where
  "path_main parse srt env =
     (let nodes = parseInventory (env ''INVENTORY''); fs = parseFlows srt (env ''FLOWS'') in
      if nodes = Map.empty \<or> fs = [] then None
      else Some \<lparr>pc_inventory = nodes, pc_flows = fs, pc_interval = env_duration parse env ''INTERVAL'' (15 * second),
        pc_listen = env_text env ''LISTEN'' '':9808''\<rparr>)"

record topo_config =
  tp_inventory :: inventory
  tp_interval :: duration
  tp_listen :: string

definition topo_parseInventory :: "string \<Rightarrow> inventory" where
  "topo_parseInventory s =
     foldl (\<lambda>m kv0. let kv = trim_space kv0 in
        if kv = [] then m
        else case index_byte kv CHR ''='' of
               None \<Rightarrow> m
             | Some i \<Rightarrow> if 0 < i then m(take i kv \<mapsto> drop (i + 1) kv) else m)
       Map.empty (split_on CHR '','' s)"

definition topo_main :: "(string \<Rightarrow> duration option) \<Rightarrow> env \<Rightarrow> topo_config option" where
  "topo_main parse env =
     (let nodes = topo_parseInventory (env ''INVENTORY'') in
      if nodes = Map.empty then None
      else Some \<lparr>tp_inventory = nodes, tp_interval = env_duration parse env ''INTERVAL'' (15 * second),
        tp_listen = env_text env ''LISTEN'' '':9810''\<rparr>)"

record agg_config =
  ac_inventory :: inventory
  ac_window :: duration
  ac_interval :: duration
  ac_listen :: string
  ac_zipkin :: string
  ac_loki :: string
  ac_txn :: txn_conf

text \<open>The aggregator's copy has no case for an empty part.\<close>

definition agg_parseInventory :: "string \<Rightarrow> inventory" where
  "agg_parseInventory s =
     foldl (\<lambda>m kv0. let kv = trim_space kv0 in
        case index_byte kv CHR ''='' of
          None \<Rightarrow> m
        | Some i \<Rightarrow> if 0 < i then m(take i kv \<mapsto> drop (i + 1) kv) else m)
       Map.empty (split_on CHR '','' s)"

definition agg_main :: "(string \<Rightarrow> duration option) \<Rightarrow> env \<Rightarrow> agg_config option" where
  "agg_main parse env =
     (let nodes = agg_parseInventory (env ''INVENTORY'') in
      if nodes = Map.empty then None
      else Some \<lparr>ac_inventory = nodes, ac_window = env_duration parse env ''WINDOW'' (1500 * millisecond),
        ac_interval = env_duration parse env ''INTERVAL'' (3 * second), ac_listen = env_text env ''LISTEN'' '':9341'',
        ac_zipkin = env ''TEMPO_ZIPKIN'', ac_loki = trim_right (\<lambda>c. c = CHR ''/'') (env ''LOKI_TXN''),
        ac_txn = \<lparr>tc_lab = env ''LAB'', tc_window = env_duration parse env ''TXN_WINDOW'' (120 * second),
          tc_skew = 10 * second\<rparr>\<rparr>)"

section \<open>The client's connections\<close>

text \<open>
  The addresses the nodes' connections were made to; \<open>dial\<close> says whether
  \<^verbatim>\<open>grpc.NewClient\<close> succeeds for an address.
\<close>

type_synonym conns = "string \<Rightarrow> string option"

definition client :: "inventory \<Rightarrow> (string \<Rightarrow> bool) \<Rightarrow> conns \<Rightarrow> string \<Rightarrow> string option \<times> conns" where
  "client nodes dial cs node =
     (case cs node of
        Some c \<Rightarrow> (Some c, cs)
      | None \<Rightarrow>
          let a = (case nodes node of None \<Rightarrow> [] | Some a \<Rightarrow> a) in
          if a = [] then (None, cs)
          else
            let a = (if contains_str a '':'' then a else a @ '':9339'') in
            if dial a then (Some a, cs(node \<mapsto> a)) else (None, cs))"

text \<open>A \<^verbatim>\<open>get\<close>: \<open>rpc\<close> is what the server at an address answers within 5 s.\<close>

record get_call =
  gc_node :: string
  gc_path :: gpath
  gc_dial :: "string \<Rightarrow> bool"
  gc_rpc :: network

definition cached_get :: "inventory \<Rightarrow> conns \<Rightarrow> get_call \<Rightarrow> update list \<times> conns" where
  "cached_get nodes cs c =
     (case client nodes (gc_dial c) cs (gc_node c) of
        (None, cs') \<Rightarrow> ([], cs')
      | (Some a, cs') \<Rightarrow> ((case gc_rpc c a (gc_path c) of None \<Rightarrow> [] | Some ns \<Rightarrow> concat (map n_update ns)), cs'))"

text \<open>A sequence of calls, with their answers and the nodes for which a connection was made.\<close>

definition get_step :: "inventory \<Rightarrow> update list list \<times> string list \<times> conns \<Rightarrow> get_call \<Rightarrow> update list list \<times> string list \<times> conns" where
  "get_step nodes s c =
     (case s of (outs, made, cs) \<Rightarrow> case cached_get nodes cs c of
        (us, cs') \<Rightarrow> (outs @ [us], if cs (gc_node c) = cs' (gc_node c) then made else made @ [gc_node c], cs'))"

definition run_gets :: "inventory \<Rightarrow> get_call list \<Rightarrow> update list list \<times> string list \<times> conns" where
  "run_gets nodes calls = foldl (get_step nodes) ([], [], Map.empty) calls"

text \<open>A node is connected by the call that first reaches its address.\<close>

definition connected :: "get_call list \<Rightarrow> string \<Rightarrow> string \<Rightarrow> bool" where
  "connected calls n a \<longleftrightarrow> (\<exists>c \<in> set calls. gc_node c = n \<and> gc_dial c a)"

lemma client_addr_eq:
  "client nodes dial cs node =
     (case cs node of
        Some c \<Rightarrow> (Some c, cs)
      | None \<Rightarrow> (case client_addr nodes node of
          None \<Rightarrow> (None, cs)
        | Some a \<Rightarrow> if dial a then (Some a, cs(node \<mapsto> a)) else (None, cs)))"
  by (simp add: client_def client_addr_def Let_def split: option.split)

lemma cached_get_conns:
  "snd (cached_get nodes cs c) n =
     (if n = gc_node c \<and> cs n = None
      then (case client_addr nodes n of Some a \<Rightarrow> if gc_dial c a then Some a else None | None \<Rightarrow> None) else cs n)"
  by (auto simp: cached_get_def client_addr_eq split: option.split)

lemma gets_conns:
  "snd (snd (run_gets nodes calls)) n = Some a \<longleftrightarrow> client_addr nodes n = Some a \<and> connected calls n a"
proof (induction calls arbitrary: a rule: rev_induct)
  case (snoc c calls)
  obtain outs made cs where s: "run_gets nodes calls = (outs, made, cs)" by (rule prod_cases3)
  have "snd (snd (run_gets nodes (calls @ [c]))) = snd (cached_get nodes cs c)"
    using s by (simp add: run_gets_def get_step_def split: prod.split)
  moreover have "cs n = Some a \<longleftrightarrow> client_addr nodes n = Some a \<and> connected calls n a" for a
    using snoc.IH s by simp
  moreover have "cs n = None \<longleftrightarrow> (\<forall>a. \<not> (client_addr nodes n = Some a \<and> connected calls n a))"
    using snoc s by (metis not_None_eq snd_conv)
  ultimately show ?case
    by (auto simp: cached_get_conns connected_def split: option.splits)
qed (simp add: run_gets_def connected_def)

lemma cached_get_answer:
  "fst (cached_get nodes cs c) =
     (case cs (gc_node c) of
        Some a \<Rightarrow> (case gc_rpc c a (gc_path c) of None \<Rightarrow> [] | Some ns \<Rightarrow> concat (map n_update ns))
      | None \<Rightarrow> gnmi_get nodes (\<lambda>a q. if gc_dial c a then gc_rpc c a q else None) (gc_node c) (gc_path c))"
  by (auto simp: cached_get_def client_addr_eq gnmi_get_def split: option.split)

lemma gets_length: "length (fst (run_gets nodes calls)) = length calls"
proof (induction calls rule: rev_induct)
  case (snoc c calls)
  then show ?case by (cases "run_gets nodes calls") (simp add: run_gets_def get_step_def split: prod.split)
qed (simp add: run_gets_def)

lemma gets_last:
  "fst (run_gets nodes (calls @ [c])) = fst (run_gets nodes calls) @
     [gnmi_get nodes (\<lambda>a q. if connected (calls @ [c]) (gc_node c) a then gc_rpc c a q else None) (gc_node c) (gc_path c)]"
proof -
  obtain outs made cs where s: "run_gets nodes calls = (outs, made, cs)" by (rule prod_cases3)
  have cs: "cs n = Some a \<longleftrightarrow> client_addr nodes n = Some a \<and> connected calls n a" for n a
    using gets_conns [of nodes calls n a] by (simp add: s)
  have "fst (cached_get nodes cs c) =
      gnmi_get nodes (\<lambda>a q. if connected (calls @ [c]) (gc_node c) a then gc_rpc c a q else None) (gc_node c) (gc_path c)"
  proof (cases "cs (gc_node c)")
    case None
    then have "\<not> (client_addr nodes (gc_node c) = Some a \<and> connected calls (gc_node c) a)" for a
      using cs [of "gc_node c" a] by simp
    then show ?thesis
      unfolding cached_get_answer None by (auto simp: gnmi_get_def connected_def split: option.split)
  next
    case (Some a)
    with cs [of "gc_node c" a] have "client_addr nodes (gc_node c) = Some a" "connected calls (gc_node c) a" by simp_all
    then show ?thesis
      unfolding cached_get_answer Some by (auto simp: gnmi_get_def connected_def)
  qed
  moreover have "fst (run_gets nodes (calls @ [c])) = fst (run_gets nodes calls) @ [fst (cached_get nodes cs c)]"
    using s by (simp add: run_gets_def get_step_def split: prod.split)
  ultimately show ?thesis by (simp only:)
qed

text \<open>
  C25. The cache of connections is transparent: in any sequence of gets, each is answered as if the
  client dialled for every get, where a node's address counts as dialled once this or any
  earlier get for the node could dial it: a dial that fails is tried again, one that succeeded
  never fails later.
\<close>

theorem gets_as_if_dialled:
  assumes "i < length calls" and "c = calls ! i"
  shows "fst (run_gets nodes calls) ! i =
    gnmi_get nodes (\<lambda>a q. if connected (take (Suc i) calls) (gc_node c) a then gc_rpc c a q else None) (gc_node c) (gc_path c)"
  using assms
proof (induction calls rule: rev_induct)
  case (snoc d calls)
  show ?case
  proof (cases "i = length calls")
    case True
    with snoc.prems have c: "c = d" by simp
    show ?thesis using True unfolding c by (simp add: gets_last nth_append gets_length)
  next
    case False
    with snoc show ?thesis by (simp add: gets_last nth_append gets_length)
  qed
qed simp

text \<open>
  At most one connection per node: however many gets there are, whatever fails, connections are
  made for nodes of the inventory only, and for each once.
\<close>

theorem one_connection_per_node:
  "distinct (fst (snd (run_gets nodes calls))) \<and> set (fst (snd (run_gets nodes calls))) \<subseteq> dom nodes"
proof -
  have "distinct (fst (snd (run_gets nodes calls))) \<and> set (fst (snd (run_gets nodes calls))) = dom (snd (snd (run_gets nodes calls)))"
  proof (induction calls rule: rev_induct)
    case (snoc c calls)
    obtain outs made cs where s: "run_gets nodes calls = (outs, made, cs)" by (rule prod_cases3)
    with snoc have made: "distinct made" "set made = dom cs" by simp_all
    obtain us cs' where g: "cached_get nodes cs c = (us, cs')" by (rule prod.exhaust)
    have cs': "cs' n = (if n = gc_node c \<and> cs n = None
      then (case client_addr nodes n of Some a \<Rightarrow> if gc_dial c a then Some a else None | None \<Rightarrow> None) else cs n)" for n
      using cached_get_conns [of nodes cs c n] by (simp add: g)
    have run: "run_gets nodes (calls @ [c]) = (outs @ [us], if cs (gc_node c) = cs' (gc_node c) then made else made @ [gc_node c], cs')"
      using s g by (simp add: run_gets_def get_step_def)
    show ?case
    proof (cases "cs (gc_node c) = cs' (gc_node c)")
      case True
      then have "cs' = cs" using cs' by (auto simp: fun_eq_iff)
      with made True show ?thesis by (simp add: run)
    next
      case False
      then have none: "cs (gc_node c) = None" using cs' [of "gc_node c"] by (auto split: if_splits)
      with False have "cs' (gc_node c) \<noteq> None" by simp
      then have "dom cs' = insert (gc_node c) (dom cs)" using cs' by (auto simp: dom_def split: if_splits)
      moreover have "gc_node c \<notin> dom cs" using none by (simp add: domIff)
      ultimately show ?thesis using made False by (simp add: run)
    qed
  qed (simp add: run_gets_def)
  moreover have "dom (snd (snd (run_gets nodes calls))) \<subseteq> dom nodes"
  proof
    fix n assume "n \<in> dom (snd (snd (run_gets nodes calls)))"
    then obtain a where "client_addr nodes n = Some a" using gets_conns by (auto simp: dom_def)
    then show "n \<in> dom nodes" by (auto simp: client_addr_def Let_def split: option.splits if_splits)
  qed
  ultimately show ?thesis by blast
qed

definition ex_call :: "string \<Rightarrow> bool \<Rightarrow> get_call" where
  "ex_call n up = \<lparr>gc_node = n, gc_path = addrPath, gc_dial = (\<lambda>_. up), gc_rpc = (\<lambda>a q. Some [\<lparr>n_timestamp = 0, n_prefix = path_of [],
     n_update = [leafUpdate (gp_elem q) a], n_delete = []\<rparr>])\<rparr>"

theorem gets_as_if_dialled_witness:
  "fst (run_gets [''pe1'' \<mapsto> ''m1''] [ex_call ''pe1'' False, ex_call ''pe1'' True, ex_call ''pe1'' False]) ! 2 =
    gnmi_get [''pe1'' \<mapsto> ''m1''] (\<lambda>a q. if connected (take (Suc 2) [ex_call ''pe1'' False, ex_call ''pe1'' True, ex_call ''pe1'' False])
      (gc_node (ex_call ''pe1'' False)) a then gc_rpc (ex_call ''pe1'' False) a q else None)
      (gc_node (ex_call ''pe1'' False)) (gc_path (ex_call ''pe1'' False))"
  by (rule gets_as_if_dialled) simp_all

section \<open>Refreshes and scrapes\<close>

text \<open>
  The loop takes the lock, renders and stores the text under it, and releases it; a scrape
  reads the text under the same lock.
\<close>

record exporter =
  ex_out :: string
  ex_busy :: bool

datatype ex_label = Locked | Published string | Scraped string

inductive ex_step :: "exporter \<Rightarrow> ex_label \<Rightarrow> exporter \<Rightarrow> bool" where
  ex_lock: "\<not> ex_busy s \<Longrightarrow> ex_step s Locked (s\<lparr>ex_busy := True\<rparr>)"
| ex_publish: "ex_busy s \<Longrightarrow> ex_step s (Published t) (s\<lparr>ex_out := t, ex_busy := False\<rparr>)"
| ex_scrape: "\<not> ex_busy s \<Longrightarrow> ex_step s (Scraped (ex_out s)) s"

inductive ex_run :: "ex_label list \<Rightarrow> exporter \<Rightarrow> bool" where
  ex_nil: "ex_run [] \<lparr>ex_out = [], ex_busy = False\<rparr>"
| ex_snoc: "ex_run ls s \<Longrightarrow> ex_step s l s' \<Longrightarrow> ex_run (ls @ [l]) s'"

inductive_cases ex_scrapedE: "ex_step s (Scraped t) s'"

fun last_text :: "ex_label list \<Rightarrow> string" where
  "last_text [] = []"
| "last_text (Published t # ls) = t"
| "last_text (l # ls) = last_text ls"

fun refreshing :: "ex_label list \<Rightarrow> bool" where
  "refreshing [] = False"
| "refreshing (Locked # ls) = True"
| "refreshing (Published t # ls) = False"
| "refreshing (Scraped t # ls) = refreshing ls"

lemma ex_run_state: "ex_run ls s \<Longrightarrow> ex_out s = last_text (rev ls) \<and> ex_busy s = refreshing (rev ls)"
  by (induction rule: ex_run.induct) (auto elim: ex_step.cases)

text \<open>
  A scrape is whole and waits for it: every scrape gets the text of the last refresh that was
  completed before it (nothing before the first), never a part of one; and no scrape is
  answered while a refresh is under way.
\<close>

theorem scrapes_are_whole:
  assumes "ex_run (ls @ [Scraped t]) s"
  shows "t = last_text (rev ls) \<and> \<not> refreshing (rev ls)"
  using assms
proof cases
  case (ex_snoc ls' s' l)
  then have "ex_run ls s'" "ex_step s' (Scraped t) s" by simp_all
  then show ?thesis using ex_run_state [of ls s'] by (auto elim: ex_scrapedE)
qed simp

theorem scrapes_are_whole_witness:
  "''m 1'' = last_text (rev [Locked, Published ''m 1'']) \<and> \<not> refreshing (rev [Locked, Published ''m 1''])"
proof (rule scrapes_are_whole)
  let ?s0 = "\<lparr>ex_out = [], ex_busy = False\<rparr>"
  have "ex_run ([] @ [Locked]) (?s0\<lparr>ex_busy := True\<rparr>)" by (rule ex_run.ex_snoc [OF ex_nil ex_lock]) simp
  then have "ex_run (([] @ [Locked]) @ [Published ''m 1'']) (?s0\<lparr>ex_busy := True, ex_out := ''m 1'', ex_busy := False\<rparr>)"
    by (rule ex_run.ex_snoc) (rule ex_publish, simp)
  then have "ex_run [Locked, Published ''m 1''] \<lparr>ex_out = ''m 1'', ex_busy = False\<rparr>" by simp
  from ex_run.ex_snoc [OF this ex_scrape]
  show "ex_run ([Locked, Published ''m 1''] @ [Scraped ''m 1'']) \<lparr>ex_out = ''m 1'', ex_busy = False\<rparr>" by simp
qed

text \<open>
  The pauses: the path tracer counts its refresh into the interval, the topology does not.
\<close>

definition path_pause :: "duration \<Rightarrow> duration \<Rightarrow> duration" where
  "path_pause interval d = (if d < interval then interval - d else 0)"

definition topo_pause :: "duration \<Rightarrow> duration \<Rightarrow> duration" where
  "topo_pause interval d = (if 0 < interval then interval else 0)"

lemma path_period: "d + path_pause interval d = max interval d"
  by (simp add: path_pause_def)

section \<open>Loki\<close>

definition txns_url :: "string \<Rightarrow> time \<Rightarrow> string" where
  "txns_url base now =
     base @ ''/loki/api/v1/query_range?limit=200&direction=forward'' @
     ''&query='' @ urlQuery (''{job='' @ [CHR 0x22] @ ''frr-txn'' @ [CHR 0x22] @ ''}'') @
     ''&start='' @ sdec (wrap64 (now - 1800 * second)) @ ''&end='' @ sdec (wrap64 now)"

text \<open>
  \<^verbatim>\<open>fetchTxns\<close> up to the selection of its records: \<open>None\<close> without an answer or JSON, else the
  decoded log lines of all streams.
\<close>

definition fetchTxns ::
  "(string \<Rightarrow> string option) \<Rightarrow> (string \<Rightarrow> string list list option) \<Rightarrow> (string \<Rightarrow> txnRec option) \<Rightarrow> string \<Rightarrow> time \<Rightarrow>
   txnRec option list option" where
  "fetchTxns http decode_body decode_rec base now =
     (case http (txns_url base now) of
        None \<Rightarrow> None
      | Some body \<Rightarrow>
          (case decode_body body of
             None \<Rightarrow> None
           | Some streams \<Rightarrow> Some (concat (map (map decode_rec) streams))))"

section \<open>The copies\<close>

definition topo_addrPath :: gpath where
  "topo_addrPath =
     \<lparr>gp_target = [], gp_origin = ''openconfig'',
      gp_elem =
       [el ''interfaces'', elk ''interface'' [(''name'', ''*'')], el ''subinterfaces'',
        elk ''subinterface'' [(''index'', ''0'')], el ''ipv4'', el ''addresses'',
        elk ''address'' [(''ip'', ''*'')], el ''state'', el ''ip'']\<rparr>"

definition topo_dissect :: "gpath option \<Rightarrow> keys \<times> string" where
  "topo_dissect p =
     (case p of
        None \<Rightarrow> (Map.empty, [])
      | Some p \<Rightarrow>
          (foldl (\<lambda>m e. foldl (\<lambda>m (k, v). m(k \<mapsto> v)) m (pe_key e)) Map.empty (gp_elem p),
           foldl (\<lambda>leaf e. pe_name e) [] (gp_elem p)))"

fun topo_sval :: "typed_value \<Rightarrow> string" where
  "topo_sval (StringVal s) = s"
| "topo_sval (JsonIetfVal s) = trim_right (\<lambda>c. c = CHR 0x22) (trim_left (\<lambda>c. c = CHR 0x22) s)"
| "topo_sval (JsonVal s) = trim_right (\<lambda>c. c = CHR 0x22) (trim_left (\<lambda>c. c = CHR 0x22) s)"
| "topo_sval (UintVal u) = udec u"
| "topo_sval _ = []"

definition topo_client :: "inventory \<Rightarrow> (string \<Rightarrow> bool) \<Rightarrow> conns \<Rightarrow> string \<Rightarrow> string option \<times> conns" where
  "topo_client nodes dial cs node =
     (if cs node \<noteq> None then (cs node, cs)
      else
        let a = kget nodes node in
        if a = [] then (None, cs)
        else
          let a = (if \<not> contains_str a '':'' then a @ '':9339'' else a) in
          if \<not> dial a then (None, cs) else (Some a, cs(node \<mapsto> a)))"

definition topo_get :: "inventory \<Rightarrow> conns \<Rightarrow> get_call \<Rightarrow> update list \<times> conns" where
  "topo_get nodes cs c =
     (let (cl, cs') = topo_client nodes (gc_dial c) cs (gc_node c) in
      case cl of
        None \<Rightarrow> ([], cs')
      | Some a \<Rightarrow>
          (case gc_rpc c a (gc_path c) of
             None \<Rightarrow> ([], cs')
           | Some ns \<Rightarrow> (foldl (\<lambda>ups n. ups @ n_update n) [] ns, cs')))"

definition topo_buildIP2Node :: "(string \<Rightarrow> gpath \<Rightarrow> update list) \<Rightarrow> (string \<times> string) list \<Rightarrow> ip2node" where
  "topo_buildIP2Node get xs =
     foldl (\<lambda>m (node, a).
       foldl (\<lambda>m u.
         let ip = kget (fst (topo_dissect (Some (u_path u)))) ''ip'' in
         if ip = [] \<or> has_prefix ip ''127.'' \<or> has_prefix ip ''172.31.'' then m else m(ip \<mapsto> node))
         m (get node topo_addrPath))
       Map.empty xs"

lemma topo_dissect_eq: "topo_dissect (Some p) = dissect p"
proof -
  have "foldl dissect_elem (m, l) es =
      (foldl (\<lambda>m e. foldl (\<lambda>m (k, v). m(k \<mapsto> v)) m (pe_key e)) m es, foldl (\<lambda>leaf e. pe_name e) l es)" for m l es
    by (induction es arbitrary: m l) (simp_all add: dissect_elem_def)
  then show ?thesis by (simp add: topo_dissect_def dissect_def)
qed

lemma topo_client_eq: "topo_client = client"
  by (simp add: fun_eq_iff topo_client_def client_def kget_def Let_def split: option.split)

lemma concat_fold: "foldl (\<lambda>ups n. ups @ n_update n) acc ns = acc @ concat (map n_update ns)"
  by (induction ns arbitrary: acc) simp_all

lemma index_byte_nil: "index_byte [] c = None"
  by simp

lemma copies:
  "topo_parseInventory s = parseInventory s" "agg_parseInventory s = parseInventory s"
  "topo_dissect (Some p) = dissect p" "topo_sval v = sval v" "topo_addrPath = addrPath"
  "topo_get nodes cs c = cached_get nodes cs c"
  "topo_buildIP2Node (gnmi_get nodes net) xs = buildIP2Node nodes net xs"
proof -
  have add: "add_node = (\<lambda>m kv0. let kv = trim_space kv0 in
        if kv = [] then m
        else case index_byte kv CHR ''='' of None \<Rightarrow> m | Some i \<Rightarrow> if 0 < i then m(take i kv \<mapsto> drop (i + 1) kv) else m)"
    by (simp add: fun_eq_iff add_node_def Let_def split: option.split)
  show "topo_parseInventory s = parseInventory s"
    unfolding topo_parseInventory_def parseInventory_def add by (rule refl)
  have "add_node = (\<lambda>m kv0. let kv = trim_space kv0 in
        case index_byte kv CHR ''='' of None \<Rightarrow> m | Some i \<Rightarrow> if 0 < i then m(take i kv \<mapsto> drop (i + 1) kv) else m)"
    by (simp add: fun_eq_iff add_node_def Let_def split: option.split)
  then show "agg_parseInventory s = parseInventory s"
    unfolding agg_parseInventory_def parseInventory_def by simp
  show "topo_dissect (Some p) = dissect p" by (rule topo_dissect_eq)
  show "topo_sval v = sval v" by (cases v) (simp_all add: sval_def unquote_def)
  show path: "topo_addrPath = addrPath" by (simp add: topo_addrPath_def addrPath_def oc_path_def)
  show "topo_get nodes cs c = cached_get nodes cs c"
    by (simp add: topo_get_def topo_client_eq cached_get_def concat_fold Let_def split: prod.split option.split)
  have "add_addr node = (\<lambda>m u. let ip = kget (fst (topo_dissect (Some (u_path u)))) ''ip'' in
      if ip = [] \<or> has_prefix ip ''127.'' \<or> has_prefix ip ''172.31.'' then m else m(ip \<mapsto> node))" for node
    by (simp add: fun_eq_iff add_addr_def topo_dissect_eq)
  then show "topo_buildIP2Node (gnmi_get nodes net) xs = buildIP2Node nodes net xs"
    unfolding topo_buildIP2Node_def buildIP2Node_def path by simp
qed

text \<open>
  The copies agree: the topology's client, queries and decoding are those of the path tracer, and
  the three programs read the same inventory out of the same text, though the aggregator's
  parser has no case for an empty part.
\<close>

theorem copies_agree:
  "topo_parseInventory s = parseInventory s \<and> agg_parseInventory s = parseInventory s \<and>
   topo_dissect (Some p) = dissect p \<and> topo_sval v = sval v \<and> topo_addrPath = addrPath \<and>
   topo_get nodes cs c = cached_get nodes cs c \<and>
   topo_buildIP2Node (gnmi_get nodes net) xs = buildIP2Node nodes net xs"
  by (intro conjI copies)

end
