(* ===== verification/Subtest.thy ===== *)
theory Subtest
  imports IndexPath Serving
begin

text \<open>
  \<^verbatim>\<open>cmd/subtest/main.go\<close>: the subscription client for the command line.  What the
  stream delivers is the list of its responses up to the error \<^verbatim>\<open>Recv\<close> ends with (the
  server closes, or the 30 s of the context are over); what it prints is the list of the lines.
  Parameters are the order \<open>ord\<close> in which Go iterates the keys of a path element and the
  rendering \<open>other\<close> of a value that is no string and no integer (\<^verbatim>\<open>%v\<close> of a
  protobuf struct).
\<close>

section \<open>The client\<close>

text \<open>A path typed on the command line.\<close>

definition parsePath :: "string \<Rightarrow> path_elem list" where
  "parsePath s = map el (filter (\<lambda>part. part \<noteq> []) (split_on CHR ''/'' s))"

definition prefixElems :: "gpath option \<Rightarrow> path_elem list" where
  "prefixElems p = (case p of None \<Rightarrow> [] | Some p \<Rightarrow> gp_elem p)"

definition elemStr :: "((string \<times> string) list \<Rightarrow> (string \<times> string) list) \<Rightarrow> path_elem \<Rightarrow> string" where
  "elemStr ord e = ''/'' @ pe_name e @ concat (map (\<lambda>(k, v). ''['' @ k @ ''='' @ v @ '']'') (ord (pe_key e)))"

definition pathStr ::
  "((string \<times> string) list \<Rightarrow> (string \<times> string) list) \<Rightarrow> gpath option \<Rightarrow> gpath option \<Rightarrow> string" where
  "pathStr ord pre p =
     (case pre of None \<Rightarrow> [] | Some q \<Rightarrow> if gp_origin q \<noteq> [] then gp_origin q @ '':'' else []) @
     concat (map (elemStr ord) (prefixElems pre @ prefixElems p))"

definition valStr :: "(typed_value \<Rightarrow> string) \<Rightarrow> typed_value option \<Rightarrow> string" where
  "valStr other v =
     (case v of
        None \<Rightarrow> ''<nil>''
      | Some (StringVal s) \<Rightarrow> s
      | Some (UintVal u) \<Rightarrow> udec u
      | Some (IntVal i) \<Rightarrow> sdec i
      | Some x \<Rightarrow> other x)"

text \<open>The messages: pointers may be nil.\<close>

record sub_update =
  su_prefix :: "gpath option"
  su_update :: "(gpath option \<times> typed_value option) list"
  su_delete :: "gpath option list"

datatype response = SubUpdate sub_update | SyncResponse | OtherResponse

datatype sub_mode = STREAM | ONCE

record sub_request =
  sr_prefix :: gpath
  sr_mode :: sub_mode
  sr_paths :: "path_elem list list"

definition subtest_request :: "string \<Rightarrow> string \<Rightarrow> string \<Rightarrow> bool \<Rightarrow> sub_request" where
  "subtest_request target origin path once =
     \<lparr>sr_prefix = \<lparr>gp_target = target, gp_origin = origin, gp_elem = []\<rparr>,
      sr_mode = (if once then ONCE else STREAM), sr_paths = [parsePath path]\<rparr>"

text \<open>The local variables of the loop and what it has printed.\<close>

record session =
  se_updates :: nat
  se_deletes :: nat
  se_out :: "string list"

definition session_start :: session where
  "session_start = \<lparr>se_updates = 0, se_deletes = 0, se_out = []\<rparr>"

definition print_update ::
  "((string \<times> string) list \<Rightarrow> (string \<times> string) list) \<Rightarrow> (typed_value \<Rightarrow> string) \<Rightarrow> gpath option \<Rightarrow>
   session \<Rightarrow> gpath option \<times> typed_value option \<Rightarrow> session" where
  "print_update ord other pre s u =
     s\<lparr>se_updates := Suc (se_updates s),
       se_out := se_out s @ [''UPDATE '' @ pathStr ord pre (fst u) @ '' = '' @ valStr other (snd u)]\<rparr>"

definition print_delete ::
  "((string \<times> string) list \<Rightarrow> (string \<times> string) list) \<Rightarrow> gpath option \<Rightarrow> session \<Rightarrow> gpath option \<Rightarrow> session" where
  "print_delete ord pre s d =
     s\<lparr>se_deletes := Suc (se_deletes s), se_out := se_out s @ [''DELETE '' @ pathStr ord pre d]\<rparr>"

definition sync_line :: "nat \<Rightarrow> nat \<Rightarrow> string" where
  "sync_line u d = ''--- sync_response (updates='' @ dec u @ '' deletes='' @ dec d @ '') ---''"

fun subtest_loop ::
  "((string \<times> string) list \<Rightarrow> (string \<times> string) list) \<Rightarrow> (typed_value \<Rightarrow> string) \<Rightarrow> bool \<Rightarrow>
   response list \<Rightarrow> session \<Rightarrow> session" where
  "subtest_loop ord other once [] s = s"
| "subtest_loop ord other once (SubUpdate m # rs) s =
     subtest_loop ord other once rs
       (foldl (print_delete ord (su_prefix m)) (foldl (print_update ord other (su_prefix m)) s (su_update m)) (su_delete m))"
| "subtest_loop ord other once (SyncResponse # rs) s =
     (let s' = s\<lparr>se_out := se_out s @ [sync_line (se_updates s) (se_deletes s)]\<rparr> in
      if once then s' else subtest_loop ord other once rs s')"
| "subtest_loop ord other once (OtherResponse # rs) s = subtest_loop ord other once rs s"

section \<open>Paths\<close>

lemma split_on_append: "split_on c (s @ c # t) = split_on c s @ split_on c t"
  by (induction c s rule: split_on.induct) (auto split: list.split)

lemma parsePath_append: "parsePath (s @ CHR ''/'' # t) = parsePath s @ parsePath t"
  by (simp add: parsePath_def split_on_append)

lemma parsePath_name: "CHR ''/'' \<notin> set n \<Longrightarrow> parsePath n = (if n = [] then [] else [el n])"
  by (simp add: parsePath_def split_on_no_sep)

lemma parsePath_slash: "parsePath (CHR ''/'' # t) = parsePath t"
  using parsePath_append [of "[]" t] by (simp add: parsePath_name)

lemma parsePath_names:
  "\<forall>n \<in> set ns. n \<noteq> [] \<and> CHR ''/'' \<notin> set n \<Longrightarrow> parsePath (concat (map (\<lambda>n. CHR ''/'' # n) ns)) = map el ns"
proof (induction ns)
  case (Cons n ns)
  then show ?case
    by (cases ns) (simp_all add: parsePath_slash parsePath_name parsePath_append)
qed (simp add: parsePath_name)

text \<open>
  Paths come back as they were printed: the client parses the text of a path without keys, as it
  prints it, to that path; and it parses a text part by part, so that slashes before, after and
  between the names make no difference.
\<close>

theorem subtest_path_roundtrip:
  assumes "\<forall>n \<in> set ns. n \<noteq> [] \<and> CHR ''/'' \<notin> set n" and "ord [] = []"
  shows "parsePath (pathStr ord None (Some (path_of (map el ns)))) = map el ns \<and>
    parsePath (s @ CHR ''/'' # t) = parsePath s @ parsePath t"
proof -
  have "elemStr ord \<circ> el = (\<lambda>n. CHR ''/'' # n)" using assms(2) by (simp add: fun_eq_iff elemStr_def)
  then have "parsePath (concat (map (elemStr ord) (map el ns))) = map el ns" using parsePath_names assms(1) by simp
  then show ?thesis by (simp add: pathStr_def prefixElems_def parsePath_append)
qed

theorem subtest_path_roundtrip_witness:
  "parsePath (pathStr (\<lambda>ks. ks) None (Some (path_of (map el [''interfaces'', ''interface''])))) =
     map el [''interfaces'', ''interface''] \<and>
   parsePath (''lldp/'' @ CHR ''/'' # ''state'') = parsePath ''lldp/'' @ parsePath ''state''"
  by (rule subtest_path_roundtrip) simp_all

section \<open>What a session prints\<close>

text \<open>The lines of a response, and how many of each kind it has.\<close>

definition update_lines ::
  "((string \<times> string) list \<Rightarrow> (string \<times> string) list) \<Rightarrow> (typed_value \<Rightarrow> string) \<Rightarrow> sub_update \<Rightarrow> string list" where
  "update_lines ord other m =
     map (\<lambda>(p, v). ''UPDATE '' @ pathStr ord (su_prefix m) p @ '' = '' @ valStr other v) (su_update m) @
     map (\<lambda>p. ''DELETE '' @ pathStr ord (su_prefix m) p) (su_delete m)"

definition updates_in :: "response list \<Rightarrow> nat" where
  "updates_in rs = sum_list (map (\<lambda>r. case r of SubUpdate m \<Rightarrow> length (su_update m) | _ \<Rightarrow> 0) rs)"

definition deletes_in :: "response list \<Rightarrow> nat" where
  "deletes_in rs = sum_list (map (\<lambda>r. case r of SubUpdate m \<Rightarrow> length (su_delete m) | _ \<Rightarrow> 0) rs)"

lemma print_updates:
  "foldl (print_update ord other pre) s us =
     s\<lparr>se_updates := se_updates s + length us,
       se_out := se_out s @ map (\<lambda>(p, v). ''UPDATE '' @ pathStr ord pre p @ '' = '' @ valStr other v) us\<rparr>"
  by (induction us arbitrary: s) (auto simp: print_update_def)

lemma print_deletes:
  "foldl (print_delete ord pre) s ds =
     s\<lparr>se_deletes := se_deletes s + length ds,
       se_out := se_out s @ map (\<lambda>p. ''DELETE '' @ pathStr ord pre p) ds\<rparr>"
  by (induction ds arbitrary: s) (auto simp: print_delete_def)

text \<open>Before a synchronisation, a session prints every update and every delete.\<close>

lemma loop_updates:
  "SyncResponse \<notin> set rs \<Longrightarrow> subtest_loop ord other once (rs @ qs) s =
     subtest_loop ord other once qs
       (s\<lparr>se_updates := se_updates s + updates_in rs, se_deletes := se_deletes s + deletes_in rs,
         se_out := se_out s @ concat (map (\<lambda>r. case r of SubUpdate m \<Rightarrow> update_lines ord other m | _ \<Rightarrow> []) rs)\<rparr>)"
proof (induction rs arbitrary: s)
  case (Cons r rs)
  then show ?case
    by (cases r) (simp_all add: updates_in_def deletes_in_def update_lines_def print_updates print_deletes add.assoc)
qed (simp add: updates_in_def deletes_in_def)

lemma once_session:
  assumes "SyncResponse \<notin> set rs"
  shows "se_out (subtest_loop ord other True (rs @ SyncResponse # qs) session_start) =
    concat (map (\<lambda>r. case r of SubUpdate m \<Rightarrow> update_lines ord other m | _ \<Rightarrow> []) rs) @
    [sync_line (updates_in rs) (deletes_in rs)]"
  by (simp add: loop_updates [OF assms] session_start_def)

text \<open>
  The contract of a ONCE subscription: the responses of the server to a request for a path,
  over the leaves of its tree under that path, each once and then the synchronisation.
\<close>

definition leaf_of :: "gpath option \<Rightarrow> gpath option \<times> typed_value option \<Rightarrow> (string \<times> path_elem list) \<times> typed_value option" where
  "leaf_of pre u = (((case pre of None \<Rightarrow> [] | Some q \<Rightarrow> gp_origin q), prefixElems pre @ prefixElems (fst u)), snd u)"

definition leaves_of :: "response list \<Rightarrow> ((string \<times> path_elem list) \<times> typed_value option) list" where
  "leaves_of rs =
     concat (map (\<lambda>r. case r of SubUpdate m \<Rightarrow> map (leaf_of (su_prefix m)) (su_update m) | _ \<Rightarrow> []) rs)"

definition once_answer :: "tree \<Rightarrow> sub_request \<Rightarrow> response list \<Rightarrow> bool" where
  "once_answer t q rs \<longleftrightarrow>
     SyncResponse \<notin> set rs \<and> deletes_in rs = 0 \<and> distinct (leaves_of rs) \<and>
     set (leaves_of rs) = {((org, p), v). \<exists>x. v = Some x \<and> t (org, p) = Some x \<and>
       (\<exists>es \<in> set (sr_paths q). glob (index_of (gp_origin (sr_prefix q)) es) (index_of org p))}"

text \<open>The line of a leaf.\<close>

definition leaf_line ::
  "((string \<times> string) list \<Rightarrow> (string \<times> string) list) \<Rightarrow> (typed_value \<Rightarrow> string) \<Rightarrow>
   string \<Rightarrow> path_elem list \<Rightarrow> typed_value \<Rightarrow> string" where
  "leaf_line ord other org p v =
     ''UPDATE '' @ (if org \<noteq> [] then org @ '':'' else []) @ concat (map (elemStr ord) p) @ '' = '' @ valStr other (Some v)"

lemma all_some: "\<forall>l \<in> set xs. snd l \<noteq> None \<Longrightarrow> \<exists>ls. xs = map (\<lambda>(k, v). (k, Some v)) ls"
proof (induction xs)
  case (Cons x xs)
  then obtain ls v where "xs = map (\<lambda>(k, v). (k, Some v)) ls" "x = (fst x, Some v)" by (cases x) auto
  then have "x # xs = map (\<lambda>(k, v). (k, Some v)) ((fst x, v) # ls)" by simp
  then show ?case by (rule exI)
qed simp

lemma some_set: "(k, Some v) \<in> set (map (\<lambda>(k, v). (k, Some v)) ls) \<longleftrightarrow> (k, v) \<in> set ls"
  by (induction ls) auto

lemma leaf_lines:
  "concat (map (\<lambda>r. case r of SubUpdate m \<Rightarrow> update_lines ord other m | _ \<Rightarrow> []) rs) =
     map (\<lambda>((org, p), v). ''UPDATE '' @ (if org \<noteq> [] then org @ '':'' else []) @ concat (map (elemStr ord) p) @
       '' = '' @ valStr other v) (leaves_of rs)"
  if "deletes_in rs = 0"
  using that
proof (induction rs)
  case (Cons r rs)
  then have IH: "concat (map (\<lambda>r. case r of SubUpdate m \<Rightarrow> update_lines ord other m | _ \<Rightarrow> []) rs) =
     map (\<lambda>((org, p), v). ''UPDATE '' @ (if org \<noteq> [] then org @ '':'' else []) @ concat (map (elemStr ord) p) @
       '' = '' @ valStr other v) (leaves_of rs)" and d: "\<And>m. r = SubUpdate m \<Longrightarrow> su_delete m = []"
    by (simp_all add: deletes_in_def)
  show ?case
  proof (cases r)
    case (SubUpdate m)
    then have "su_delete m = []" by (rule d)
    then have "update_lines ord other m = map (\<lambda>((org, p), v). ''UPDATE '' @ (if org \<noteq> [] then org @ '':'' else []) @
        concat (map (elemStr ord) p) @ '' = '' @ valStr other v) (map (leaf_of (su_prefix m)) (su_update m))"
      by (auto simp: update_lines_def leaf_of_def pathStr_def split: option.split)
    then show ?thesis using IH by (simp add: SubUpdate leaves_of_def)
  qed (use IH in \<open>simp_all add: leaves_of_def\<close>)
qed (simp add: leaves_of_def)

lemma updates_length: "updates_in rs = length (leaves_of rs)"
  by (induction rs) (auto simp: updates_in_def leaves_of_def split: response.split)

text \<open>
  C29. What the test client shows is the tree: a ONCE session against a server that answers with the
  leaves under the requested path prints one line for each of them with its origin, path and
  value, and no other, then one line with their number and no deletes, and ends, whatever the
  server sends after.
\<close>

theorem subtest_prints_leaves:
  assumes "once_answer t (subtest_request target origin path True) rs"
    and "out = se_out (subtest_loop ord other True (rs @ SyncResponse # qs) session_start)"
  shows "\<exists>ls. out = map (\<lambda>((org, p), v). leaf_line ord other org p v) ls @ [sync_line (length ls) 0] \<and> distinct ls \<and>
    set ls = {((org, p), v). t (org, p) = Some v \<and> glob (index_of origin (parsePath path)) (index_of org p)}"
proof -
  let ?q = "subtest_request target origin path True"
  have ok: "SyncResponse \<notin> set rs" "deletes_in rs = 0" "distinct (leaves_of rs)"
    and leaves: "set (leaves_of rs) = {((org, p), v). \<exists>x. v = Some x \<and> t (org, p) = Some x \<and> glob (index_of origin (parsePath path)) (index_of org p)}"
    using assms(1) by (simp_all add: once_answer_def subtest_request_def)
  have "\<forall>l \<in> set (leaves_of rs). snd l \<noteq> None" unfolding leaves by auto
  from all_some [OF this] obtain ls where vals: "leaves_of rs = map (\<lambda>(k, v). (k, Some v)) ls" by blast
  have "out = map (\<lambda>((org, p), v). leaf_line ord other org p v) ls @ [sync_line (length ls) 0]"
    unfolding assms(2) once_session [OF ok(1)] leaf_lines [OF ok(2)] ok(2) updates_length
    by (simp add: vals leaf_line_def split_beta comp_def)
  moreover have "distinct ls" using ok(3) unfolding vals by (simp add: distinct_map)
  moreover have "((org, p), v) \<in> set ls \<longleftrightarrow> ((org, p), Some v) \<in> set (leaves_of rs)" for org p v
    unfolding vals some_set by (rule refl)
  then have "((org, p), v) \<in> set ls \<longleftrightarrow> t (org, p) = Some v \<and> glob (index_of origin (parsePath path)) (index_of org p)" for org p v
    unfolding leaves by simp
  then have "x \<in> set ls \<longleftrightarrow> x \<in> {((org, p), v). t (org, p) = Some v \<and> glob (index_of origin (parsePath path)) (index_of org p)}" for x
    by (cases x; cases "fst x") simp
  then have "set ls = {((org, p), v). t (org, p) = Some v \<and> glob (index_of origin (parsePath path)) (index_of org p)}" by (rule set_eqI)
  ultimately show ?thesis by (intro exI [of _ ls] conjI)
qed

section \<open>Witness\<close>

definition st_answer :: "response list" where
  "st_answer = [SubUpdate \<lparr>su_prefix = Some \<lparr>gp_target = ''frr'', gp_origin = ''openconfig'', gp_elem = []\<rparr>,
     su_update = [(Some (path_of (addrElems ''eth0'' ''10.0.0.2'' ''ip'')), Some (StringVal ''10.0.0.2''))], su_delete = []\<rparr>]"

definition st_tree :: tree where
  "st_tree = [(''openconfig'', addrElems ''eth0'' ''10.0.0.2'' ''ip'') \<mapsto> StringVal ''10.0.0.2'',
     (''openconfig'', ospfNbrElems ''pe1-p1'' ''10.0.0.9'' ''adjacency-state'') \<mapsto> StringVal ''FULL'']"

abbreviation st_addr :: "path_elem list" where
  "st_addr \<equiv> addrElems ''eth0'' ''10.0.0.2'' ''ip''"

abbreviation st_nbr :: "path_elem list" where
  "st_nbr \<equiv> ospfNbrElems ''pe1-p1'' ''10.0.0.9'' ''adjacency-state''"

abbreviation st_query :: "string list" where
  "st_query \<equiv> index_of ''openconfig'' [el ''interfaces'', el ''interface'']"

lemma st_glob: "glob st_query (index_of ''openconfig'' st_addr)" "\<not> glob st_query (index_of ''openconfig'' st_nbr)"
  by (simp_all add: addrElems_def ospfNbrElems_def with_leaf_def)

lemma st_distinct: "st_addr \<noteq> st_nbr"
  by (simp add: addrElems_def ospfNbrElems_def with_leaf_def)

lemma st_leaves: "st_tree (org, p) = Some x \<longleftrightarrow>
    org = ''openconfig'' \<and> (p = st_nbr \<and> x = StringVal ''FULL'' \<or> p = st_addr \<and> x = StringVal ''10.0.0.2'')"
  unfolding st_tree_def using st_distinct by (cases "p = st_nbr"; cases "p = st_addr") (auto simp del: fun_upd_apply simp: fun_upd_def)

lemma st_found: "st_tree (org, p) = Some x \<and> glob st_query (index_of org p) \<longleftrightarrow>
    org = ''openconfig'' \<and> p = st_addr \<and> x = StringVal ''10.0.0.2''"
  unfolding st_leaves using st_glob by blast

lemma st_sent: "leaves_of st_answer = [((''openconfig'', st_addr), Some (StringVal ''10.0.0.2''))]"
  by (simp add: st_answer_def leaves_of_def leaf_of_def prefixElems_def)

lemma st_parse: "parsePath ''interfaces/interface'' = [el ''interfaces'', el ''interface'']"
  by code_simp

lemma st_once: "once_answer st_tree (subtest_request ''frr'' ''openconfig'' ''interfaces/interface'' True) st_answer"
proof -
  have "SyncResponse \<notin> set st_answer" "deletes_in st_answer = 0" by (simp_all add: st_answer_def deletes_in_def)
  moreover have "set (leaves_of st_answer) =
      {((org, p), v). \<exists>x. v = Some x \<and> st_tree (org, p) = Some x \<and> glob st_query (index_of org p)}"
    unfolding st_found st_sent by auto
  moreover have "distinct (leaves_of st_answer)" unfolding st_sent by simp
  ultimately show ?thesis unfolding once_answer_def subtest_request_def st_parse by simp
qed

theorem subtest_prints_leaves_witness:
  "\<exists>ls. se_out (subtest_loop (\<lambda>ks. ks) (\<lambda>_. []) True (st_answer @ SyncResponse # [OtherResponse]) session_start) =
       map (\<lambda>((org, p), v). leaf_line (\<lambda>ks. ks) (\<lambda>_. []) org p v) ls @ [sync_line (length ls) 0] \<and> distinct ls \<and>
     set ls = {((org, p), v). st_tree (org, p) = Some v \<and>
       glob (index_of ''openconfig'' (parsePath ''interfaces/interface'')) (index_of org p)}"
  by (rule subtest_prints_leaves [OF st_once refl])

end
