(* ===== verification/Spec2Isabelle.thy ===== *)
theory Spec2Isabelle
  imports ShimBgp ShimLoops ShimLfib Distributed Exporter Subtest
begin

text \<open>
  \<^bold>\<open>frr-visible\<close> makes the state of an FRR router visible.  On every node a \<^emph>\<open>shim\<close>
  (\<^verbatim>\<open>cmd/frr-visible\<close>) listens to the planes of the router (zebra's forwarding-plane
  messages, bgpd's BMP session, the kernel's netlink groups, OSPF and LLDP neighbours, the
  cgroup of the container), writes what it learns as leaves into a gNMI tree, joins the
  testimonies of the planes per prefix (the \<^emph>\<open>lineage tracker\<close>), and folds the events of all
  planes into convergence traces (the \<^emph>\<open>correlator\<close>).  Beside the shims run three collectors:
  the \<^emph>\<open>path-trace exporter\<close> walks flows through the tables the nodes serve, the \<^emph>\<open>topology
  exporter\<close> draws the adjacencies of all layers, and the \<^emph>\<open>trace aggregator\<close> stitches the
  traces of all nodes into distributed traces, attributes them to configuration transactions
  and exports them.

  \<^bold>\<open>Theories and sources.\<close>  A theory models one file; its definitions carry the names of the
  Go functions.
  \<^item> \<open>GoBase\<close>, \<open>GoStrings\<close>, \<open>NetIP\<close>, \<open>NetParse\<close>, \<open>Sha256\<close>: the parts of Go and of its standard
    library in use (slices with their bounds checks, \<^verbatim>\<open>encoding/binary\<close>, \<^verbatim>\<open>strconv\<close>,
    \<^verbatim>\<open>strings\<close>, \<^verbatim>\<open>time\<close>, \<^verbatim>\<open>net\<close>, \<^verbatim>\<open>crypto/sha256\<close>).
  \<^item> \<open>Simulation\<close>, \<open>Channel\<close>, \<open>Wire\<close>, \<open>Reconcile\<close>: the contracts several components share, as
    locales: an invariant or a refinement lifted from a step to a run, the channel with a
    non-blocking send, the loops that walk a byte string item by item or frame by frame, the
    reconcile round that deletes what it no longer sees.  Each is interpreted on the model's own
    definitions, in the theory of the component that provides them.
  \<^item> \<open>Lineage\<close> (\<^verbatim>\<open>internal/lineage\<close>), \<open>Correlate\<close> (\<^verbatim>\<open>internal/correlate\<close>),
    \<open>GnmiTree\<close> (\<^verbatim>\<open>internal/state\<close>), \<open>GnmiServer\<close> (\<^verbatim>\<open>internal/gnmiserver\<close>).
  \<^item> \<open>VrfResolver\<close>, \<open>FpmIngest\<close>, \<open>BmpIngest\<close>, \<open>NetlinkIngest\<close>, \<open>OspfIngest\<close>, \<open>LldpIngest\<close>,
    \<open>CgroupIngest\<close> (the files of \<^verbatim>\<open>internal/ingest\<close>); \<open>FpmSpec\<close>, \<open>BmpSpec\<close> and
    \<open>BmpRoutes\<close> hold what the two collectors promise.  \<open>Effects\<close> is what an ingester does to
    the rest of the shim.
  \<^item> \<open>Planes\<close> and \<open>Shim\<close> (\<^verbatim>\<open>cmd/frr-visible\<close>): the schema of the leaves, which plane may write
    what, and the running process, all its goroutines as one step relation; \<open>ShimBgp\<close> and
    \<open>ShimLoops\<close> follow bgpd's session, the kernel's routes and the OSPF worker through it, as
    interpretations of the locale \<open>collector\<close> of \<open>Shim\<close>, and \<open>ShimLfib\<close> the kernel's MPLS
    dumps, up to the path tracer's lookup.
  \<^item> \<open>GnmiClient\<close> and \<open>Pathtrace\<close> (\<^verbatim>\<open>cmd/pathtrace-exporter\<close>), \<open>Topology\<close>
    (\<^verbatim>\<open>cmd/topology-exporter\<close>), \<open>Aggregator\<close> (\<^verbatim>\<open>cmd/trace-aggregator\<close>), \<open>Subtest\<close>
    (\<^verbatim>\<open>cmd/subtest\<close>); \<open>Exposition\<close> holds the metrics text of the two exporters and the
    rules it is read by, \<open>Exporter\<close> the start-up, loops, locks and connections of the three.
  \<^item> \<open>IndexPath\<close>, \<open>Serving\<close>, \<open>ServedGet\<close>, \<open>ServedFib\<close>, \<open>ServedLfib\<close>, \<open>ServedNodes\<close> and
    \<open>Distributed\<close>: the two ends of the interfaces together, the gNMI tree for the topology and
    the path trace, the HTTP pages for the aggregator.
  \<^item> This theory: what connects the ingesters, the tracker, the correlator and the OSPF trigger.

  \<^bold>\<open>State.\<close>  A struct is a record and a handler is a function from the state to the new state and
  the list of its effects, in program order.  A Go map is a function to \<open>option\<close>; where the code
  iterates over one, the iteration order is an argument, any list that \<open>enumerates\<close> the map, and
  so is the result of a sort that is not stable.  Panics are \<open>None\<close>: no goroutine of the program
  recovers, so that a panic ends the process.  Machine integers have their width, durations and
  64-bit offsets wrap where the code's arithmetic does.

  \<^bold>\<open>Concurrency.\<close>  A running shim is a state of \<open>node\<close>: the shared tree, tracker, correlator and
  trigger, each ingester's own state, and for each goroutine the effects it has worked out and
  not yet performed.  A step of \<open>node_step\<close> is one input of one goroutine, or one effect, or a
  pass, or a turn of the correlator, so that everything the mutexes of the code allow to happen
  in between can happen in between.  Steps carry labels, the history the properties speak of;
  \<open>node_run\<close> is any finite run from the start-up of \<^verbatim>\<open>main\<close>.

  \<^bold>\<open>What the lemmas show.\<close>
  \<^item> The collectors read the wire.  Sessions are byte strings, built from an abstract syntax of
    the messages (\<open>kmsg\<close> in \<open>FpmSpec\<close>, \<open>bmsg\<close> in \<open>BmpRoutes\<close>): Netlink routes and next-hop
    objects with any header fields, each attribute that the collector reads there or not, in any
    order and among any others; BGP UPDATEs under any per-peer header, with any path attributes
    beside the multiprotocol ones and the extended communities; and messages of any other type.
    A session leaves exactly the FIB and RIB in the tree that a small machine on that syntax
    computes (\<open>fpm_session_fib\<close>, \<open>bmp_session_rib\<close>), a Peer Up names its instance, and the
    inputs that make a collector panic are characterised.
  \<^item> They do so in the running shim, whatever the rest of it does: \<open>running_shim_fib\<close>,
    \<open>running_shim_rib\<close>, \<open>running_shim_kernel_fib\<close>, \<open>running_shim_ospf\<close>.  The tree is always
    well-typed, the planes do not interfere, no leaf gets in another's way in the cache, the
    lineage page shows each plane's own last word, and every trace is made of events that were
    emitted.
  \<^item> The tracker refines the map from prefix and plane to the last word of that plane; over any
    run of observations and passes, a pass reports the gaps that are due, all of them and each
    once, until the kernel confirms the prefix; an install that fails becomes a root event of the
    correlator, whose traces are made of the events received, in their order, without gaps above
    the window.
  \<^item> The reconcile loops keep their subtree equal to the last reading that succeeded, for rounds
    that do not overlap and neighbours that do not change the sub-identifier in their path; the
    theorems about stranded neighbours show that these conditions are needed.
  \<^item> From the shims to the exporters: a Get answers each of their queries with exactly the leaves
    it selects (\<open>get_serves_tree\<close>), so that over a network of running shims a flow is reported
    as reached exactly when forwarding by the tables the nodes hold gets there
    (\<open>trace_is_forwarding\<close>), within 25 hops, and a label lookup answers with the last route any
    dump had for the label (\<open>trace_sees_running_lfib\<close>); an adjacency in the trees becomes an
    edge; the text of a scrape whose values are printable ASCII reads back, line by line, as the
    samples of the refresh; the cache of connections changes no answer.
  \<^item> The aggregator: every span of a distributed trace is an event some shim emitted
    (\<open>distributed_spans_happened\<close>); grouping and merging keep every span, in one timeline with
    non-negative offsets; a trace is attributed to the latest eligible transaction; an id is
    exported once; the exported spans tile the timeline without wrap-around.
  \<^item> Where the code does not do what it means to, a theorem shows it: \<open>other_vrf_masks_install_failure\<close>,
    \<open>withdraw_label_leaves_route\<close>, \<open>lldp_race_strands_neighbor\<close>, \<open>connected_destination_dropped\<close>,
    \<open>shared_prefix_mixes_vrfs\<close>, \<open>late_trace_new_seed\<close>, \<open>families_interleave\<close>, \<open>tab_misread\<close>
    and others named beside them.

  \<^bold>\<open>Bounds.\<close>  No fuel is used: loops over input recurse on the input or on a measure, and the
  loops the code bounds itself (four levels of next-hop groups, 24 turns of a trace, 50 traces
  in the ring) keep the code's number as the model's.

  \<^bold>\<open>Parameters.\<close>  What is not in the repository is an argument: the OpenConfig cache with its
  query, of which \<open>ServedGet\<close> and \<open>Subtest\<close> assume what its documentation says (a path's index
  strings, the leaves a query visits; what an update does to the leaves is the meaning of a gNMI
  notification, \<open>put_tree\<close>, without the library's rejection of updates older than the leaf), the decoded structures and dumps of the netlink library,
  the outcome of a dial, a Get, an HTTP request or a post, the text of files, the encoding and
  decoding of JSON, \<^verbatim>\<open>time.ParseDuration\<close>, the text of floating-point numbers
  (\<^verbatim>\<open>%g\<close>), which wide runes \<^verbatim>\<open>%q\<close> takes to be printable, the clock and the
  time format of a location.

  \<^bold>\<open>Not modelled.\<close>  Command-line flags, log output, the sockets and child processes behind the
  inputs, and \<^verbatim>\<open>net.Listen\<close>; the JSON text of the pages and of the commands' output; gRPC
  and the streaming of Subscribe, which is the OpenConfig library's (the repository's part is
  the target default); allocation failure, so also the buffer of up to 4 GB a BMP header can ask
  for.

  \<^bold>\<open>Left open.\<close>  The two goroutines of the LLDP ingester race (\<open>lldp_race_strands_neighbor\<close>), so
  no theorem of the running shim is stated for its subtree beyond its type and region.  A trace
  and a refresh ask the nodes one after the other; that their trees stay as they are meanwhile
  is assumed.
\<close>

section \<open>Restart detection\<close>

lemma fpm_frame_out: "fpm_frame env (f, n, out) ty body = Some (f', n', out') \<Longrightarrow> \<exists>es. out' = out @ es"
  by (auto simp: fpm_frame_def split: if_splits)

lemma bmp_frame_out: "bmp_frame env (b, n, out) ty body = Some (b', n', out') \<Longrightarrow> \<exists>es. out' = out @ es"
  by (auto simp: bmp_frame_def split: if_splits)

text \<open>What a connection has done so far it never undoes.\<close>

lemma fpm_handle_out:
  assumes "fpm_handle env (f, n, out) str = Some (f', n', out')"
  shows "\<exists>es. out' = out @ es"
proof -
  have "\<exists>es. snd (snd (f', n', out')) = out @ es"
  proof (rule fpm_handle_invariant [OF _ assms, of "\<lambda>s. \<exists>es. snd (snd s) = out @ es"])
    fix s s1 ty body
    assume "\<exists>es. snd (snd s) = out @ es" and "fpm_frame env s ty body = Some s1"
    then show "\<exists>es. snd (snd s1) = out @ es" by (cases s; cases s1) (auto dest: fpm_frame_out)
  qed simp
  then show ?thesis by simp
qed

lemma bmp_handle_out:
  assumes "bmp_handle env (b, n, out) str = Some (b', n', out')"
  shows "\<exists>es. out' = out @ es"
proof -
  have "\<exists>es. snd (snd (b', n', out')) = out @ es"
  proof (rule bmp_handle_invariant [OF _ assms, of "\<lambda>s. \<exists>es. snd (snd s) = out @ es"])
    fix s s1 ty body
    assume "\<exists>es. snd (snd s) = out @ es" and "bmp_frame env s ty body = Some s1"
    then show "\<exists>es. snd (snd s1) = out @ es" by (cases s; cases s1) (auto dest: bmp_frame_out)
  qed simp
  then show ?thesis by simp
qed

text \<open>
  C36. A restart of FRR always wakes the OSPF plane: when bgpd or zebra connects, whatever bytes
  its session then carries and whatever the shim was doing, an OSPF reconcile is pending until
  its worker takes it.
\<close>

theorem reconnect_wakes_ospf:
  assumes "(\<exists>env f f' str. w_hook (f_w f) \<and> fpm_connect env f str = Some (f', es)) \<or>
    (\<exists>env b b' str. w_hook (b_w b) \<and> bmp_connect env b str = Some (b', es))"
  shows "chan_recv (s_trig (apply_effects now s es)) \<noteq> None"
proof -
  obtain reason rest where es: "es = KickOSPF reason # rest"
    using assms
  proof (elim disjE exE conjE)
    fix env f f' str
    assume "w_hook (f_w f)" and "fpm_connect env f str = Some (f', es)"
    then obtain n where "fpm_handle env (f, 0, [KickOSPF ''fpm-reconnect'']) str = Some (f', n, es)"
      by (auto simp: fpm_connect_def)
    from fpm_handle_out [OF this] show thesis using that by auto
  next
    fix env b b' str
    assume "w_hook (b_w b)" and "bmp_connect env b str = Some (b', es)"
    then obtain n where "bmp_handle env (b, 0, [KickOSPF ''bmp-reconnect'']) str = Some (b', n, es)"
      by (auto simp: bmp_connect_def)
    from bmp_handle_out [OF this] show thesis using that by auto
  qed
  have "Kick reason (s_trig s) \<noteq> []" by (simp add: Kick_def ospf_signal_def nb_send_def)
  then have "s_trig (apply_effects now s es) \<noteq> []"
    using trig_kept [of "s\<lparr>s_trig := Kick reason (s_trig s)\<rparr>" now rest] by (simp add: es)
  then show ?thesis by (simp add: chan_recv_def split: list.split)
qed

theorem reconnect_wakes_ospf_witness:
  "chan_recv (s_trig (apply_effects 7 (shim_start ''frr'') [KickOSPF ''fpm-reconnect''])) \<noteq> None"
proof (rule reconnect_wakes_ospf)
  have "fpm_connect (\<lambda>_. None) (NewFPM None all_wired) [] = Some (NewFPM None all_wired, [KickOSPF ''fpm-reconnect''])"
    by (simp add: fpm_connect_def fpm_handle.simps NewFPM_def all_wired_def)
  then show "(\<exists>env f f' str. w_hook (f_w f) \<and> fpm_connect env f str = Some (f', [KickOSPF ''fpm-reconnect''])) \<or>
      (\<exists>env b b' str. w_hook (b_w b) \<and> bmp_connect env b str = Some (b', [KickOSPF ''fpm-reconnect'']))"
    by (intro disjI1 exI conjI) (auto simp: NewFPM_def all_wired_def)
qed

section \<open>Routes across the planes\<close>

text \<open>
  C37. The planes name a route alike: the prefix under which the FPM collector files an IPv4
  route is the one under which the netlink ingester files the kernel's route for the same
  network, so that the lineage tracker joins the two testimonies.
\<close>

theorem fpm_and_kernel_prefixes_agree:
  assumes "length a = 4" and "n \<le> 32"
  shows "fst (formatPrefix 2 a (word_of_nat n)) =
    routePrefix \<lparr>kr_family = 2, kr_dst = Some \<lparr>net_ip = a, net_mask = CIDRMask n 32\<rparr>, kr_gw = gw,
                 kr_table = table, kr_proto = proto\<rparr>"
proof -
  have "unat (word_of_nat n :: byte) = n" using assms(2) by (intro unat_of_small8) simp
  moreover have "to4 a = a" "copy_into 4 a = a" "a \<noteq> []" using assms(1) by (auto simp: to4_def)
  moreover have "length (CIDRMask n 32) = 4" "CIDRMask n 32 \<noteq> []" using CIDRMask_length [of n 32] by (auto simp del: CIDRMask_length)
  ultimately show ?thesis
    using assms by (simp add: formatPrefix_def routePrefix_def ipnet_string_def Let_def mask_length_bits [OF CIDRMask_bits])
qed

theorem fpm_and_kernel_prefixes_agree_witness:
  "fst (formatPrefix 2 [10, 0, 1, 0] (word_of_nat 24)) =
    routePrefix \<lparr>kr_family = 2, kr_dst = Some \<lparr>net_ip = [10, 0, 1, 0], net_mask = CIDRMask 24 32\<rparr>, kr_gw = [],
                 kr_table = 254, kr_proto = 11\<rparr>"
  by (rule fpm_and_kernel_prefixes_agree) simp_all

lemma lineage_pass_events:
  assumes "c_ch (s_cor s) @ map (\<lambda>(kind, pfx, detail). \<lparr>ev_bus = ''lineage'', ev_kind = kind, ev_key = pfx,
      ev_detail = detail, ev_root = True, ev_ts = now\<rparr>) (snd (reconcile (s_lin s) now xs)) = q"
    and "length q \<le> chan_cap"
  shows "c_ch (s_cor (lineage_pass now xs s)) = q"
proof -
  let ?ev = "\<lambda>(kind, pfx, detail). \<lparr>ev_bus = ''lineage'', ev_kind = kind, ev_key = pfx,
      ev_detail = detail, ev_root = True, ev_ts = now\<rparr>"
  have loop: "c_ch (s_cor (foldl (\<lambda>s (kind, pfx, detail). shim_emit now s ''lineage'' kind pfx detail True) s' out)) =
      c_ch (s_cor s') @ map ?ev out" if "length (c_ch (s_cor s') @ map ?ev out) \<le> chan_cap" for s' out
    using that
  proof (induction out arbitrary: s')
    case (Cons x out)
    obtain kind pfx detail where x: "x = (kind, pfx, detail)" by (cases x)
    let ?s = "shim_emit now s' ''lineage'' kind pfx detail True"
    have "c_ch (s_cor ?s) = c_ch (s_cor s') @ [?ev x]"
      using Cons.prems by (simp add: x nb_send_def)
    with Cons.IH [of ?s] Cons.prems show ?case by (simp add: x)
  qed simp
  show ?thesis
    using loop [of "s\<lparr>s_lin := fst (reconcile (s_lin s) now xs)\<rparr>" "snd (reconcile (s_lin s) now xs)"] assms
    by (simp add: lineage_pass_def split_beta)
qed

lemma observations_route_effects:
  "w_lin w \<Longrightarrow> observations (route_effects w vrf af p nh push del) =
     [(p, Fpm, \<not> del, ''vrf='' @ vrf @ '' nh='' @ nh)]"
  by (simp add: route_effects_def Let_def emit_if_def observe_if_def)

text \<open>
  C30. A silent install failure surfaces as a root cause.  Let a tracker with its hook have no
  kernel testimony of a prefix, of whatever VRF or table (C38), and no reported gap of it
  standing.  When zebra pushes a route for the prefix, nothing else is observed, and the next
  pass of the lineage loop comes later than the grace period, in any order of the entries and
  with room in the event queue for an event per tracked prefix, then that pass puts a root event
  of kind \<^verbatim>\<open>install-gap\<close> for the prefix into the correlator, naming the VRF and next
  hop zebra pushed.  (A gap reported before that still stands is not reported again, not even
  after zebra withdrew the route in between, \<open>flag_survives_withdrawal\<close>.)
\<close>

theorem install_failure_becomes_root_event:
  assumes "w_lin w" and "p \<noteq> []" and "t_inv (s_lin s)" and "t_emit (s_lin s)"
    and "t_abs (s_lin s) (p, Kernel) = None"
    and "case t_routes (s_lin s) p of None \<Rightarrow> True | Some e \<Rightarrow> \<not> e_flagged e"
    and "s1 = apply_effects t0 s (route_effects w vrf af p nh push False)"
    and "t_grace (s_lin s) < time_sub t1 t0" and "enumerates xs (t_routes (s_lin s1))"
    and "length (c_ch (s_cor s1)) + length xs \<le> chan_cap"
  shows "\<exists>e \<in> set (c_ch (s_cor (lineage_pass t1 xs s1))).
    ev_bus e = ''lineage'' \<and> ev_kind e = ''install-gap'' \<and> ev_key e = p \<and> ev_root e \<and>
    ev_detail e = ''fpm pushed but kernel unconfirmed >'' @ dur_string (t_grace (s_lin s)) @
      '' (vrf='' @ vrf @ '' nh='' @ nh @ '')''"
proof -
  let ?d = "''vrf='' @ vrf @ '' nh='' @ nh"
  have lin: "s_lin s1 = Observe (s_lin s) t0 p Fpm True ?d"
    using assms(1) by (simp add: assms(7) shim_lin observations_route_effects)
  have emit: "t_emit (s_lin s1)" "t_grace (s_lin s1) = t_grace (s_lin s)"
    using assms(4) by (simp_all add: lin Observe_def Let_def)
  obtain e where e: "t_routes (s_lin s1) p = Some e" "e_present e Fpm" "\<not> e_present e Kernel"
    "\<not> e_flagged e" "h_ts (e_hops e Fpm) = t0" "h_detail (e_hops e Fpm) = ?d" "e_prefix e = p"
    using assms(2, 3, 5, 6) by (cases "t_routes (s_lin s) p")
      (auto simp: lin Observe_def Let_def t_abs_def t_inv_def e_present_def new_entry_def no_hop_def
        split: if_splits)
  have "(p, e) \<in> set xs" using e(1) enumerates_lookup [OF assms(9)] by simp
  moreover have "gap_due (s_lin s1) t1 e" using e assms(8) emit by (simp add: gap_due_def)
  ultimately have out: "gap_anomaly (s_lin s1) e \<in> set (snd (reconcile (s_lin s1) t1 xs))"
    using emit by (force simp: reconcile_snd)
  have "length (snd (reconcile (s_lin s1) t1 xs)) \<le> length xs"
    using emit by (simp add: reconcile_snd)
  with assms(10) have "c_ch (s_cor (lineage_pass t1 xs s1)) = c_ch (s_cor s1) @
      map (\<lambda>(kind, pfx, detail). \<lparr>ev_bus = ''lineage'', ev_kind = kind, ev_key = pfx,
        ev_detail = detail, ev_root = True, ev_ts = t1\<rparr>) (snd (reconcile (s_lin s1) t1 xs))"
    by (intro lineage_pass_events) simp_all
  with out e emit show ?thesis by (force simp: gap_anomaly_def)
qed

definition demo_gap_entry :: entry where
  "demo_gap_entry = (new_entry ''10.0.1.0/24'')\<lparr>e_hops := (\<lambda>_. no_hop)(Fpm :=
     \<lparr>h_present = True, h_ts = 0, h_detail = ''vrf=cust nh=10.0.0.1''\<rparr>)\<rparr>"

theorem install_failure_becomes_root_event_witness:
  "\<exists>e \<in> set (c_ch (s_cor (lineage_pass 4000000000 [(''10.0.1.0/24'', demo_gap_entry)]
      (apply_effects 0 (shim_start ''frr'')
        (route_effects all_wired ''cust'' ''ipv4-unicast'' ''10.0.1.0/24'' ''10.0.0.1'' [] False))))).
    ev_bus e = ''lineage'' \<and> ev_kind e = ''install-gap'' \<and> ev_key e = ''10.0.1.0/24'' \<and> ev_root e \<and>
    ev_detail e = ''fpm pushed but kernel unconfirmed >'' @ dur_string (t_grace (s_lin (shim_start ''frr''))) @
      '' (vrf='' @ ''cust'' @ '' nh='' @ ''10.0.0.1'' @ '')''"
proof (rule install_failure_becomes_root_event [OF _ _ _ _ _ _ refl])
  show "t_inv (s_lin (shim_start ''frr''))" by (simp add: shim_start_def t_inv_New)
  let ?s1 = "apply_effects 0 (shim_start ''frr'')
    (route_effects all_wired ''cust'' ''ipv4-unicast'' ''10.0.1.0/24'' ''10.0.0.1'' [] False)"
  show "enumerates [(''10.0.1.0/24'', demo_gap_entry)] (t_routes (s_lin ?s1))"
    by (simp add: shim_lin observations_route_effects all_wired_def shim_start_def enumerates_def Observe_def
        Let_def lineage_New_def demo_gap_entry_def new_entry_def e_present_def fun_eq_iff)
  show "length (c_ch (s_cor ?s1)) + length [(''10.0.1.0/24'', demo_gap_entry)] \<le> chan_cap"
    by (simp add: route_effects_def all_wired_def emit_if_def observe_if_def shim_start_def
        correlate_New_def chan_cap_def nb_send_def Let_def)
qed (simp_all add: all_wired_def shim_start_def lineage_New_def t_abs_def second_def time_sub_def)

text \<open>
  C38. The lineage of a prefix is not per VRF: a kernel route of the same prefix in any other
  table, or a BGP route of it in any VPN, stands in for the one zebra pushed.  After zebra has
  pushed a prefix in one VRF and the kernel has installed that prefix in any table, no pass
  ever reports the push, although its own table may never have received it.
\<close>

theorem other_vrf_masks_install_failure:
  assumes "w_lin w" and "p \<noteq> []" and "routePrefix (ru_route u) = p" and "kr_family (ru_route u) \<in> {2, 10}"
    and "ru_type u \<noteq> 25" and "t_inv (s_lin s)"
    and "s1 = apply_effects t0 s (route_effects w vrf af p nh push False @ route_event w u)"
    and "enumerates xs (t_routes (s_lin s1))"
  shows "p \<notin> (fst \<circ> snd) ` set (snd (reconcile (s_lin s1) now xs))"
proof -
  obtain d where obs: "observations (route_event w u) = [(p, Kernel, True, d)]"
    using assms(1-5) by (auto simp: route_event_def Let_def emit_if_def observe_if_def)
  let ?t = "Observe (s_lin s) t0 p Fpm True (''vrf='' @ vrf @ '' nh='' @ nh)"
  have lin: "s_lin s1 = Observe ?t t0 p Kernel True d"
    using assms(1) by (simp add: assms(7) shim_lin observations_route_effects obs flip: apply_effects_def)
  have inv: "t_inv (s_lin s1)" using assms(6) by (simp add: lin t_inv_Observe)
  show ?thesis
  proof (cases "t_emit (s_lin s1)")
    case False
    then show ?thesis by (simp add: reconcile_snd)
  next
    case True
    have "e_present (the (t_routes (s_lin s1) p)) Kernel"
      using assms(2) by (simp add: lin Observe_def Let_def e_present_def)
    with reconcile_out_set [OF inv True assms(8), of now] show ?thesis by (auto simp: gap_due_def)
  qed
qed

definition demo_masked :: shim where
  "demo_masked = apply_effects 0 (shim_start ''frr'')
     (route_effects all_wired ''cust'' ''ipv4-unicast'' ''0.0.0.0/0'' ''10.0.0.1'' [] False @
      route_event all_wired \<lparr>ru_type = 24, ru_route = \<lparr>kr_family = 2, kr_dst = None, kr_gw = [192, 168, 0, 1],
        kr_table = 254, kr_proto = 16\<rparr>\<rparr>)"

theorem other_vrf_masks_install_failure_witness:
  "''0.0.0.0/0'' \<notin> (fst \<circ> snd) ` set (snd (reconcile (s_lin demo_masked) 9000000000
     [(''0.0.0.0/0'', the (t_routes (s_lin demo_masked) ''0.0.0.0/0''))]))"
proof (rule other_vrf_masks_install_failure [OF _ _ _ _ _ _ demo_masked_def])
  show "t_inv (s_lin (shim_start ''frr''))" by (simp add: shim_start_def t_inv_New)
  show "enumerates [(''0.0.0.0/0'', the (t_routes (s_lin demo_masked) ''0.0.0.0/0''))] (t_routes (s_lin demo_masked))"
    by (simp add: demo_masked_def shim_lin route_event_def routePrefix_def emit_if_def observe_if_def
        observations_route_effects all_wired_def observations_def shim_start_def enumerates_def Observe_def
        route_effects_def Let_def lineage_New_def new_entry_def e_present_def fun_eq_iff)
qed (simp_all add: all_wired_def routePrefix_def)

end
